(* ===== verification/Prelude.thy ===== *)
theory Prelude
  imports Main "HOL-Library.Word" "HOL-Library.Code_Target_Nat"
begin

text \<open>
  Shared material of the KVRPC development: the byte and machine-integer types, the
  exceptions the C++ sources throw, 64-bit unsigned arithmetic on \<^typ>\<open>nat\<close> with the
  wrap-around written out, network-order (big-endian) integers as byte lists, and generic
  lemmas on lists that the component theories share.
\<close>

unbundle bit_operations_syntax

section \<open>Collections of simplification rules\<close>

named_theorems wire_simps \<open>lengths and slices of encoded frames\<close>
named_theorems limit_defs \<open>the numeric limits of the protocols\<close>

section \<open>Bytes and exceptions\<close>

type_synonym byte = "8 word"
type_synonym bytes = "8 word list"

text \<open>
  The exception classes the sources throw. \<open>Aof_capacity_error\<close> derives from
  \<open>std::runtime_error\<close> (\<open>aof.h\<close>) and so does \<open>kvrpc::Error\<close> (\<open>error.h\<close>).
\<close>

datatype error_code =
  EC_invalid_argument | EC_overloaded | EC_closed | EC_timeout | EC_connection | EC_transport
| EC_protocol | EC_remote

datatype exn =
  Runtime_error string
| Aof_capacity_error string
| Rpc_error error_code string
| Remote_error "32 word" string
| Length_error string
| Invalid_argument string
| Out_of_range string
| Logic_error string
| System_error string
| Bad_alloc

fun is_runtime_error :: "exn \<Rightarrow> bool" where
  "is_runtime_error (Runtime_error _) = True"
| "is_runtime_error (Aof_capacity_error _) = True"
| "is_runtime_error (Rpc_error _ _) = True"
| "is_runtime_error (Remote_error _ _) = True"
| "is_runtime_error (System_error _) = True"
| "is_runtime_error _ = False"

type_synonym 'a result = "exn + 'a"

definition rbind :: "'a result \<Rightarrow> ('a \<Rightarrow> 'b result) \<Rightarrow> 'b result" where
  "rbind r f = (case r of Inl e \<Rightarrow> Inl e | Inr x \<Rightarrow> f x)"

lemma rbind_Inl [simp]: "rbind (Inl e) f = Inl e"
  by (simp add: rbind_def)

lemma rbind_Inr [simp]: "rbind (Inr x) f = f x"
  by (simp add: rbind_def)

lemma rbind_eq_Inr [simp]: "rbind r f = Inr y \<longleftrightarrow> (\<exists>x. r = Inr x \<and> f x = Inr y)"
  by (cases r) auto

definition throw_if :: "bool \<Rightarrow> exn \<Rightarrow> unit result" where
  "throw_if b e = (if b then Inl e else Inr ())"

lemma throw_if_simps [simp]:
  "throw_if False e = Inr ()"
  "throw_if True e = Inl e"
  by (simp_all add: throw_if_def)

lemma throw_if_Inr [simp]: "throw_if b e = Inr u \<longleftrightarrow> \<not> b"
  by (simp add: throw_if_def)

text \<open>A loop that builds one result per element and propagates the first exception.\<close>

fun rmap :: "('a \<Rightarrow> 'b result) \<Rightarrow> 'a list \<Rightarrow> 'b list result" where
  "rmap f [] = Inr []"
| "rmap f (x # xs) = rbind (f x) (\<lambda>y. rbind (rmap f xs) (\<lambda>ys. Inr (y # ys)))"

lemma rmap_Inr: "rmap f xs = Inr ys \<longleftrightarrow> list_all2 (\<lambda>x y. f x = Inr y) xs ys"
proof (induction xs arbitrary: ys)
  case Nil
  show ?case by auto
next
  case (Cons x xs)
  then show ?case by (cases ys) auto
qed

lemma rmap_ok: "(\<exists>ys. rmap f xs = Inr ys) \<longleftrightarrow> (\<forall>x \<in> set xs. \<exists>y. f x = Inr y)"
  by (induction xs) auto

text \<open>The bytes of a string literal.\<close>

definition chars :: "string \<Rightarrow> bytes" where
  "chars s = map of_char s"

section \<open>64-bit unsigned arithmetic\<close>

text \<open>
  \<open>size_t\<close> and \<open>uint64_t\<close> counters are natural numbers below \<open>2 ^ 64\<close>; additions and
  subtractions on them wrap around, as the C++ operators do. The lemmas \<open>sz_add_exact\<close>
  and \<open>sz_sub_exact\<close> say when they do not.
\<close>

definition sz_mod :: nat where
  "sz_mod = 2 ^ 64"

definition sz_add :: "nat \<Rightarrow> nat \<Rightarrow> nat" where
  "sz_add a b = (a + b) mod sz_mod"

definition sz_sub :: "nat \<Rightarrow> nat \<Rightarrow> nat" where
  "sz_sub a b = (a + sz_mod - b) mod sz_mod"

lemma sz_mod_pos [simp]: "0 < sz_mod"
  by (simp add: sz_mod_def)

lemma sz_add_exact: "a + b < sz_mod \<Longrightarrow> sz_add a b = a + b"
  by (simp add: sz_add_def)

lemma sz_sub_exact: "b \<le> a \<Longrightarrow> a < sz_mod \<Longrightarrow> sz_sub a b = a - b"
proof -
  assume "b \<le> a" and "a < sz_mod"
  then have "a + sz_mod - b = (a - b) + sz_mod" and "a - b < sz_mod"
    by simp_all
  then show ?thesis
    unfolding sz_sub_def by (metis mod_add_self2 mod_less)
qed

lemma sz_add_less [simp]: "sz_add a b < sz_mod"
  by (simp add: sz_add_def)

lemma sz_sub_less [simp]: "sz_sub a b < sz_mod"
  by (simp add: sz_sub_def)

lemma foldl_sz_add:
  "a + sum_list (map f xs) < sz_mod \<Longrightarrow> foldl (\<lambda>acc x. sz_add acc (f x)) a xs = a + sum_list (map f xs)"
  by (induction xs arbitrary: a) (simp_all add: sz_add_exact ac_simps)

section \<open>Big-endian integers\<close>

text \<open>
  \<open>be_bytes n w\<close> is the loop \<open>bytes[i] = w & 255; w >>= 8\<close> run from the last of \<open>n\<close>
  bytes to the first, and what \<open>htons\<close>/\<open>htonl\<close> followed by \<open>memcpy\<close> stores;
  \<open>be_val\<close> is the loop \<open>w = (w << 8) | byte\<close>.
\<close>

primrec be_bytes :: "nat \<Rightarrow> 'a::len word \<Rightarrow> bytes" where
  "be_bytes 0 w = []"
| "be_bytes (Suc n) w = be_bytes n (drop_bit 8 w) @ [ucast w]"

definition be_val :: "bytes \<Rightarrow> 'a::len word" where
  "be_val bs = foldl (\<lambda>acc b. push_bit 8 acc OR ucast b) 0 bs"

lemma length_be_bytes [simp, wire_simps]: "length (be_bytes n w) = n"
  by (induction n arbitrary: w) auto

lemma be_val_Nil [simp]: "be_val [] = 0"
  by (simp add: be_val_def)

lemma be_val_snoc: "be_val (bs @ [b]) = push_bit 8 (be_val bs) OR ucast b"
  by (simp add: be_val_def)

lemma be_val_be_bytes_take_bit: "be_val (be_bytes n w) = take_bit (8 * n) w"
proof (induction n arbitrary: w)
  case 0
  show ?case by simp
next
  case (Suc n)
  show ?case
    by (rule bit_word_eqI)
      (auto simp: be_val_snoc Suc.IH bit_or_iff bit_push_bit_iff bit_take_bit_iff
        bit_drop_bit_eq bit_ucast_iff)
qed

lemma be_val_be_bytes [simp]: "LENGTH('a) \<le> 8 * n \<Longrightarrow> be_val (be_bytes n w) = (w :: 'a::len word)"
  by (simp add: be_val_be_bytes_take_bit take_bit_word_eq_self)

lemma be_bytes_be_val:
  "8 * length bs \<le> LENGTH('a) \<Longrightarrow> be_bytes (length bs) (be_val bs :: 'a::len word) = bs"
proof (induction bs rule: rev_induct)
  case Nil
  show ?case by simp
next
  case (snoc b bs)
  have "drop_bit 8 (be_val (bs @ [b]) :: 'a word) = be_val bs"
  proof (rule bit_word_eqI)
    fix i
    assume i: "i < LENGTH('a)"
    have "\<not> bit (be_val bs :: 'a word) i" if "LENGTH('a) \<le> i + 8"
    proof -
      have "be_val (be_bytes (length bs) (be_val bs :: 'a word)) = (be_val bs :: 'a word)"
        using snoc by simp
      then have "take_bit (8 * length bs) (be_val bs) = (be_val bs :: 'a word)"
        by (simp add: be_val_be_bytes_take_bit)
      moreover have "8 * length bs \<le> i"
        using snoc.prems that by simp
      ultimately show ?thesis
        by (metis bit_take_bit_iff not_le)
    qed
    moreover have "\<not> bit b (8 + i)"
      using bit_imp_le_length [of b "8 + i"] by auto
    ultimately show "bit (drop_bit 8 (be_val (bs @ [b]) :: 'a word)) i = bit (be_val bs :: 'a word) i"
      using i
      by (cases "LENGTH('a) \<le> i + 8")
        (auto simp: be_val_snoc bit_drop_bit_eq bit_or_iff bit_push_bit_iff bit_ucast_iff
          ac_simps)
  qed
  moreover have "ucast (be_val (bs @ [b]) :: 'a word) = b"
    using snoc.prems
    by (intro bit_word_eqI) (auto simp: be_val_snoc bit_or_iff bit_push_bit_iff bit_ucast_iff)
  ultimately show ?case
    using snoc by simp
qed

section \<open>Lists\<close>

lemma slice_append_exact [wire_simps]:
  "length xs = n \<Longrightarrow> take n (xs @ ys) = xs"
  "length xs = n \<Longrightarrow> drop n (xs @ ys) = ys"
  by simp_all

lemma drop_plus: "drop (m + n) xs = drop n (drop m xs)"
  by (simp add: add.commute)

lemma list_split3: "n + m = length xs \<Longrightarrow> take n xs @ take m (drop n xs) = xs"
  by (metis order_refl take_add take_all)

lemma take_chunk:
  "n \<le> m \<Longrightarrow> take n xs @ take (m - length (take n xs)) (drop (length (take n xs)) xs) = take m xs"
  by (cases "n \<le> length xs") (simp_all add: min_def take_add [symmetric])

end
