(* ===== verification/Cache_Interface.thy ===== *)
theory Cache_Interface
  imports Prelude
begin

text \<open>
  What the service relies on from a cache with expiring entries, stated as a locale. The
  observation \<open>view now c k\<close> is the live entry of a key: its value and its expiry time
  (0 for none). A bounded cache may forget entries, so a store promises the stored key and
  says of the other keys only that nothing new appears. The theorem \<open>coherent_run\<close>,
  proved once here, compares any sequence of timed calls with an unbounded map: every reply
  is a miss or exactly what the map holds. \<open>Lru_Cache\<close> and \<open>Sharded_Cache\<close> interpret it.
\<close>

type_synonym store = "bytes \<rightharpoonup> bytes \<times> nat"

datatype cache_op = Op_put bytes bytes nat | Op_get bytes | Op_remove bytes

definition live_at :: "nat \<Rightarrow> (bytes \<times> nat) option \<Rightarrow> (bytes \<times> nat) option" where
  "live_at now r = (case r of None \<Rightarrow> None | Some (v, x) \<Rightarrow> if x \<noteq> 0 \<and> x \<le> now then None else Some (v, x))"

fun store_step :: "cache_op \<Rightarrow> store \<Rightarrow> store" where
  "store_step (Op_put k v x) m = m(k \<mapsto> (v, x))"
| "store_step (Op_get k) m = m"
| "store_step (Op_remove k) m = m(k := None)"

fun store_reply :: "nat \<Rightarrow> cache_op \<Rightarrow> store \<Rightarrow> bytes option" where
  "store_reply now (Op_get k) m = map_option fst (live_at now (m k))"
| "store_reply now _ m = None"

fun store_run :: "(nat \<times> cache_op) list \<Rightarrow> store \<Rightarrow> bytes option list" where
  "store_run [] m = []"
| "store_run ((now, op) # ops) m = store_reply now op m # store_run ops (store_step op m)"

fun cache_step ::
  "(nat \<Rightarrow> bytes \<Rightarrow> bytes \<Rightarrow> nat \<Rightarrow> 'c \<Rightarrow> unit result \<times> 'c) \<Rightarrow> (nat \<Rightarrow> bytes \<Rightarrow> 'c \<Rightarrow> bytes option \<times> 'c) \<Rightarrow>
   (bytes \<Rightarrow> 'c \<Rightarrow> bool \<times> 'c) \<Rightarrow> nat \<Rightarrow> cache_op \<Rightarrow> 'c \<Rightarrow> bytes option \<times> 'c" where
  "cache_step put get remove now (Op_put k v x) c = (None, snd (put now k v x c))"
| "cache_step put get remove now (Op_get k) c = get now k c"
| "cache_step put get remove now (Op_remove k) c = (None, snd (remove k c))"

fun cache_run ::
  "(nat \<Rightarrow> bytes \<Rightarrow> bytes \<Rightarrow> nat \<Rightarrow> 'c \<Rightarrow> unit result \<times> 'c) \<Rightarrow> (nat \<Rightarrow> bytes \<Rightarrow> 'c \<Rightarrow> bytes option \<times> 'c) \<Rightarrow>
   (bytes \<Rightarrow> 'c \<Rightarrow> bool \<times> 'c) \<Rightarrow> (nat \<times> cache_op) list \<Rightarrow> 'c \<Rightarrow> bytes option list \<times> 'c" where
  "cache_run put get remove [] c = ([], c)"
| "cache_run put get remove ((now, op) # ops) c =
     (let (r, c') = cache_step put get remove now op c;
          (rs, c'') = cache_run put get remove ops c'
      in (r # rs, c''))"

fun storable :: "(bytes \<Rightarrow> bytes \<Rightarrow> bool) \<Rightarrow> cache_op \<Rightarrow> bool" where
  "storable ok (Op_put k v x) = ok k v"
| "storable ok _ = True"

lemma live_at_None [simp]: "live_at now None = None"
  by (simp add: live_at_def)

lemma live_at_mono: "now \<le> now' \<Longrightarrow> live_at now' r = Some y \<Longrightarrow> live_at now r = Some y"
  by (auto simp: live_at_def split: option.splits if_splits)

lemma live_at_SomeD: "live_at now r = Some y \<Longrightarrow> r = Some y"
  by (auto simp: live_at_def split: option.splits if_splits)

lemma live_at_idem: "now \<le> now' \<Longrightarrow> live_at now' (live_at now r) = live_at now' r"
  by (auto simp: live_at_def split: option.splits)

locale ttl_cache =
  fixes inv :: "'c \<Rightarrow> bool"
    and view :: "nat \<Rightarrow> 'c \<Rightarrow> bytes \<Rightarrow> (bytes \<times> nat) option"
    and canStore :: "bytes \<Rightarrow> bytes \<Rightarrow> 'c \<Rightarrow> bool"
    and put :: "nat \<Rightarrow> bytes \<Rightarrow> bytes \<Rightarrow> nat \<Rightarrow> 'c \<Rightarrow> unit result \<times> 'c"
    and get :: "nat \<Rightarrow> bytes \<Rightarrow> 'c \<Rightarrow> bytes option \<times> 'c"
    and remove :: "bytes \<Rightarrow> 'c \<Rightarrow> bool \<times> 'c"
  assumes view_later: "now \<le> now' \<Longrightarrow> view now' c k = live_at now' (view now c k)"
    and put_ok: "inv c \<Longrightarrow> canStore k v c \<Longrightarrow> fst (put now k v x c) = Inr ()"
    and put_full: "inv c \<Longrightarrow> \<not> canStore k v c \<Longrightarrow> \<exists>e. put now k v x c = (Inl e, c)"
    and put_inv: "inv c \<Longrightarrow> inv (snd (put now k v x c))"
    and put_same: "inv c \<Longrightarrow> canStore k v c \<Longrightarrow> now \<le> now' \<Longrightarrow>
          view now' (snd (put now k v x c)) k = live_at now' (Some (v, x))"
    and put_other: "inv c \<Longrightarrow> k' \<noteq> k \<Longrightarrow> view now' (snd (put now k v x c)) k' = Some y \<Longrightarrow> view now' c k' = Some y"
    and get_reply: "inv c \<Longrightarrow> fst (get now k c) = map_option fst (view now c k)"
    and get_inv: "inv c \<Longrightarrow> inv (snd (get now k c))"
    and get_view: "inv c \<Longrightarrow> now \<le> now' \<Longrightarrow> view now' (snd (get now k c)) = view now' c"
    and remove_inv: "inv c \<Longrightarrow> inv (snd (remove k c))"
    and remove_view: "inv c \<Longrightarrow> view now' (snd (remove k c)) = (view now' c)(k := None)"
    and canStore_put: "inv c \<Longrightarrow> canStore k' v' (snd (put now k v x c)) = canStore k' v' c"
    and canStore_get: "inv c \<Longrightarrow> canStore k' v' (snd (get now k c)) = canStore k' v' c"
    and canStore_remove: "inv c \<Longrightarrow> canStore k' v' (snd (remove k c)) = canStore k' v' c"
begin

definition covered :: "nat \<Rightarrow> 'c \<Rightarrow> store \<Rightarrow> bool" where
  "covered now c m \<longleftrightarrow> inv c \<and> (\<forall>now' k y. now \<le> now' \<longrightarrow> view now' c k = Some y \<longrightarrow> m k = Some y)"

lemma covered_later: "covered now c m \<Longrightarrow> now \<le> now' \<Longrightarrow> covered now' c m"
  unfolding covered_def by (meson order_trans)

lemma coveredD: "covered now c m \<Longrightarrow> now \<le> now' \<Longrightarrow> view now' c k = Some y \<Longrightarrow> m k = Some y"
  unfolding covered_def by blast

lemma coveredI:
  "inv c \<Longrightarrow> (\<And>now' k y. now \<le> now' \<Longrightarrow> view now' c k = Some y \<Longrightarrow> m k = Some y) \<Longrightarrow> covered now c m"
  unfolding covered_def by blast

lemma covered_inv: "covered now c m \<Longrightarrow> inv c"
  by (simp add: covered_def)

lemma covered_reply:
  assumes "covered now c m"
  shows "fst (get now k c) = None \<or> fst (get now k c) = map_option fst (live_at now (m k))"
proof (cases "view now c k")
  case None
  with assms show ?thesis
    by (simp add: covered_def get_reply)
next
  case (Some y)
  then have "m k = Some y" and "live_at now (Some y) = Some y"
    using coveredD [OF assms order_refl] view_later [of now now c k] by auto
  with Some assms show ?thesis
    by (simp add: covered_def get_reply)
qed

lemma covered_step:
  assumes "covered now c m" and "storable (\<lambda>k v. canStore k v c) op"
  shows "covered now (snd (cache_step put get remove now op c)) (store_step op m)"
proof (cases op)
  case (Op_put k v x)
  note inv = covered_inv [OF assms(1)]
  have "view now' (snd (put now k v x c)) k' = Some y \<Longrightarrow> (m(k \<mapsto> (v, x))) k' = Some y"
    if "now \<le> now'" for now' k' y
    using assms that Op_put put_same [OF inv, of k v now now' x] put_other [OF inv, of k' k now' now v x y]
    by (cases "k' = k") (auto dest: coveredD simp: live_at_def split: if_splits)
  with Op_put inv show ?thesis
    by (auto intro!: coveredI put_inv)
next
  case (Op_get k)
  with covered_inv [OF assms(1)] show ?thesis
    by (auto intro!: coveredI get_inv dest: coveredD [OF assms(1)] simp: get_view)
next
  case (Op_remove k)
  with covered_inv [OF assms(1)] show ?thesis
    by (auto intro!: coveredI remove_inv dest: coveredD [OF assms(1)] simp: remove_view split: if_splits)
qed

lemma canStore_step:
  "inv c \<Longrightarrow> canStore k v (snd (cache_step put get remove now op c)) = canStore k v c"
  by (cases op) (simp_all add: canStore_put canStore_get canStore_remove)

text \<open>Replies of a run, one by one: a miss, or what the unbounded store holds at that time.\<close>

lemma coherent_run:
  assumes "covered now c m" and "sorted (map fst ops)" and "\<forall>op \<in> set ops. now \<le> fst op"
    and "\<forall>op \<in> set ops. storable (\<lambda>k v. canStore k v c) (snd op)"
  shows "list_all2 (\<lambda>r s. r = None \<or> r = s) (fst (cache_run put get remove ops c)) (store_run ops m)"
  using assms
proof (induction ops arbitrary: now c m)
  case Nil
  show ?case by simp
next
  case (Cons o1 ops)
  obtain t op where o1: "o1 = (t, op)"
    by (cases o1)
  let ?c = "snd (cache_step put get remove t op c)"
  have cov: "covered t c m"
    using Cons.prems o1 by (auto intro: covered_later)
  have st: "storable (\<lambda>k v. canStore k v c) op"
    using Cons.prems o1 by auto
  have inv: "inv c"
    using cov by (simp add: covered_def)
  have "covered t ?c (store_step op m)"
    using cov st by (rule covered_step)
  moreover have "sorted (map fst ops)" and "\<forall>p \<in> set ops. t \<le> fst p"
    using Cons.prems o1 by auto
  moreover have "\<forall>p \<in> set ops. storable (\<lambda>k v. canStore k v ?c) (snd p)"
    using Cons.prems inv by (simp add: canStore_step)
  ultimately have IH: "list_all2 (\<lambda>r s. r = None \<or> r = s) (fst (cache_run put get remove ops ?c)) (store_run ops (store_step op m))"
    by (rule Cons.IH)
  have "fst (cache_step put get remove t op c) = None \<or> fst (cache_step put get remove t op c) = store_reply t op m"
    using covered_reply [OF cov] by (cases op) auto
  with IH show ?case
    by (simp add: o1 split_beta Let_def)
qed

end

end
