(* ===== verification/Lru_Cache.thy ===== *)
theory Lru_Cache
  imports Cache_Interface
begin

text \<open>
  \<open>LRUCache<std::string, std::string>\<close> of \<open>KVCache/include/lru_cache.h\<close>. The two
  structures the class keeps are both modelled: \<open>items_\<close>, a \<open>std::list\<close> whose nodes carry
  an identity (the iterator, here a natural number drawn from the allocation counter
  \<open>l_next\<close>), and \<open>index_\<close>, a map from keys to iterators. Every method is a function on
  the record \<open>lru\<close>; the clock \<open>UnixMilliseconds()\<close> is the argument \<open>now\<close>, constant
  during one method call, and every method runs under \<open>mutex_\<close>, so calls do not interleave.
  The last section states the reference LRU cache and shows that the class implements it.
\<close>

section \<open>State\<close>

record entry =
  e_key :: bytes
  e_value :: bytes
  e_expires :: nat
  e_bytes :: nat

record lru_stats =
  s_hits :: nat
  s_misses :: nat
  s_bytes :: nat
  s_evictions :: nat

record lru =
  l_capacity :: nat
  l_max_bytes :: nat
  l_items :: "(nat \<times> entry) list"
  l_index :: "bytes \<rightharpoonup> nat"
  l_stats :: lru_stats
  l_next :: nat

text \<open>\<open>sizeof(Entry)\<close> on x86-64 with libstdc++: two 32-byte strings and two 8-byte integers.\<close>

definition SIZEOF_ENTRY :: nat where
  "SIZEOF_ENTRY = 80"

definition entry_cost :: "bytes \<Rightarrow> bytes \<Rightarrow> nat" where
  "entry_cost key value = sz_add (sz_add (length key) (length value)) SIZEOF_ENTRY"

definition lru_new :: "nat \<Rightarrow> nat \<Rightarrow> lru result" where
  "lru_new capacity max_bytes =
     (if capacity = 0 \<or> max_bytes = 0 then Inl (Invalid_argument ''Cache limits must be positive'')
      else Inr \<lparr>l_capacity = capacity, l_max_bytes = max_bytes, l_items = [], l_index = Map.empty,
                l_stats = \<lparr>s_hits = 0, s_misses = 0, s_bytes = 0, s_evictions = 0\<rparr>, l_next = 0\<rparr>)"

section \<open>Operations\<close>

definition lru_canStore :: "bytes \<Rightarrow> bytes \<Rightarrow> lru \<Rightarrow> bool" where
  "lru_canStore key value c \<longleftrightarrow> entry_cost key value \<le> l_max_bytes c"

definition Expired :: "nat \<Rightarrow> entry \<Rightarrow> bool" where
  "Expired now item \<longleftrightarrow> e_expires item \<noteq> 0 \<and> e_expires item \<le> now"

text \<open>
  \<open>Erase(it)\<close>. An iterator that is not in the list would be undefined behaviour; the model
  leaves the state alone there, and the invariant below excludes it.
\<close>

definition Erase :: "nat \<Rightarrow> lru \<Rightarrow> lru" where
  "Erase it c =
     (case map_of (l_items c) it of
        None \<Rightarrow> c
      | Some e \<Rightarrow> c\<lparr>l_stats := (l_stats c)\<lparr>s_bytes := sz_sub (s_bytes (l_stats c)) (e_bytes e)\<rparr>,
                     l_index := (l_index c)(e_key e := None),
                     l_items := filter (\<lambda>n. fst n \<noteq> it) (l_items c)\<rparr>)"

definition count_eviction :: "lru \<Rightarrow> lru" where
  "count_eviction c = c\<lparr>l_stats := (l_stats c)\<lparr>s_evictions := sz_add (s_evictions (l_stats c)) 1\<rparr>\<rparr>"

text \<open>The eviction loop of \<open>put\<close>: erase the last node while a budget is exceeded.\<close>

definition over_budget :: "lru \<Rightarrow> bool" where
  "over_budget c \<longleftrightarrow> length (l_items c) > l_capacity c \<or> s_bytes (l_stats c) > l_max_bytes c"

lemma Erase_length: "length (l_items (Erase it c)) \<le> length (l_items c)"
  by (simp add: Erase_def split: option.split)

lemma Erase_length_less:
  assumes "it \<in> fst ` set (l_items c)"
  shows "length (l_items (Erase it c)) < length (l_items c)"
proof -
  from assms obtain e where "map_of (l_items c) it = Some e"
    by (metis map_of_eq_None_iff not_Some_eq)
  moreover from assms have "length (filter (\<lambda>n. fst n \<noteq> it) (l_items c)) < length (l_items c)"
    by (auto intro: length_filter_less)
  ultimately show ?thesis
    by (simp add: Erase_def)
qed

function evict :: "lru \<Rightarrow> lru" where
  "evict c =
     (if l_items c \<noteq> [] \<and> over_budget c
      then evict (count_eviction (Erase (fst (last (l_items c))) c)) else c)"
  by pat_completeness auto
termination
  by (relation "measure (\<lambda>c. length (l_items c))") (auto simp: count_eviction_def Erase_length_less)

declare evict.simps [simp del]

text \<open>
  \<open>put\<close>. The flag \<open>alloc\<close> says whether \<open>index_.emplace\<close> obtains its memory; when it does
  not, the new node is popped and the exception is rethrown.
\<close>

definition push_front :: "entry \<Rightarrow> lru \<Rightarrow> lru" where
  "push_front e c = c\<lparr>l_items := (l_next c, e) # l_items c, l_next := Suc (l_next c)\<rparr>"

definition add_bytes :: "nat \<Rightarrow> lru \<Rightarrow> lru" where
  "add_bytes n c = c\<lparr>l_stats := (l_stats c)\<lparr>s_bytes := sz_add (s_bytes (l_stats c)) n\<rparr>\<rparr>"

text \<open>Lines 44-47: the old node of the key gives up its bytes and its place in the index.\<close>

definition replace_node :: "bytes \<Rightarrow> nat \<Rightarrow> lru \<Rightarrow> lru" where
  "replace_node key old c =
     (let items = filter (\<lambda>n. fst n \<noteq> old) (l_items c) in
      c\<lparr>l_stats := (l_stats c)\<lparr>s_bytes := sz_sub (s_bytes (l_stats c))
                      (case map_of (l_items c) old of Some e \<Rightarrow> e_bytes e | None \<Rightarrow> 0)\<rparr>,
        l_items := items, l_index := (l_index c)(key \<mapsto> fst (hd items))\<rparr>)"

definition lru_put_alloc ::
  "bool \<Rightarrow> nat \<Rightarrow> bytes \<Rightarrow> bytes \<Rightarrow> nat \<Rightarrow> lru \<Rightarrow> unit result \<times> lru" where
  "lru_put_alloc alloc now key value expires c =
     (let bytes = entry_cost key value in
      if bytes > l_max_bytes c then (Inl (Length_error ''Entry exceeds shard byte budget''), c)
      else
        let old = l_index c key in
        if expires \<noteq> 0 \<and> expires \<le> now
        then (Inr (), case old of Some it \<Rightarrow> Erase it c | None \<Rightarrow> c)
        else
          let c1 = push_front \<lparr>e_key = key, e_value = value, e_expires = expires, e_bytes = bytes\<rparr> c in
          case old of
            Some it \<Rightarrow> (Inr (), evict (add_bytes bytes (replace_node key it c1)))
          | None \<Rightarrow>
              if alloc
              then (Inr (), evict (add_bytes bytes (c1\<lparr>l_index := (l_index c1)(key \<mapsto> fst (hd (l_items c1)))\<rparr>)))
              else (Inl Bad_alloc, c1\<lparr>l_items := tl (l_items c1)\<rparr>))"

abbreviation lru_put :: "nat \<Rightarrow> bytes \<Rightarrow> bytes \<Rightarrow> nat \<Rightarrow> lru \<Rightarrow> unit result \<times> lru" where
  "lru_put \<equiv> lru_put_alloc True"

definition count_miss :: "lru \<Rightarrow> lru" where
  "count_miss c = c\<lparr>l_stats := (l_stats c)\<lparr>s_misses := sz_add (s_misses (l_stats c)) 1\<rparr>\<rparr>"

definition count_hit :: "lru \<Rightarrow> lru" where
  "count_hit c = c\<lparr>l_stats := (l_stats c)\<lparr>s_hits := sz_add (s_hits (l_stats c)) 1\<rparr>\<rparr>"

text \<open>\<open>items_.splice(items_.begin(), items_, it)\<close>: the node moves to the front and keeps its identity.\<close>

definition splice_front :: "nat \<Rightarrow> entry \<Rightarrow> lru \<Rightarrow> lru" where
  "splice_front it e c = c\<lparr>l_items := (it, e) # filter (\<lambda>n. fst n \<noteq> it) (l_items c)\<rparr>"

definition lru_get :: "nat \<Rightarrow> bytes \<Rightarrow> lru \<Rightarrow> bytes option \<times> lru" where
  "lru_get now key c =
     (case l_index c key of
        None \<Rightarrow> (None, count_miss c)
      | Some it \<Rightarrow>
          (case map_of (l_items c) it of
             None \<Rightarrow> (None, c)
           | Some e \<Rightarrow>
               if Expired now e then (None, count_miss (Erase it c))
               else (Some (e_value e), splice_front it e (count_hit c))))"

definition lru_exists :: "nat \<Rightarrow> bytes \<Rightarrow> lru \<Rightarrow> bool \<times> lru" where
  "lru_exists now key c =
     (case l_index c key of
        None \<Rightarrow> (False, c)
      | Some it \<Rightarrow>
          (case map_of (l_items c) it of
             None \<Rightarrow> (False, c)
           | Some e \<Rightarrow> if Expired now e then (False, Erase it c) else (True, c)))"

definition lru_remove :: "bytes \<Rightarrow> lru \<Rightarrow> bool \<times> lru" where
  "lru_remove key c =
     (case l_index c key of None \<Rightarrow> (False, c) | Some it \<Rightarrow> (True, Erase it c))"

definition lru_size :: "lru \<Rightarrow> nat" where
  "lru_size c = length (l_items c)"

definition lru_getStats :: "lru \<Rightarrow> lru_stats" where
  "lru_getStats c = l_stats c"

definition lru_snapshot :: "nat \<Rightarrow> lru \<Rightarrow> entry list" where
  "lru_snapshot now c = filter (\<lambda>e. \<not> Expired now e) (map snd (rev (l_items c)))"

section \<open>The reference cache\<close>

text \<open>
  The reference LRU cache is the list of its entries, most recently used first. A store puts
  the entry in front and keeps the longest prefix that fits both budgets.
\<close>

definition total_bytes :: "entry list \<Rightarrow> nat" where
  "total_bytes es = sum_list (map e_bytes es)"

definition without :: "bytes \<Rightarrow> entry list \<Rightarrow> entry list" where
  "without k es = filter (\<lambda>e. e_key e \<noteq> k) es"

definition entry_of :: "bytes \<Rightarrow> entry list \<Rightarrow> entry option" where
  "entry_of k es = find (\<lambda>e. e_key e = k) es"

fun keep :: "nat \<Rightarrow> nat \<Rightarrow> entry list \<Rightarrow> entry list" where
  "keep n m [] = []"
| "keep n m (e # es) = (if n = 0 \<or> e_bytes e > m then [] else e # keep (n - 1) (m - e_bytes e) es)"

definition ref_put :: "nat \<Rightarrow> nat \<Rightarrow> nat \<Rightarrow> entry \<Rightarrow> entry list \<Rightarrow> entry list" where
  "ref_put cap max_bytes now e es =
     (if Expired now e then without (e_key e) es
      else keep cap max_bytes (e # without (e_key e) es))"

definition ref_touch :: "nat \<Rightarrow> bytes \<Rightarrow> entry list \<Rightarrow> entry list" where
  "ref_touch now k es =
     (case entry_of k es of
        None \<Rightarrow> es
      | Some e \<Rightarrow> if Expired now e then without k es else e # without k es)"

lemma total_simps [simp]:
  "total_bytes [] = 0" "total_bytes (e # es) = e_bytes e + total_bytes es"
  by (simp_all add: total_bytes_def)

lemma total_append: "total_bytes (xs @ ys) = total_bytes xs + total_bytes ys"
  by (simp add: total_bytes_def)

lemma without_simps [simp]:
  "without k [] = []" "without k (e # es) = (if e_key e = k then without k es else e # without k es)"
  by (simp_all add: without_def)

lemma entry_of_simps [simp]:
  "entry_of k [] = None" "entry_of k (e # es) = (if e_key e = k then Some e else entry_of k es)"
  by (simp_all add: entry_of_def)

lemma without_idle: "k \<notin> e_key ` set es \<Longrightarrow> without k es = es"
  by (induction es) auto

lemma without_keys: "e_key ` set (without k es) = e_key ` set es - {k}"
  by (auto simp: without_def)

lemma distinct_without: "distinct (map e_key es) \<Longrightarrow> distinct (map e_key (without k es))"
  by (auto simp: without_def distinct_map_filter)

lemma entry_of_without: "entry_of k (without k' es) = (if k = k' then None else entry_of k es)"
  by (induction es) auto

lemma entry_of_None: "entry_of k es = None \<longleftrightarrow> k \<notin> e_key ` set es"
  by (induction es) auto

lemma entry_of_Some: "entry_of k es = Some e \<Longrightarrow> e \<in> set es \<and> e_key e = k"
  by (induction es) (auto split: if_splits)

lemma entry_of_mem: "distinct (map e_key es) \<Longrightarrow> e \<in> set es \<Longrightarrow> entry_of (e_key e) es = Some e"
  by (induction es) (auto simp: rev_image_eqI)

lemma total_without:
  "distinct (map e_key es) \<Longrightarrow> entry_of k es = Some e \<Longrightarrow> total_bytes es = e_bytes e + total_bytes (without k es)"
proof (induction es)
  case (Cons a es)
  then show ?case
    by (cases "e_key a = k") (auto simp: without_idle)
qed simp

lemma total_without_le: "total_bytes (without k es) \<le> total_bytes es"
  by (induction es) auto

lemma keep_prefix: "\<exists>rest. es = keep n m es @ rest"
  by (induction n m es rule: keep.induct) auto

lemma keep_fits: "length (keep n m es) \<le> n \<and> total_bytes (keep n m es) \<le> m"
  by (induction n m es rule: keep.induct) auto

lemma keep_id: "length es \<le> n \<Longrightarrow> total_bytes es \<le> m \<Longrightarrow> keep n m es = es"
  by (induction n m es rule: keep.induct) auto

lemma keep_butlast: "es \<noteq> [] \<Longrightarrow> \<not> (length es \<le> n \<and> total_bytes es \<le> m) \<Longrightarrow> keep n m (butlast es) = keep n m es"
proof (induction n m es rule: keep.induct)
  case (2 n m e es)
  show ?case
  proof (cases "n = 0 \<or> e_bytes e > m")
    case True
    then show ?thesis
      by (cases es) auto
  next
    case False
    then have "es \<noteq> []" and "\<not> (length es \<le> n - 1 \<and> total_bytes es \<le> m - e_bytes e)"
      using "2.prems" by auto
    with False "2.IH" show ?thesis
      by simp
  qed
qed simp

lemma keep_longest:
  "es = p @ q \<Longrightarrow> length p \<le> n \<Longrightarrow> total_bytes p \<le> m \<Longrightarrow> length p \<le> length (keep n m es)"
proof (induction n m es arbitrary: p rule: keep.induct)
  case (2 n m e es)
  then show ?case
    by (cases p) auto
qed simp

lemma entry_of_append: "entry_of k (xs @ ys) = (case entry_of k xs of None \<Rightarrow> entry_of k ys | Some e \<Rightarrow> Some e)"
  by (induction xs) auto

lemma entry_of_keep: "entry_of k (keep n m es) = Some e \<Longrightarrow> entry_of k es = Some e"
  by (metis entry_of_append keep_prefix option.simps(5))

lemma set_keep: "set (keep n m es) \<subseteq> set es"
  by (metis keep_prefix set_append Un_upper1)

lemma distinct_keep: "distinct (map e_key es) \<Longrightarrow> distinct (map e_key (keep n m es))"
  by (metis distinct_append keep_prefix map_append)

section \<open>The invariant\<close>

definition elems :: "lru \<Rightarrow> entry list" where
  "elems c = map snd (l_items c)"

definition lru_wf :: "lru \<Rightarrow> bool" where
  "lru_wf c \<longleftrightarrow>
     distinct (map fst (l_items c)) \<and> (\<forall>n \<in> set (l_items c). fst n < l_next c) \<and>
     distinct (map e_key (elems c)) \<and>
     l_index c = map_of (map (\<lambda>n. (e_key (snd n), fst n)) (l_items c)) \<and>
     (\<forall>e \<in> set (elems c). e_bytes e = entry_cost (e_key e) (e_value e)) \<and>
     s_bytes (l_stats c) = total_bytes (elems c)"

definition lru_inv :: "lru \<Rightarrow> bool" where
  "lru_inv c \<longleftrightarrow>
     lru_wf c \<and> 0 < l_capacity c \<and> 0 < l_max_bytes c \<and> 2 * l_max_bytes c < sz_mod \<and>
     length (elems c) \<le> l_capacity c \<and> total_bytes (elems c) \<le> l_max_bytes c"

lemma map_of_without:
  "map_of (map (\<lambda>n. (e_key (snd n), fst n)) (filter (\<lambda>n. e_key (snd n) \<noteq> k) ns)) =
     (map_of (map (\<lambda>n. (e_key (snd n), fst n)) ns))(k := None)"
  by (induction ns) auto

lemma elems_filter: "map snd (filter (\<lambda>n. e_key (snd n) \<noteq> k) ns) = without k (map snd ns)"
  by (induction ns) auto

text \<open>The index and the list agree: following an iterator from the index reaches the key's entry.\<close>

lemma index_SomeE:
  assumes "lru_wf c" and "l_index c k = Some it"
  obtains e where "map_of (l_items c) it = Some e" and "entry_of k (elems c) = Some e" and "e_key e = k"
    and "filter (\<lambda>n. fst n \<noteq> it) (l_items c) = filter (\<lambda>n. e_key (snd n) \<noteq> k) (l_items c)"
proof -
  have "map_of (map (\<lambda>n. (e_key (snd n), fst n)) (l_items c)) k = Some it"
    using assms by (simp add: lru_wf_def)
  then obtain e where mem: "(it, e) \<in> set (l_items c)" and k: "e_key e = k"
    by (auto dest!: map_of_SomeD)
  have "fst n = it \<longleftrightarrow> e_key (snd n) = k" if "n \<in> set (l_items c)" for n
  proof -
    have "inj_on fst (set (l_items c))" and "inj_on (e_key \<circ> snd) (set (l_items c))"
      using assms(1) by (simp_all only: lru_wf_def elems_def map_map distinct_map)
    from this [THEN inj_on_eq_iff, OF that mem] show ?thesis
      using k by simp
  qed
  then have f: "filter (\<lambda>n. fst n \<noteq> it) (l_items c) = filter (\<lambda>n. e_key (snd n) \<noteq> k) (l_items c)"
    by (intro filter_cong) auto
  have "map_of (l_items c) it = Some e" and "entry_of (e_key e) (elems c) = Some e"
    using assms(1) mem by (auto simp: lru_wf_def elems_def image_iff intro!: entry_of_mem)
      (metis snd_conv)
  with k f that show thesis
    by blast
qed

lemma index_None: "lru_wf c \<Longrightarrow> l_index c k = None \<longleftrightarrow> entry_of k (elems c) = None"
  by (auto simp: lru_wf_def entry_of_None map_of_eq_None_iff elems_def image_image)

lemma index_Some_iff: "lru_wf c \<Longrightarrow> (\<exists>it. l_index c k = Some it) \<longleftrightarrow> (\<exists>e. entry_of k (elems c) = Some e)"
  using index_None [of c k] by auto

lemma wf_distinct_keys: "lru_wf c \<Longrightarrow> distinct (map e_key (elems c))"
  by (simp add: lru_wf_def)

text \<open>Removing the node of a key removes exactly that key.\<close>

lemma Erase_frame [simp]:
  "l_capacity (Erase it c) = l_capacity c" "l_max_bytes (Erase it c) = l_max_bytes c"
  "l_next (Erase it c) = l_next c" "s_evictions (l_stats (Erase it c)) = s_evictions (l_stats c)"
  "s_hits (l_stats (Erase it c)) = s_hits (l_stats c)"
  "s_misses (l_stats (Erase it c)) = s_misses (l_stats c)"
  by (simp_all add: Erase_def split: option.split)

lemma Erase_wf:
  assumes "lru_wf c" and "l_index c k = Some it" and "total_bytes (elems c) < sz_mod"
  shows "lru_wf (Erase it c)" and "elems (Erase it c) = without k (elems c)"
proof -
  obtain e where e: "map_of (l_items c) it = Some e" "entry_of k (elems c) = Some e" "e_key e = k"
    "filter (\<lambda>n. fst n \<noteq> it) (l_items c) = filter (\<lambda>n. e_key (snd n) \<noteq> k) (l_items c)"
    using index_SomeE [OF assms(1,2)] .
  have items: "l_items (Erase it c) = filter (\<lambda>n. e_key (snd n) \<noteq> k) (l_items c)"
    using e by (simp add: Erase_def)
  then show el: "elems (Erase it c) = without k (elems c)"
    by (simp add: elems_def elems_filter)
  have tot: "total_bytes (elems c) = e_bytes e + total_bytes (without k (elems c))"
    using assms(1) e(2) by (intro total_without wf_distinct_keys)
  then have "s_bytes (l_stats (Erase it c)) = total_bytes (without k (elems c))"
    using assms(1,3) e by (simp add: Erase_def lru_wf_def sz_sub_exact)
  moreover have "l_index (Erase it c) = map_of (map (\<lambda>n. (e_key (snd n), fst n)) (l_items (Erase it c)))"
    using assms(1) e items by (simp add: Erase_def lru_wf_def map_of_without)
  ultimately show "lru_wf (Erase it c)"
    using assms(1) distinct_without [of "elems c" k] unfolding lru_wf_def el items
    by (auto simp: distinct_map_filter without_def)
qed

lemma without_last:
  assumes "distinct (map e_key es)" and "es \<noteq> []"
  shows "without (e_key (last es)) es = butlast es"
proof -
  obtain xs x where es: "es = xs @ [x]"
    using assms(2) by (metis append_butlast_last_id)
  then have "without (e_key x) xs = xs"
    using assms(1) by (intro without_idle) auto
  then show ?thesis
    by (simp add: es without_def)
qed

lemma count_eviction_simps [simp]:
  "lru_wf (count_eviction c) = lru_wf c" "elems (count_eviction c) = elems c"
  "l_capacity (count_eviction c) = l_capacity c" "l_max_bytes (count_eviction c) = l_max_bytes c"
  "s_evictions (l_stats (count_eviction c)) = sz_add (s_evictions (l_stats c)) 1"
  by (simp_all add: count_eviction_def lru_wf_def elems_def)

lemma over_budget_wf:
  "lru_wf c \<Longrightarrow> over_budget c \<longleftrightarrow>
     \<not> (length (elems c) \<le> l_capacity c \<and> total_bytes (elems c) \<le> l_max_bytes c)"
  by (auto simp: over_budget_def lru_wf_def elems_def)

lemma Erase_last:
  assumes "lru_wf c" and "total_bytes (elems c) < sz_mod" and "l_items c \<noteq> []"
  shows "lru_wf (Erase (fst (last (l_items c))) c)"
    and "elems (Erase (fst (last (l_items c))) c) = butlast (elems c)"
proof -
  let ?n = "last (l_items c)"
  have "?n \<in> set (l_items c)"
    using assms(3) by simp
  then have i: "l_index c (e_key (snd ?n)) = Some (fst ?n)"
    using assms(1) unfolding lru_wf_def elems_def map_map
    by (auto simp: comp_def intro!: map_of_is_SomeI)
  have "snd ?n = last (elems c)" and "elems c \<noteq> []"
    using assms(3) by (simp_all add: elems_def last_map)
  then show "elems (Erase (fst ?n) c) = butlast (elems c)" and "lru_wf (Erase (fst ?n) c)"
    using Erase_wf [OF assms(1) i assms(2)] without_last [OF wf_distinct_keys [OF assms(1)]] by simp_all
qed

text \<open>The eviction loop computes the longest prefix that fits, and counts what it drops.\<close>

lemma evict_spec:
  assumes "lru_wf c" and "total_bytes (elems c) < sz_mod"
  shows "lru_wf (evict c) \<and> elems (evict c) = keep (l_capacity c) (l_max_bytes c) (elems c) \<and>
         l_capacity (evict c) = l_capacity c \<and> l_max_bytes (evict c) = l_max_bytes c \<and>
         l_next (evict c) = l_next c"
  using assms
proof (induction c rule: evict.induct)
  case (1 c)
  show ?case
  proof (cases "l_items c \<noteq> [] \<and> over_budget c")
    case True
    let ?d = "count_eviction (Erase (fst (last (l_items c))) c)"
    have ne: "elems c \<noteq> []"
      using True by (simp add: elems_def)
    have wf: "lru_wf ?d" and el: "elems ?d = butlast (elems c)"
      using True Erase_last [OF "1.prems"] by simp_all
    have "total_bytes (elems c) = total_bytes (butlast (elems c)) + e_bytes (last (elems c))"
      using ne by (metis append_butlast_last_id total_append total_simps add_0_right)
    then have "total_bytes (elems ?d) < sz_mod"
      using "1.prems"(2) el by simp
    then show ?thesis
      using "1.IH" [OF True wf] True el ne keep_butlast [OF ne] over_budget_wf [OF "1.prems"(1)]
      by (simp add: evict.simps [of c] count_eviction_def)
  next
    case False
    then have "elems c = [] \<or> \<not> over_budget c"
      by (auto simp: elems_def)
    then have "keep (l_capacity c) (l_max_bytes c) (elems c) = elems c"
      using keep_id over_budget_wf [OF "1.prems"(1)] by auto
    with False "1.prems" show ?thesis
      by (auto simp: evict.simps [of c])
  qed
qed

section \<open>Every method implements the reference cache and keeps the invariant\<close>

lemma lru_wfI:
  assumes "distinct (map fst (l_items c))" and "\<And>n. n \<in> set (l_items c) \<Longrightarrow> fst n < l_next c"
    and "distinct (map e_key (elems c))"
    and "l_index c = map_of (map (\<lambda>n. (e_key (snd n), fst n)) (l_items c))"
    and "\<And>e. e \<in> set (elems c) \<Longrightarrow> e_bytes e = entry_cost (e_key e) (e_value e)"
    and "s_bytes (l_stats c) = total_bytes (elems c)"
  shows "lru_wf c"
  using assms by (auto simp: lru_wf_def)

lemma push_new_wf:
  assumes "lru_wf c" and "l_index c (e_key e) = None"
    and "e_bytes e = entry_cost (e_key e) (e_value e)" and "total_bytes (elems c) + e_bytes e < sz_mod"
  defines "d \<equiv> add_bytes (e_bytes e) ((push_front e c)
    \<lparr>l_index := (l_index (push_front e c))(e_key e \<mapsto> fst (hd (l_items (push_front e c))))\<rparr>)"
  shows "lru_wf d" and "elems d = e # elems c"
proof -
  have items: "l_items d = (l_next c, e) # l_items c" and nx: "l_next d = Suc (l_next c)"
    and idx: "l_index d = (l_index c)(e_key e \<mapsto> l_next c)"
    by (simp_all add: d_def add_bytes_def push_front_def)
  then show el: "elems d = e # elems c"
    by (simp add: elems_def)
  show "lru_wf d"
  proof (rule lru_wfI)
    show "distinct (map fst (l_items d))" and "\<And>n. n \<in> set (l_items d) \<Longrightarrow> fst n < l_next d"
      using assms(1) by (fastforce simp: items nx lru_wf_def)+
    show "distinct (map e_key (elems d))"
      using assms(1,2) index_None [OF assms(1)] by (auto simp: el lru_wf_def entry_of_None)
    show "l_index d = map_of (map (\<lambda>n. (e_key (snd n), fst n)) (l_items d))"
      using assms(1) by (simp add: idx items lru_wf_def)
    show "\<And>x. x \<in> set (elems d) \<Longrightarrow> e_bytes x = entry_cost (e_key x) (e_value x)"
      using assms(1,3) by (auto simp: el lru_wf_def)
    have "s_bytes (l_stats d) = sz_add (total_bytes (elems c)) (e_bytes e)"
      using assms(1) by (simp add: d_def add_bytes_def push_front_def lru_wf_def)
    then show "s_bytes (l_stats d) = total_bytes (elems d)"
      using assms(4) by (simp add: el sz_add_exact)
  qed
qed

lemma push_replace_wf:
  assumes "lru_wf c" and "l_index c (e_key e) = Some it"
    and "e_bytes e = entry_cost (e_key e) (e_value e)" and "total_bytes (elems c) + e_bytes e < sz_mod"
  defines "d \<equiv> add_bytes (e_bytes e) (replace_node (e_key e) it (push_front e c))"
  shows "lru_wf d" and "elems d = e # without (e_key e) (elems c)"
proof -
  let ?k = "e_key e"
  obtain old where old: "map_of (l_items c) it = Some old" "entry_of ?k (elems c) = Some old"
    "e_key old = ?k" "filter (\<lambda>n. fst n \<noteq> it) (l_items c) = filter (\<lambda>n. e_key (snd n) \<noteq> ?k) (l_items c)"
    using index_SomeE [OF assms(1,2)] .
  have it: "it \<noteq> l_next c"
    using assms(1) old(1) by (auto simp: lru_wf_def dest: map_of_SomeD)
  have items: "l_items d = (l_next c, e) # filter (\<lambda>n. e_key (snd n) \<noteq> ?k) (l_items c)"
    and nx: "l_next d = Suc (l_next c)" and idx: "l_index d = (l_index c)(?k \<mapsto> l_next c)"
    using it old(4) by (simp_all add: d_def add_bytes_def push_front_def replace_node_def Let_def)
  show el: "elems d = e # without ?k (elems c)"
    by (simp add: elems_def items elems_filter)
  have tot: "total_bytes (elems c) = e_bytes old + total_bytes (without ?k (elems c))"
    using assms(1) old(2) by (intro total_without wf_distinct_keys)
  show "lru_wf d"
  proof (rule lru_wfI)
    show "distinct (map fst (l_items d))" and "\<And>n. n \<in> set (l_items d) \<Longrightarrow> fst n < l_next d"
      using assms(1) by (fastforce simp: items nx lru_wf_def distinct_map_filter)+
    show "distinct (map e_key (elems d))"
      using distinct_without [OF wf_distinct_keys [OF assms(1)], of ?k] without_keys [of ?k "elems c"]
      by (simp add: el)
    show "l_index d = map_of (map (\<lambda>n. (e_key (snd n), fst n)) (l_items d))"
      using assms(1) by (simp add: idx items lru_wf_def map_of_without)
    show "\<And>x. x \<in> set (elems d) \<Longrightarrow> e_bytes x = entry_cost (e_key x) (e_value x)"
      using assms(1,3) by (auto simp: el lru_wf_def without_def)
    have "s_bytes (l_stats d) = sz_add (sz_sub (total_bytes (elems c)) (e_bytes old)) (e_bytes e)"
      using assms(1) it old(1)
      by (simp add: d_def add_bytes_def push_front_def replace_node_def Let_def lru_wf_def)
    then show "s_bytes (l_stats d) = total_bytes (elems d)"
      using assms(4) tot by (simp add: el sz_add_exact sz_sub_exact)
  qed
qed

lemma push_frame [simp]:
  "l_capacity (push_front e c) = l_capacity c" "l_max_bytes (push_front e c) = l_max_bytes c"
  "l_capacity (add_bytes n c) = l_capacity c" "l_max_bytes (add_bytes n c) = l_max_bytes c"
  "l_capacity (replace_node k it c) = l_capacity c" "l_max_bytes (replace_node k it c) = l_max_bytes c"
  by (simp_all add: push_front_def add_bytes_def replace_node_def Let_def)

definition mk_entry :: "bytes \<Rightarrow> bytes \<Rightarrow> nat \<Rightarrow> entry" where
  "mk_entry k v expires = \<lparr>e_key = k, e_value = v, e_expires = expires, e_bytes = entry_cost k v\<rparr>"

lemma mk_entry_simps [simp]:
  "e_key (mk_entry k v x) = k" "e_value (mk_entry k v x) = v" "e_expires (mk_entry k v x) = x"
  "e_bytes (mk_entry k v x) = entry_cost k v"
  by (simp_all add: mk_entry_def)

lemma lru_invD:
  assumes "lru_inv c"
  shows "lru_wf c" "0 < l_capacity c" "0 < l_max_bytes c" "2 * l_max_bytes c < sz_mod"
    "length (elems c) \<le> l_capacity c" "total_bytes (elems c) \<le> l_max_bytes c" "total_bytes (elems c) < sz_mod"
  using assms by (auto simp: lru_inv_def)

lemma lru_inv_Erase:
  assumes "lru_inv c" and "l_index c k = Some it"
  shows "lru_inv (Erase it c)" and "elems (Erase it c) = without k (elems c)"
proof -
  note inv = lru_invD [OF assms(1)]
  show el: "elems (Erase it c) = without k (elems c)"
    using inv assms(2) by (intro Erase_wf)
  have "length (without k (elems c)) \<le> length (elems c)"
    by (simp add: without_def)
  then show "lru_inv (Erase it c)"
    using inv Erase_wf(1) [OF inv(1) assms(2) inv(7)] total_without_le [of k "elems c"]
    by (simp add: lru_inv_def el)
qed

lemma lru_put_spec:
  assumes "lru_inv c" and "entry_cost k v \<le> l_max_bytes c"
  shows "\<exists>d. lru_put now k v x c = (Inr (), d) \<and> lru_inv d \<and>
           elems d = ref_put (l_capacity c) (l_max_bytes c) now (mk_entry k v x) (elems c) \<and>
           l_capacity d = l_capacity c \<and> l_max_bytes d = l_max_bytes c"
proof (cases "Expired now (mk_entry k v x)")
  case True
  then have now: "x \<noteq> 0" "x \<le> now"
    by (auto simp: Expired_def)
  show ?thesis
  proof (cases "l_index c k")
    case None
    then have "without k (elems c) = elems c"
      using index_None [OF lru_invD(1) [OF assms(1)], of k] by (intro without_idle) (simp add: entry_of_None)
    with None True now assms show ?thesis
      by (simp add: lru_put_alloc_def Let_def ref_put_def)
  next
    case (Some it)
    with True now assms lru_inv_Erase [OF assms(1) Some] show ?thesis
      by (simp add: lru_put_alloc_def Let_def ref_put_def)
  qed
next
  case False
  note inv = lru_invD [OF assms(1)]
  have fit: "total_bytes (elems c) + e_bytes (mk_entry k v x) < sz_mod"
    using inv(4,6) assms(2) by simp
  obtain d where d: "lru_put now k v x c = (Inr (), evict d)" "lru_wf d"
    "elems d = mk_entry k v x # without k (elems c)" "l_capacity d = l_capacity c" "l_max_bytes d = l_max_bytes c"
  proof (cases "l_index c k")
    case None
    then have "without k (elems c) = elems c"
      using index_None [OF inv(1), of k] by (intro without_idle) (simp add: entry_of_None)
    with None False assms fit push_new_wf [OF inv(1), of "mk_entry k v x"] that show ?thesis
      by (force simp: lru_put_alloc_def Let_def Expired_def mk_entry_def)
  next
    case (Some it)
    with False assms fit push_replace_wf [OF inv(1), of "mk_entry k v x" it] that show ?thesis
      by (force simp: lru_put_alloc_def Let_def Expired_def mk_entry_def)
  qed
  have "total_bytes (elems d) < sz_mod"
    using fit total_without_le [of k "elems c"] by (simp add: d(3))
  with d False inv evict_spec [OF d(2)] show ?thesis
    using keep_fits [of "l_capacity c" "l_max_bytes c" "mk_entry k v x # without k (elems c)"]
    by (auto simp: ref_put_def lru_inv_def)
qed

lemma splice_wf:
  assumes "lru_wf c" and "l_index c k = Some it" and "map_of (l_items c) it = Some e"
  shows "lru_wf (splice_front it e c)" and "elems (splice_front it e c) = e # without k (elems c)"
proof -
  obtain e' where "map_of (l_items c) it = Some e'" "entry_of k (elems c) = Some e'" "e_key e' = k"
    and f: "filter (\<lambda>n. fst n \<noteq> it) (l_items c) = filter (\<lambda>n. e_key (snd n) \<noteq> k) (l_items c)"
    using index_SomeE [OF assms(1,2)] .
  with assms(3) have e: "entry_of k (elems c) = Some e" "e_key e = k" and mem: "(it, e) \<in> set (l_items c)"
    by (auto dest: map_of_SomeD)
  let ?d = "splice_front it e c"
  have items: "l_items ?d = (it, e) # filter (\<lambda>n. fst n \<noteq> it) (l_items c)"
    by (simp add: splice_front_def)
  show el: "elems ?d = e # without k (elems c)"
    by (simp add: elems_def items f elems_filter)
  have tot: "total_bytes (elems c) = total_bytes (elems ?d)"
    using total_without [OF wf_distinct_keys [OF assms(1)] e(1)] by (simp add: el)
  show "lru_wf ?d"
  proof (rule lru_wfI)
    show "distinct (map fst (l_items ?d))"
      using assms(1) by (auto simp: items lru_wf_def distinct_map_filter)
    show "\<And>n. n \<in> set (l_items ?d) \<Longrightarrow> fst n < l_next ?d"
      using assms(1) mem by (auto simp: items lru_wf_def splice_front_def)
    show "distinct (map e_key (elems ?d))"
      using distinct_without [OF wf_distinct_keys [OF assms(1)], of k] without_keys [of k "elems c"] e(2)
      by (simp add: el)
    show "l_index ?d = map_of (map (\<lambda>n. (e_key (snd n), fst n)) (l_items ?d))"
      using assms(1,2) e(2) by (auto simp: items f map_of_without lru_wf_def splice_front_def)
    show "\<And>x. x \<in> set (elems ?d) \<Longrightarrow> e_bytes x = entry_cost (e_key x) (e_value x)"
      using assms(1) entry_of_Some [OF e(1)] by (auto simp: el lru_wf_def without_def)
    have "l_stats ?d = l_stats c"
      by (simp add: splice_front_def)
    then show "s_bytes (l_stats ?d) = total_bytes (elems ?d)"
      using assms(1) by (simp add: tot [symmetric] lru_wf_def)
  qed
qed

lemma count_simps [simp]:
  "lru_wf (count_hit c) = lru_wf c" "elems (count_hit c) = elems c" "l_items (count_hit c) = l_items c"
  "lru_wf (count_miss c) = lru_wf c" "elems (count_miss c) = elems c"
  "l_index (count_hit c) = l_index c" "l_capacity (count_hit c) = l_capacity c"
  "l_max_bytes (count_hit c) = l_max_bytes c" "l_capacity (count_miss c) = l_capacity c"
  "l_max_bytes (count_miss c) = l_max_bytes c" "l_capacity (splice_front it e c) = l_capacity c"
  "l_max_bytes (splice_front it e c) = l_max_bytes c" "lru_inv (count_miss c) = lru_inv c"
  by (simp_all add: count_hit_def count_miss_def splice_front_def lru_wf_def elems_def lru_inv_def)

lemma lru_inv_splice:
  assumes "lru_inv c" and "l_index c k = Some it" and "map_of (l_items c) it = Some e"
  shows "lru_inv (splice_front it e (count_hit c))"
    and "elems (splice_front it e (count_hit c)) = e # without k (elems c)"
proof -
  note inv = lru_invD [OF assms(1)]
  note sp = splice_wf [of "count_hit c" k it e]
  show el: "elems (splice_front it e (count_hit c)) = e # without k (elems c)"
    using sp(2) assms inv(1) by simp
  obtain e' where "map_of (l_items c) it = Some e'" and "entry_of k (elems c) = Some e'"
    using index_SomeE [OF inv(1) assms(2)] by blast
  with assms(3) have "entry_of k (elems c) = Some e"
    by simp
  then have "total_bytes (elems c) = e_bytes e + total_bytes (without k (elems c))"
    and "length (without k (elems c)) < length (elems c)"
    using total_without [OF wf_distinct_keys [OF inv(1)]] entry_of_Some [of k "elems c" e]
    by (auto simp: without_def intro!: length_filter_less)
  then show "lru_inv (splice_front it e (count_hit c))"
    using inv sp(1) assms by (simp add: lru_inv_def el)
qed

lemma lru_get_spec:
  assumes "lru_inv c"
  shows "lru_inv (snd (lru_get now k c)) \<and>
         elems (snd (lru_get now k c)) = ref_touch now k (elems c) \<and>
         l_capacity (snd (lru_get now k c)) = l_capacity c \<and>
         l_max_bytes (snd (lru_get now k c)) = l_max_bytes c \<and>
         fst (lru_get now k c) =
           (case entry_of k (elems c) of
              None \<Rightarrow> None | Some e \<Rightarrow> if Expired now e then None else Some (e_value e))"
proof (cases "l_index c k")
  case None
  then have "entry_of k (elems c) = None"
    using index_None [OF lru_invD(1) [OF assms]] by simp
  with None assms show ?thesis
    by (simp add: lru_get_def ref_touch_def)
next
  case (Some it)
  obtain e where e: "map_of (l_items c) it = Some e" "entry_of k (elems c) = Some e"
    using index_SomeE [OF lru_invD(1) [OF assms] Some] by blast
  show ?thesis
    using Some e assms lru_inv_Erase [OF assms Some] lru_inv_splice [OF assms Some e(1)]
    by (simp add: lru_get_def ref_touch_def)
qed

lemma lru_exists_spec:
  assumes "lru_inv c"
  shows "lru_inv (snd (lru_exists now k c)) \<and>
         (fst (lru_exists now k c) \<longleftrightarrow> (\<exists>e. entry_of k (elems c) = Some e \<and> \<not> Expired now e)) \<and>
         elems (snd (lru_exists now k c)) =
           (if \<exists>e. entry_of k (elems c) = Some e \<and> Expired now e then without k (elems c) else elems c)"
proof (cases "l_index c k")
  case None
  then have "entry_of k (elems c) = None"
    using index_None [OF lru_invD(1) [OF assms]] by simp
  with None assms show ?thesis
    by (simp add: lru_exists_def)
next
  case (Some it)
  obtain e where e: "map_of (l_items c) it = Some e" "entry_of k (elems c) = Some e"
    using index_SomeE [OF lru_invD(1) [OF assms] Some] by blast
  show ?thesis
    using Some e assms lru_inv_Erase [OF assms Some] by (simp add: lru_exists_def)
qed

lemma lru_remove_spec:
  assumes "lru_inv c"
  shows "lru_inv (snd (lru_remove k c)) \<and> elems (snd (lru_remove k c)) = without k (elems c) \<and>
         l_capacity (snd (lru_remove k c)) = l_capacity c \<and>
         l_max_bytes (snd (lru_remove k c)) = l_max_bytes c \<and>
         (fst (lru_remove k c) \<longleftrightarrow> k \<in> e_key ` set (elems c))"
proof (cases "l_index c k")
  case None
  then have "k \<notin> e_key ` set (elems c)"
    using index_None [OF lru_invD(1) [OF assms]] by (simp add: entry_of_None)
  with None assms show ?thesis
    by (simp add: lru_remove_def without_idle)
next
  case (Some it)
  then have "k \<in> e_key ` set (elems c)"
    using index_None [OF lru_invD(1) [OF assms], of k] by (simp add: entry_of_None)
  with Some assms lru_inv_Erase [OF assms Some] show ?thesis
    by (simp add: lru_remove_def)
qed

lemma lru_new_inv:
  assumes "lru_new cap m = Inr c" and "2 * m < sz_mod"
  shows "lru_inv c" and "elems c = []" and "l_capacity c = cap" and "l_max_bytes c = m"
  using assms by (auto simp: lru_new_def lru_inv_def lru_wf_def elems_def split: if_splits)

lemma lru_put_full:
  "entry_cost k v > l_max_bytes c \<Longrightarrow>
     lru_put_alloc a now k v x c = (Inl (Length_error ''Entry exceeds shard byte budget''), c)"
  by (simp add: lru_put_alloc_def Let_def)

section \<open>The cache interface\<close>

definition lru_view :: "nat \<Rightarrow> lru \<Rightarrow> bytes \<Rightarrow> (bytes \<times> nat) option" where
  "lru_view now c k = live_at now (map_option (\<lambda>e. (e_value e, e_expires e)) (entry_of k (elems c)))"

lemma live_at_Expired:
  "live_at now (Some (e_value e, e_expires e)) = (if Expired now e then None else Some (e_value e, e_expires e))"
  by (simp add: live_at_def Expired_def)

lemma Expired_mono: "Expired now e \<Longrightarrow> now \<le> now' \<Longrightarrow> Expired now' e"
  by (auto simp: Expired_def)

lemma keep_head: "0 < n \<Longrightarrow> e_bytes e \<le> m \<Longrightarrow> keep n m (e # es) = e # keep (n - 1) (m - e_bytes e) es"
  by simp

lemma entry_of_ref_put_same:
  assumes "0 < n" and "e_bytes e \<le> m"
  shows "entry_of (e_key e) (ref_put n m now e es) = (if Expired now e then None else Some e)"
  using assms by (simp add: ref_put_def entry_of_without)

lemma entry_of_ref_put_other:
  assumes "k \<noteq> e_key e" and "entry_of k (ref_put n m now e es) = Some y"
  shows "entry_of k es = Some y"
  using assms by (auto simp: ref_put_def entry_of_without dest!: entry_of_keep split: if_splits)

lemma entry_of_ref_touch:
  "entry_of k' (ref_touch now k es) =
     (case entry_of k' es of None \<Rightarrow> None | Some e \<Rightarrow> if k' = k \<and> Expired now e then None else Some e)"
  by (auto simp: ref_touch_def entry_of_without split: option.split dest: entry_of_Some)

lemma lru_view_entry:
  "lru_view now c k =
     (case entry_of k (elems c) of
        None \<Rightarrow> None | Some e \<Rightarrow> if Expired now e then None else Some (e_value e, e_expires e))"
  by (simp add: lru_view_def live_at_Expired split: option.split)

lemma lru_put_inv: "lru_inv c \<Longrightarrow> lru_inv (snd (lru_put now k v x c))"
  using lru_put_spec [of c k v now x] lru_put_full [of c k v True now x]
  by (cases "entry_cost k v \<le> l_max_bytes c") auto

lemma lru_put_other:
  assumes "lru_inv c" and "k' \<noteq> k" and "lru_view now' (snd (lru_put now k v x c)) k' = Some y"
  shows "lru_view now' c k' = Some y"
proof (cases "entry_cost k v \<le> l_max_bytes c")
  case True
  from lru_put_spec [OF assms(1) True, of now x] obtain d
    where d: "lru_put now k v x c = (Inr (), d)"
      "elems d = ref_put (l_capacity c) (l_max_bytes c) now (mk_entry k v x) (elems c)"
    by blast
  with assms(3) obtain e where "entry_of k' (elems d) = Some e"
      and e: "\<not> Expired now' e" "y = (e_value e, e_expires e)"
    by (auto simp: lru_view_entry split: option.splits if_splits)
  from entry_of_ref_put_other [OF _ this(1) [unfolded d(2)]] assms(2)
  have "entry_of k' (elems c) = Some e"
    by simp
  with e show ?thesis
    by (simp add: lru_view_entry)
next
  case False
  with assms(3) show ?thesis
    by (simp add: lru_put_full)
qed

lemma lru_put_same:
  assumes "lru_inv c" and "lru_canStore k v c" and "now \<le> now'"
  shows "lru_view now' (snd (lru_put now k v x c)) k = live_at now' (Some (v, x))"
proof -
  have le: "entry_cost k v \<le> l_max_bytes c"
    using assms(2) by (simp add: lru_canStore_def)
  from lru_put_spec [OF assms(1) le, of now x] obtain d
    where d: "lru_put now k v x c = (Inr (), d)"
      "elems d = ref_put (l_capacity c) (l_max_bytes c) now (mk_entry k v x) (elems c)"
    by blast
  have "entry_of k (elems d) = (if Expired now (mk_entry k v x) then None else Some (mk_entry k v x))"
    using entry_of_ref_put_same [of "l_capacity c" "mk_entry k v x" "l_max_bytes c"] le lru_invD(2) [OF assms(1)]
    by (simp add: d(2))
  then show ?thesis
    using assms(3) by (auto simp: lru_view_entry d(1) live_at_def Expired_def)
qed

lemma lru_get_view:
  assumes "lru_inv c" and "now \<le> now'"
  shows "lru_view now' (snd (lru_get now k c)) = lru_view now' c"
  using lru_get_spec [OF assms(1), of now k] assms(2)
  by (auto simp: fun_eq_iff lru_view_entry entry_of_ref_touch Expired_mono split: option.split)

interpretation lc: ttl_cache lru_inv lru_view lru_canStore lru_put lru_get lru_remove
proof unfold_locales
  fix c k v k' v' now now' x y
  show "now \<le> now' \<Longrightarrow> lru_view now' c k = live_at now' (lru_view now c k)"
    by (simp add: lru_view_def live_at_idem)
  show "lru_inv c \<Longrightarrow> lru_canStore k v c \<Longrightarrow> fst (lru_put now k v x c) = Inr ()"
    using lru_put_spec [of c k v now x] by (auto simp: lru_canStore_def)
  show "lru_inv c \<Longrightarrow> \<not> lru_canStore k v c \<Longrightarrow> \<exists>e. lru_put now k v x c = (Inl e, c)"
    using lru_put_full [of c k v True now x] by (simp add: lru_canStore_def)
  show "lru_inv c \<Longrightarrow> lru_inv (snd (lru_put now k v x c))"
    by (rule lru_put_inv)
  show "lru_inv c \<Longrightarrow> lru_canStore k v c \<Longrightarrow> now \<le> now' \<Longrightarrow>
      lru_view now' (snd (lru_put now k v x c)) k = live_at now' (Some (v, x))"
    by (rule lru_put_same)
  show "lru_inv c \<Longrightarrow> k' \<noteq> k \<Longrightarrow> lru_view now' (snd (lru_put now k v x c)) k' = Some y \<Longrightarrow> lru_view now' c k' = Some y"
    by (rule lru_put_other)
  show "lru_inv c \<Longrightarrow> fst (lru_get now k c) = map_option fst (lru_view now c k)"
    using lru_get_spec [of c now k] by (auto simp: lru_view_entry split: option.split)
  show "lru_inv c \<Longrightarrow> lru_inv (snd (lru_get now k c))"
    using lru_get_spec [of c now k] by simp
  show "lru_inv c \<Longrightarrow> now \<le> now' \<Longrightarrow> lru_view now' (snd (lru_get now k c)) = lru_view now' c"
    by (rule lru_get_view)
  show "lru_inv c \<Longrightarrow> lru_inv (snd (lru_remove k c))"
    using lru_remove_spec [of c k] by simp
  show "lru_inv c \<Longrightarrow> lru_view now' (snd (lru_remove k c)) = (lru_view now' c)(k := None)"
    using lru_remove_spec [of c k] by (auto simp: fun_eq_iff lru_view_def entry_of_without)
  show "lru_inv c \<Longrightarrow> lru_canStore k' v' (snd (lru_put now k v x c)) = lru_canStore k' v' c"
    using lru_put_spec [of c k v now x] lru_put_full [of c k v True now x]
    by (cases "entry_cost k v \<le> l_max_bytes c") (auto simp: lru_canStore_def)
  show "lru_inv c \<Longrightarrow> lru_canStore k' v' (snd (lru_get now k c)) = lru_canStore k' v' c"
    using lru_get_spec [of c now k] by (simp add: lru_canStore_def)
  show "lru_inv c \<Longrightarrow> lru_canStore k' v' (snd (lru_remove k c)) = lru_canStore k' v' c"
    using lru_remove_spec [of c k] by (simp add: lru_canStore_def)
qed

section \<open>Properties\<close>

lemma keep_split:
  assumes "0 < n" and "e_bytes e \<le> m"
  obtains p q where "keep n m (e # es) = e # p" and "es = p @ q"
    and "\<And>p' q'. es = p' @ q' \<Longrightarrow> length p < length p' \<Longrightarrow> n < Suc (length p') \<or> m < e_bytes e + total_bytes p'"
proof
  let ?p = "keep (n - 1) (m - e_bytes e) es"
  show "keep n m (e # es) = e # ?p"
    using assms by simp
  show "es = ?p @ drop (length ?p) es"
    using keep_prefix [of es "n - 1" "m - e_bytes e"] by (metis append_eq_conv_conj)
  show "n < Suc (length p') \<or> m < e_bytes e + total_bytes p'"
    if "es = p' @ q'" and "length ?p < length p'" for p' q'
  proof (rule ccontr)
    assume "\<not> ?thesis"
    then have "length p' \<le> n - 1" and "total_bytes p' \<le> m - e_bytes e"
      by auto
    from keep_longest [OF that(1) this] that(2) show False
      by simp
  qed
qed

text \<open>A two-entry cache for the witnesses: the key 1 was stored after the key 2.\<close>

definition lru_example :: lru where
  "lru_example =
     \<lparr>l_capacity = 2, l_max_bytes = 200, l_items = [(1, mk_entry [1] [10] 0), (0, mk_entry [2] [20] 500)],
      l_index = [[1] \<mapsto> 1, [2] \<mapsto> 0],
      l_stats = \<lparr>s_hits = 0, s_misses = 0, s_bytes = 164, s_evictions = 0\<rparr>, l_next = 2\<rparr>"

lemma lru_example_inv: "lru_inv lru_example"
  by (auto simp: lru_inv_def lru_wf_def lru_example_def elems_def entry_cost_def sz_add_def sz_mod_def
      SIZEOF_ENTRY_def mk_entry_def fun_eq_iff)

text \<open>
  C20. \<open>put\<close> of an entry that fits the byte budget and has not expired succeeds, puts the new
  entry in front of the others, and evicts from the least recently used end only what it
  must: the entries kept are a prefix of the old order (without the key's previous entry),
  both budgets hold, and every longer prefix would exceed one of them. In particular the
  entry just stored is never evicted.
\<close>

theorem lru_put_evicts_oldest:
  assumes "lru_inv c" and "entry_cost k v \<le> l_max_bytes c" and "x = 0 \<or> now < x"
  shows "\<exists>d p q. lru_put now k v x c = (Inr (), d) \<and>
           without k (elems c) = p @ q \<and> elems d = mk_entry k v x # p \<and>
           length (elems d) \<le> l_capacity c \<and> total_bytes (elems d) \<le> l_max_bytes c \<and>
           (\<forall>p' q'. without k (elems c) = p' @ q' \<longrightarrow> length p < length p' \<longrightarrow>
              l_capacity c < Suc (length p') \<or> l_max_bytes c < entry_cost k v + total_bytes p')"
proof -
  note inv = lru_invD [OF assms(1)]
  from lru_put_spec [OF assms(1,2), of now x] obtain d where d: "lru_put now k v x c = (Inr (), d)" "lru_inv d"
    "elems d = ref_put (l_capacity c) (l_max_bytes c) now (mk_entry k v x) (elems c)"
    "l_capacity d = l_capacity c" "l_max_bytes d = l_max_bytes c"
    by blast
  obtain p q where pq: "keep (l_capacity c) (l_max_bytes c) (mk_entry k v x # without k (elems c)) = mk_entry k v x # p"
    "without k (elems c) = p @ q"
    "\<And>p' q'. without k (elems c) = p' @ q' \<Longrightarrow> length p < length p' \<Longrightarrow>
       l_capacity c < Suc (length p') \<or> l_max_bytes c < e_bytes (mk_entry k v x) + total_bytes p'"
    using keep_split [of "l_capacity c" "mk_entry k v x" "l_max_bytes c" "without k (elems c)"] inv assms(2)
    by auto
  have "elems d = mk_entry k v x # p"
    using d(3) pq(1) assms(3) by (auto simp: ref_put_def Expired_def)
  moreover have "length (elems d) \<le> l_capacity c \<and> total_bytes (elems d) \<le> l_max_bytes c"
    using lru_invD(5,6) [OF d(2)] by (simp add: d(4,5))
  ultimately show ?thesis
    using d(1) pq(2,3) by (intro exI [of _ d] exI [of _ p] exI [of _ q]) simp
qed

theorem lru_put_evicts_oldest_witness:
  "\<exists>d p q. lru_put 7 [3] [30] 0 lru_example = (Inr (), d) \<and> without [3] (elems lru_example) = p @ q \<and>
     elems d = mk_entry [3] [30] 0 # p \<and> length (elems d) \<le> 2"
  using lru_put_evicts_oldest [OF lru_example_inv, of "[3]" "[30]" 0 7]
  by (auto simp: lru_example_def entry_cost_def sz_add_def sz_mod_def SIZEOF_ENTRY_def)

text \<open>
  C21. Every method keeps the invariant of the class, also when \<open>put\<close> throws: the index maps
  each key to the list node that holds its entry, no key or node occurs twice, the
  accounted bytes are the sum of the entries' bytes, and both budgets hold.
\<close>

theorem lru_methods_keep_inv:
  assumes "lru_inv c"
  shows "lru_inv (snd (lru_put_alloc alloc now k v x c)) \<and> lru_inv (snd (lru_get now k c)) \<and>
         lru_inv (snd (lru_exists now k c)) \<and> lru_inv (snd (lru_remove k c))"
proof -
  have "lru_inv (snd (lru_put_alloc False now k v x c))"
  proof (cases "fst (lru_put_alloc False now k v x c) = Inl Bad_alloc")
    case True
    then have "snd (lru_put_alloc False now k v x c) = c\<lparr>l_next := Suc (l_next c)\<rparr>"
      by (auto simp: lru_put_alloc_def Let_def push_front_def split: if_splits option.splits)
    with assms show ?thesis
      by (auto simp: lru_inv_def lru_wf_def elems_def less_Suc_eq)
  next
    case False
    then have "lru_put_alloc False now k v x c = lru_put now k v x c"
      by (auto simp: lru_put_alloc_def Let_def split: if_splits option.splits)
    with assms show ?thesis
      by (simp add: lru_put_inv)
  qed
  with assms show ?thesis
    using lru_put_inv [OF assms] lru_get_spec [OF assms] lru_exists_spec [OF assms] lru_remove_spec [OF assms]
    by (cases alloc) simp_all
qed

theorem lru_methods_keep_inv_witness:
  "lru_inv (snd (lru_put 7 [3] [30] 0 lru_example)) \<and> lru_inv (snd (lru_get 600 [2] lru_example))"
  using lru_methods_keep_inv [OF lru_example_inv, of True 7 "[3]" "[30]" 0]
    lru_methods_keep_inv [OF lru_example_inv, of True 600 "[2]" "[]" 0] by simp

text \<open>
  A \<open>put\<close> that throws, because the entry exceeds the byte budget or because the index
  cannot allocate, leaves the list, the index and the statistics as they were.
\<close>

lemma lru_put_throw_unchanged:
  assumes "lru_put_alloc alloc now k v x c = (Inl e, d)"
  shows "l_items d = l_items c \<and> l_index d = l_index c \<and> l_stats d = l_stats c \<and>
         (e = Bad_alloc \<and> \<not> alloc \<or> entry_cost k v > l_max_bytes c)"
  using assms by (auto simp: lru_put_alloc_def Let_def push_front_def split: if_splits option.splits)

text \<open>
  \<open>get\<close> returns the value exactly when the key has an entry that has not expired, and then
  makes it the most recently used one; an expired entry is removed and counts as a miss;
  the other entries keep their order.
\<close>

lemma lru_get_refines:
  assumes "lru_inv c" and "lru_get now k c = (r, d)"
  shows "case entry_of k (elems c) of
           None \<Rightarrow> r = None \<and> elems d = elems c
         | Some e \<Rightarrow> if Expired now e then r = None \<and> elems d = without k (elems c)
                     else r = Some (e_value e) \<and> elems d = e # without k (elems c)"
  using lru_get_spec [OF assms(1), of now k] assms(2) by (auto simp: ref_touch_def split: option.splits)

end
