(* ===== verification/Sharded_Cache.thy ===== *)
theory Sharded_Cache
  imports Lru_Cache
begin

text \<open>
  \<open>ShardedCache<std::string, std::string>\<close> of \<open>KVCache/include/sharded_cache.h\<close>: a vector
  of LRU caches and a hash function that picks the shard of a key. The hash
  (\<open>std::hash<std::string>\<close>, whose values the standard leaves open) is an argument of every
  method. The lemmas show how the budgets are split, that the shards together implement the
  cache interface, and that replaying a snapshot rebuilds every shard in its LRU order.
\<close>

section \<open>State and operations\<close>

record sharded =
  sh_num :: nat
  sh_shards :: "lru list"

definition sharded_new :: "nat \<Rightarrow> nat \<Rightarrow> nat \<Rightarrow> sharded result" where
  "sharded_new capacity num_shards max_bytes =
     (if capacity = 0 \<or> num_shards = 0
      then Inl (Invalid_argument ''Capacity and shard count must be positive'')
      else let n = min capacity num_shards in
        rbind (rmap (\<lambda>i. lru_new (capacity div n + (if i < capacity mod n then 1 else 0))
                               (max_bytes div n + (if i < max_bytes mod n then 1 else 0))) [0..<n])
          (\<lambda>shards. Inr \<lparr>sh_num = n, sh_shards = shards\<rparr>))"

definition shard_index :: "(bytes \<Rightarrow> nat) \<Rightarrow> bytes \<Rightarrow> sharded \<Rightarrow> nat" where
  "shard_index hash key s = hash key mod sh_num s"

definition getShard :: "(bytes \<Rightarrow> nat) \<Rightarrow> bytes \<Rightarrow> sharded \<Rightarrow> lru" where
  "getShard hash key s = sh_shards s ! shard_index hash key s"

definition set_shard :: "(bytes \<Rightarrow> nat) \<Rightarrow> bytes \<Rightarrow> lru \<Rightarrow> sharded \<Rightarrow> sharded" where
  "set_shard hash key c s = s\<lparr>sh_shards := (sh_shards s)[shard_index hash key s := c]\<rparr>"

definition sharded_canStore :: "(bytes \<Rightarrow> nat) \<Rightarrow> bytes \<Rightarrow> bytes \<Rightarrow> sharded \<Rightarrow> bool" where
  "sharded_canStore hash key value s = lru_canStore key value (getShard hash key s)"

definition sharded_put ::
  "(bytes \<Rightarrow> nat) \<Rightarrow> nat \<Rightarrow> bytes \<Rightarrow> bytes \<Rightarrow> nat \<Rightarrow> sharded \<Rightarrow> unit result \<times> sharded" where
  "sharded_put hash now key value expires s =
     (let (r, c) = lru_put now key value expires (getShard hash key s) in (r, set_shard hash key c s))"

definition sharded_get :: "(bytes \<Rightarrow> nat) \<Rightarrow> nat \<Rightarrow> bytes \<Rightarrow> sharded \<Rightarrow> bytes option \<times> sharded" where
  "sharded_get hash now key s =
     (let (r, c) = lru_get now key (getShard hash key s) in (r, set_shard hash key c s))"

definition sharded_remove :: "(bytes \<Rightarrow> nat) \<Rightarrow> bytes \<Rightarrow> sharded \<Rightarrow> bool \<times> sharded" where
  "sharded_remove hash key s =
     (let (r, c) = lru_remove key (getShard hash key s) in (r, set_shard hash key c s))"

definition sharded_exists :: "(bytes \<Rightarrow> nat) \<Rightarrow> nat \<Rightarrow> bytes \<Rightarrow> sharded \<Rightarrow> bool \<times> sharded" where
  "sharded_exists hash now key s =
     (let (r, c) = lru_exists now key (getShard hash key s) in (r, set_shard hash key c s))"

definition sharded_size :: "sharded \<Rightarrow> nat" where
  "sharded_size s = foldl (\<lambda>acc c. sz_add acc (lru_size c)) 0 (sh_shards s)"

definition add_stats :: "lru_stats \<Rightarrow> lru_stats \<Rightarrow> lru_stats" where
  "add_stats a b = \<lparr>s_hits = sz_add (s_hits a) (s_hits b), s_misses = sz_add (s_misses a) (s_misses b),
                   s_bytes = sz_add (s_bytes a) (s_bytes b), s_evictions = sz_add (s_evictions a) (s_evictions b)\<rparr>"

definition sharded_getStats :: "sharded \<Rightarrow> lru_stats" where
  "sharded_getStats s =
     foldl (\<lambda>acc c. add_stats acc (lru_getStats c)) \<lparr>s_hits = 0, s_misses = 0, s_bytes = 0, s_evictions = 0\<rparr>
       (sh_shards s)"

definition sharded_snapshot :: "nat \<Rightarrow> sharded \<Rightarrow> entry list" where
  "sharded_snapshot now s = concat (map (lru_snapshot now) (sh_shards s))"

section \<open>Invariant\<close>

definition sharded_inv :: "(bytes \<Rightarrow> nat) \<Rightarrow> sharded \<Rightarrow> bool" where
  "sharded_inv hash s \<longleftrightarrow>
     0 < sh_num s \<and> length (sh_shards s) = sh_num s \<and> (\<forall>c \<in> set (sh_shards s). lru_inv c) \<and>
     (\<forall>i < sh_num s. \<forall>e \<in> set (elems (sh_shards s ! i)). hash (e_key e) mod sh_num s = i)"

definition sharded_view :: "(bytes \<Rightarrow> nat) \<Rightarrow> nat \<Rightarrow> sharded \<Rightarrow> bytes \<Rightarrow> (bytes \<times> nat) option" where
  "sharded_view hash now s k = lru_view now (getShard hash k s) k"

lemma shard_index_less: "sharded_inv hash s \<Longrightarrow> shard_index hash k s < length (sh_shards s)"
  by (simp add: sharded_inv_def shard_index_def)

lemma getShard_inv: "sharded_inv hash s \<Longrightarrow> lru_inv (getShard hash k s)"
  using shard_index_less [of hash s k] by (simp add: sharded_inv_def getShard_def)

lemma set_shard_simps [simp]:
  "sh_num (set_shard hash k c s) = sh_num s" "length (sh_shards (set_shard hash k c s)) = length (sh_shards s)"
  "shard_index hash k' (set_shard hash k c s) = shard_index hash k' s"
  by (simp_all add: set_shard_def shard_index_def)

lemma getShard_set_shard:
  assumes "sharded_inv hash s"
  shows "getShard hash k' (set_shard hash k c s) =
           (if shard_index hash k' s = shard_index hash k s then c else getShard hash k' s)"
  using shard_index_less [OF assms, of k]
  by (auto simp: getShard_def set_shard_def shard_index_def)

text \<open>A method may add entries of its key only, so every key stays in its own shard.\<close>

lemma set_shard_inv:
  assumes "sharded_inv hash s" and "lru_inv c"
    and "e_key ` set (elems c) \<subseteq> insert k (e_key ` set (elems (getShard hash k s)))"
  shows "sharded_inv hash (set_shard hash k c s)"
proof -
  let ?i = "shard_index hash k s"
  have i: "?i < length (sh_shards s)"
    by (rule shard_index_less [OF assms(1)])
  have "\<forall>e \<in> set (elems (getShard hash k s)). hash (e_key e) mod sh_num s = ?i"
    using assms(1) i by (simp add: sharded_inv_def getShard_def)
  then have c: "\<forall>e \<in> set (elems c). hash (e_key e) mod sh_num s = ?i"
    using assms(3) by (fastforce simp: shard_index_def)
  show ?thesis
    unfolding sharded_inv_def
  proof (intro conjI allI impI ballI)
    fix j e
    assume "j < sh_num (set_shard hash k c s)" and "e \<in> set (elems (sh_shards (set_shard hash k c s) ! j))"
    then show "hash (e_key e) mod sh_num (set_shard hash k c s) = j"
      using assms(1) c i by (cases "j = ?i") (auto simp: set_shard_def sharded_inv_def)
  next
    fix d
    assume "d \<in> set (sh_shards (set_shard hash k c s))"
    then show "lru_inv d"
      using assms(1,2) by (auto simp: set_shard_def sharded_inv_def dest!: subsetD [OF set_update_subset_insert])
  qed (use assms(1) in \<open>simp_all add: sharded_inv_def\<close>)
qed

lemma without_subset: "set (without k es) \<subseteq> set es"
  by (auto simp: without_def)

lemma lru_put_keys:
  assumes "lru_inv c"
  shows "e_key ` set (elems (snd (lru_put now k v x c))) \<subseteq> insert k (e_key ` set (elems c))"
proof (cases "entry_cost k v \<le> l_max_bytes c")
  case True
  from lru_put_spec [OF assms True, of now x] obtain d where d: "lru_put now k v x c = (Inr (), d)"
    "elems d = ref_put (l_capacity c) (l_max_bytes c) now (mk_entry k v x) (elems c)"
    by blast
  have "set (elems d) \<subseteq> insert (mk_entry k v x) (set (elems c))"
    using set_keep [of "l_capacity c" "l_max_bytes c" "mk_entry k v x # without k (elems c)"]
      without_subset [of k "elems c"]
    by (auto simp: d(2) ref_put_def simp del: keep.simps)
  with d(1) show ?thesis
    by auto
qed (auto simp: lru_put_full)

lemma lru_get_keys:
  assumes "lru_inv c"
  shows "e_key ` set (elems (snd (lru_get now k c))) \<subseteq> insert k (e_key ` set (elems c))"
  using lru_get_spec [OF assms, of now k] without_subset [of k "elems c"]
  by (auto simp: ref_touch_def split: option.splits if_splits dest: entry_of_Some)

lemma lru_remove_keys:
  assumes "lru_inv c"
  shows "e_key ` set (elems (snd (lru_remove k c))) \<subseteq> insert k (e_key ` set (elems c))"
  using lru_remove_spec [OF assms, of k] without_subset [of k "elems c"] by auto

lemma sharded_ops:
  "sharded_put hash now k v x s =
     (fst (lru_put now k v x (getShard hash k s)), set_shard hash k (snd (lru_put now k v x (getShard hash k s))) s)"
  "sharded_get hash now k s =
     (fst (lru_get now k (getShard hash k s)), set_shard hash k (snd (lru_get now k (getShard hash k s))) s)"
  "sharded_remove hash k s =
     (fst (lru_remove k (getShard hash k s)), set_shard hash k (snd (lru_remove k (getShard hash k s))) s)"
  by (simp_all add: sharded_put_def sharded_get_def sharded_remove_def split_beta Let_def)

lemma set_shard_same: "set_shard hash k (getShard hash k s) s = s"
  by (simp add: set_shard_def getShard_def)

lemma sharded_put_inv: "sharded_inv hash s \<Longrightarrow> sharded_inv hash (snd (sharded_put hash now k v x s))"
  by (simp add: sharded_ops set_shard_inv getShard_inv lru_put_inv lru_put_keys)

lemma sharded_get_inv: "sharded_inv hash s \<Longrightarrow> sharded_inv hash (snd (sharded_get hash now k s))"
  by (simp add: sharded_ops set_shard_inv getShard_inv lc.get_inv lru_get_keys)

lemma sharded_remove_inv: "sharded_inv hash s \<Longrightarrow> sharded_inv hash (snd (sharded_remove hash k s))"
  by (simp add: sharded_ops set_shard_inv getShard_inv lc.remove_inv lru_remove_keys)

lemmas sharded_step_simps = sharded_ops sharded_view_def sharded_canStore_def getShard_set_shard getShard_inv

text \<open>Where a key shares the shard of the key a method touches, it is in the same LRU cache.\<close>

lemma same_shard: "shard_index hash k' s = shard_index hash k s \<Longrightarrow> getShard hash k' s = getShard hash k s"
  by (simp add: getShard_def)

interpretation sc: ttl_cache "sharded_inv hash" "sharded_view hash" "sharded_canStore hash" "sharded_put hash"
  "sharded_get hash" "sharded_remove hash" for hash
proof unfold_locales
  fix c k v k' v' now now' x y
  show "now \<le> now' \<Longrightarrow> sharded_view hash now' c k = live_at now' (sharded_view hash now c k)"
    unfolding sharded_view_def by (rule lc.view_later)
  show "sharded_inv hash c \<Longrightarrow> sharded_canStore hash k v c \<Longrightarrow> fst (sharded_put hash now k v x c) = Inr ()"
    by (simp add: sharded_step_simps lc.put_ok)
  show "sharded_inv hash c \<Longrightarrow> \<not> sharded_canStore hash k v c \<Longrightarrow> \<exists>e. sharded_put hash now k v x c = (Inl e, c)"
    using lc.put_full [of "getShard hash k c" k v now x]
    by (auto simp: sharded_step_simps set_shard_same)
  show "sharded_inv hash c \<Longrightarrow> sharded_inv hash (snd (sharded_put hash now k v x c))"
    by (rule sharded_put_inv)
  show "sharded_inv hash c \<Longrightarrow> sharded_canStore hash k v c \<Longrightarrow> now \<le> now' \<Longrightarrow>
      sharded_view hash now' (snd (sharded_put hash now k v x c)) k = live_at now' (Some (v, x))"
    by (simp add: sharded_step_simps lc.put_same)
  show "sharded_inv hash c \<Longrightarrow> k' \<noteq> k \<Longrightarrow> sharded_view hash now' (snd (sharded_put hash now k v x c)) k' = Some y \<Longrightarrow>
      sharded_view hash now' c k' = Some y"
    using lc.put_other [of "getShard hash k c" k' k now' now v x y] same_shard [of hash k' c k]
    by (auto simp: sharded_step_simps split: if_splits)
  show "sharded_inv hash c \<Longrightarrow> fst (sharded_get hash now k c) = map_option fst (sharded_view hash now c k)"
    by (simp add: sharded_step_simps lc.get_reply)
  show "sharded_inv hash c \<Longrightarrow> sharded_inv hash (snd (sharded_get hash now k c))"
    by (rule sharded_get_inv)
  show "sharded_inv hash c \<Longrightarrow> now \<le> now' \<Longrightarrow> sharded_view hash now' (snd (sharded_get hash now k c)) = sharded_view hash now' c"
    by (auto simp: fun_eq_iff sharded_step_simps lc.get_view dest: same_shard)
  show "sharded_inv hash c \<Longrightarrow> sharded_inv hash (snd (sharded_remove hash k c))"
    by (rule sharded_remove_inv)
  show "sharded_inv hash c \<Longrightarrow> sharded_view hash now' (snd (sharded_remove hash k c)) = (sharded_view hash now' c)(k := None)"
    by (auto simp: fun_eq_iff sharded_step_simps lc.remove_view dest: same_shard)
  show "sharded_inv hash c \<Longrightarrow> sharded_canStore hash k' v' (snd (sharded_put hash now k v x c)) = sharded_canStore hash k' v' c"
    by (auto simp: sharded_step_simps lc.canStore_put dest: same_shard)
  show "sharded_inv hash c \<Longrightarrow> sharded_canStore hash k' v' (snd (sharded_get hash now k c)) = sharded_canStore hash k' v' c"
    by (auto simp: sharded_step_simps lc.canStore_get dest: same_shard)
  show "sharded_inv hash c \<Longrightarrow> sharded_canStore hash k' v' (snd (sharded_remove hash k c)) = sharded_canStore hash k' v' c"
    by (auto simp: sharded_step_simps lc.canStore_remove dest: same_shard)
qed

section \<open>Construction\<close>

lemma sum_spread: "r \<le> n \<Longrightarrow> (\<Sum>i<n. q + (if i < r then 1 else 0)) = n * q + (r :: nat)"
proof -
  assume "r \<le> n"
  then have "{..<n} \<inter> {i. i < r} = {..<r}"
    by auto
  then show ?thesis
    by (simp add: sum.distrib sum.If_cases)
qed

lemma spread_total:
  assumes "0 < n"
  shows "(\<Sum>i<n. a div n + (if i < a mod n then 1 else 0)) = (a :: nat)"
  using assms sum_spread [of "a mod n" n "a div n"] by (simp add: less_imp_le)

lemma lru_new_ok: "(\<exists>c. lru_new cap m = Inr c) \<longleftrightarrow> 0 < cap \<and> 0 < m"
  by (auto simp: lru_new_def)

lemma spread_pos: "0 < n \<Longrightarrow> n \<le> a \<Longrightarrow> 0 < a div n + (if i < a mod n then 1 else 0)" for a n :: nat
  by (simp add: div_greater_zero_iff)

lemma sharded_newD:
  assumes "sharded_new cap num m = Inr s"
  defines "n \<equiv> min cap num"
  shows "0 < n" "sh_num s = n" "length (sh_shards s) = n"
    and "\<And>i. i < n \<Longrightarrow> lru_new (cap div n + (if i < cap mod n then 1 else 0))
            (m div n + (if i < m mod n then 1 else 0)) = Inr (sh_shards s ! i)"
proof -
  let ?new = "\<lambda>i. lru_new (cap div n + (if i < cap mod n then 1 else 0)) (m div n + (if i < m mod n then 1 else 0))"
  have pos: "\<not> (cap = 0 \<or> num = 0)"
  proof
    assume "cap = 0 \<or> num = 0"
    from assms(1) [unfolded sharded_new_def if_P [OF this]] show False
      by simp
  qed
  then have all: "list_all2 (\<lambda>i c. ?new i = Inr c) [0..<n] (sh_shards s)" and num: "sh_num s = n"
    using assms(1) unfolding sharded_new_def if_not_P [OF pos] Let_def n_def [symmetric]
    by (auto simp only: rbind_eq_Inr rmap_Inr sum.inject sharded.simps)
  show "0 < n"
    using pos by (simp add: n_def)
  show "sh_num s = n" "length (sh_shards s) = n"
    using num list_all2_lengthD [OF all] by simp_all
  show "\<And>i. i < n \<Longrightarrow> ?new i = Inr (sh_shards s ! i)"
    using list_all2_nthD [OF all] by (simp only: length_upt diff_zero nth_upt add_0)
qed

lemma sharded_new_shard:
  assumes "sharded_new cap num m = Inr s" and "2 * m < sz_mod" and "i < sh_num s"
  shows "lru_inv (sh_shards s ! i)" "elems (sh_shards s ! i) = []"
    "l_capacity (sh_shards s ! i) = cap div sh_num s + (if i < cap mod sh_num s then 1 else 0)"
    "l_max_bytes (sh_shards s ! i) = m div sh_num s + (if i < m mod sh_num s then 1 else 0)"
proof -
  note d = sharded_newD [OF assms(1)]
  have new: "lru_new (cap div sh_num s + (if i < cap mod sh_num s then 1 else 0))
      (m div sh_num s + (if i < m mod sh_num s then 1 else 0)) = Inr (sh_shards s ! i)"
    using d(2) d(4) [of i] assms(3) by simp
  have "m div sh_num s + (if i < m mod sh_num s then 1 else 0) \<le> m"
    using member_le_sum [of i "{..<sh_num s}" "\<lambda>i. m div sh_num s + (if i < m mod sh_num s then 1 else 0)"]
      spread_total [of "sh_num s" m] assms(3) d(1,2) by simp
  with assms(2) have "2 * (m div sh_num s + (if i < m mod sh_num s then 1 else 0)) < sz_mod"
    by simp
  from lru_new_inv [OF new this] show "lru_inv (sh_shards s ! i)" "elems (sh_shards s ! i) = []"
    "l_capacity (sh_shards s ! i) = cap div sh_num s + (if i < cap mod sh_num s then 1 else 0)"
    "l_max_bytes (sh_shards s ! i) = m div sh_num s + (if i < m mod sh_num s then 1 else 0)"
    by simp_all
qed

lemma sharded_new_inv:
  assumes "sharded_new cap num m = Inr s" and "2 * m < sz_mod"
  shows "sharded_inv hash s"
  using sharded_newD [OF assms(1)] sharded_new_shard [OF assms]
  by (auto simp: sharded_inv_def in_set_conv_nth)

lemma lru_new_budgets: "lru_new cap m = Inr c \<Longrightarrow> l_capacity c = cap \<and> l_max_bytes c = m \<and> 0 < cap \<and> 0 < m"
  by (auto simp: lru_new_def split: if_splits)

lemma sum_list_nth: "sum_list (map f xs) = (\<Sum>i<length xs. f (xs ! i))"
  by (simp add: sum_list_sum_nth atLeast0LessThan)

lemma sharded_new_totals:
  assumes "sharded_new cap num m = Inr s"
  shows "sum_list (map l_capacity (sh_shards s)) = cap" "sum_list (map l_max_bytes (sh_shards s)) = m"
proof -
  note d = sharded_newD [OF assms]
  have "sum_list (map l_capacity (sh_shards s)) = (\<Sum>i<min cap num. cap div min cap num + (if i < cap mod min cap num then 1 else 0))"
    unfolding sum_list_nth d(3) by (rule sum.cong) (use d(4) lru_new_budgets in blast)+
  then show "sum_list (map l_capacity (sh_shards s)) = cap"
    using spread_total [OF d(1), of cap] by (simp only:)
  have "sum_list (map l_max_bytes (sh_shards s)) = (\<Sum>i<min cap num. m div min cap num + (if i < m mod min cap num then 1 else 0))"
    unfolding sum_list_nth d(3) by (rule sum.cong) (use d(4) lru_new_budgets in blast)+
  then show "sum_list (map l_max_bytes (sh_shards s)) = m"
    using spread_total [OF d(1), of m] by (simp only:)
qed

lemma sharded_new_ok: "(\<exists>s. sharded_new cap num m = Inr s) \<longleftrightarrow> 0 < cap \<and> 0 < num \<and> min cap num \<le> m"
proof (cases "cap = 0 \<or> num = 0")
  case True
  then show ?thesis
    unfolding sharded_new_def if_P [OF True] by auto
next
  case False
  define n where "n = min cap num"
  have n: "0 < n" "n \<le> cap"
    using False by (simp_all add: n_def)
  let ?new = "\<lambda>i. lru_new (cap div n + (if i < cap mod n then 1 else 0)) (m div n + (if i < m mod n then 1 else 0))"
  have "(\<exists>s. sharded_new cap num m = Inr s) \<longleftrightarrow> (\<exists>cs. rmap ?new [0..<n] = Inr cs)"
    unfolding sharded_new_def if_not_P [OF False] Let_def n_def [symmetric] by (simp only: rbind_eq_Inr) blast
  also have "\<dots> \<longleftrightarrow> (\<forall>i < n. 0 < m div n + (if i < m mod n then 1 else 0))"
    unfolding rmap_ok lru_new_ok using spread_pos [OF n] by (simp only: set_upt Ball_def atLeastLessThan_iff le0) simp
  also have "\<dots> \<longleftrightarrow> n \<le> m"
  proof
    assume all: "\<forall>i < n. 0 < m div n + (if i < m mod n then 1 else 0)"
    show "n \<le> m"
    proof (rule ccontr)
      assume "\<not> n \<le> m"
      then have "m div n = 0" and "\<not> n - 1 < m mod n"
        by simp_all
      with all n(1) show False
        by (auto dest: spec [of _ "n - 1"])
    qed
  next
    assume "n \<le> m"
    from spread_pos [OF n(1) this] show "\<forall>i < n. 0 < m div n + (if i < m mod n then 1 else 0)"
      by (intro allI impI)
  qed
  finally show ?thesis
    using False by (simp add: n_def)
qed

text \<open>No method changes a shard's budgets.\<close>

definition budgets :: "sharded \<Rightarrow> (nat \<times> nat) list" where
  "budgets s = map (\<lambda>c. (l_capacity c, l_max_bytes c)) (sh_shards s)"

lemma budgets_set_shard:
  assumes "sharded_inv hash s" and "l_capacity c = l_capacity (getShard hash k s)"
    and "l_max_bytes c = l_max_bytes (getShard hash k s)"
  shows "budgets (set_shard hash k c s) = budgets s"
  using assms shard_index_less [OF assms(1), of k]
  by (auto simp: budgets_def set_shard_def getShard_def map_update intro!: list_update_same_conv [THEN iffD2])

lemma lru_put_budgets:
  "lru_inv c \<Longrightarrow> l_capacity (snd (lru_put now k v x c)) = l_capacity c \<and>
     l_max_bytes (snd (lru_put now k v x c)) = l_max_bytes c"
  using lru_put_spec [of c k v now x] lru_put_full [of c k v True now x]
  by (cases "entry_cost k v \<le> l_max_bytes c") auto

lemma sharded_budgets [simp]:
  assumes "sharded_inv hash s"
  shows "budgets (snd (sharded_put hash now k v x s)) = budgets s"
    "budgets (snd (sharded_get hash now k s)) = budgets s"
    "budgets (snd (sharded_remove hash k s)) = budgets s"
  using assms getShard_inv [OF assms, of k] lru_put_budgets [of "getShard hash k s"]
    lru_get_spec [of "getShard hash k s" now k] lru_remove_spec [of "getShard hash k s" k]
  by (auto simp: sharded_ops intro!: budgets_set_shard)

lemma budgets_total:
  "sum_list (map l_capacity (sh_shards s)) = sum_list (map fst (budgets s))"
  "sum_list (map l_max_bytes (sh_shards s)) = sum_list (map snd (budgets s))"
  by (simp_all add: budgets_def comp_def)

lemma sharded_size_le:
  assumes "sharded_inv hash s" and "sum_list (map fst (budgets s)) < sz_mod"
  shows "sharded_size s \<le> sum_list (map fst (budgets s))"
proof -
  have "sum_list (map lru_size (sh_shards s)) \<le> sum_list (map l_capacity (sh_shards s))"
    using assms(1) by (intro sum_list_mono) (auto simp: sharded_inv_def lru_size_def elems_def dest!: lru_invD(5))
  with assms(2) show ?thesis
    using foldl_sz_add [of 0 lru_size "sh_shards s"] by (simp add: sharded_size_def budgets_total)
qed

lemma getStats_bytes:
  "s_bytes (foldl (\<lambda>acc c. add_stats acc (lru_getStats c)) a cs) =
     foldl (\<lambda>acc c. sz_add acc (s_bytes (l_stats c))) (s_bytes a) cs"
  by (induction cs arbitrary: a) (simp_all add: add_stats_def lru_getStats_def)

lemma sharded_bytes_le:
  assumes "sharded_inv hash s" and "sum_list (map snd (budgets s)) < sz_mod"
  shows "s_bytes (sharded_getStats s) = sum_list (map (\<lambda>c. total_bytes (elems c)) (sh_shards s)) \<and>
         s_bytes (sharded_getStats s) \<le> sum_list (map snd (budgets s))"
proof -
  have eq: "map (\<lambda>c. s_bytes (l_stats c)) (sh_shards s) = map (\<lambda>c. total_bytes (elems c)) (sh_shards s)"
    using assms(1) by (auto simp: sharded_inv_def lru_wf_def dest!: lru_invD(1))
  have le: "sum_list (map (\<lambda>c. total_bytes (elems c)) (sh_shards s)) \<le> sum_list (map l_max_bytes (sh_shards s))"
    using assms(1) by (intro sum_list_mono) (auto simp: sharded_inv_def dest!: lru_invD(6))
  have "s_bytes (sharded_getStats s) = sum_list (map (\<lambda>c. s_bytes (l_stats c)) (sh_shards s))"
    using foldl_sz_add [of 0 "\<lambda>c. s_bytes (l_stats c)" "sh_shards s"] le assms(2)
    by (simp add: sharded_getStats_def getStats_bytes eq budgets_total)
  with le show ?thesis
    unfolding eq budgets_total by (simp only: simp_thms)
qed

section \<open>Replaying a snapshot\<close>

text \<open>Storing the entries of a list, oldest first, as the log replay does.\<close>

definition put_all :: "(bytes \<Rightarrow> nat) \<Rightarrow> nat \<Rightarrow> entry list \<Rightarrow> sharded \<Rightarrow> sharded" where
  "put_all hash now es s =
     foldl (\<lambda>s e. snd (sharded_put hash now (e_key e) (e_value e) (e_expires e) s)) s es"

definition lru_put_all :: "nat \<Rightarrow> entry list \<Rightarrow> lru \<Rightarrow> lru" where
  "lru_put_all now es c = foldl (\<lambda>c e. snd (lru_put now (e_key e) (e_value e) (e_expires e) c)) c es"

lemma put_all_inv: "sharded_inv hash s \<Longrightarrow> sharded_inv hash (put_all hash now es s)"
  by (induction es arbitrary: s) (simp_all add: put_all_def sharded_put_inv)

lemma put_all_num: "sh_num (put_all hash now es s) = sh_num s"
  by (induction es arbitrary: s) (simp_all add: put_all_def sharded_ops)

lemma shard_of_put:
  assumes "sharded_inv hash s" and "i < sh_num s"
  shows "sh_shards (snd (sharded_put hash now k v x s)) ! i =
           (if hash k mod sh_num s = i then snd (lru_put now k v x (sh_shards s ! i)) else sh_shards s ! i)"
  using assms by (auto simp: sharded_ops set_shard_def getShard_def shard_index_def sharded_inv_def)

text \<open>Each shard sees exactly the entries whose keys hash to it.\<close>

lemma shard_of_put_all:
  assumes "sharded_inv hash s" and "i < sh_num s"
  shows "sh_shards (put_all hash now es s) ! i =
           lru_put_all now (filter (\<lambda>e. hash (e_key e) mod sh_num s = i) es) (sh_shards s ! i)"
  using assms
proof (induction es arbitrary: s)
  case Nil
  show ?case by (simp add: put_all_def lru_put_all_def)
next
  case (Cons e es)
  let ?s = "snd (sharded_put hash now (e_key e) (e_value e) (e_expires e) s)"
  have n: "sh_num ?s = sh_num s"
    by (simp add: sharded_ops)
  have "sh_shards (put_all hash now es ?s) ! i =
      lru_put_all now (filter (\<lambda>e. hash (e_key e) mod sh_num s = i) es) (sh_shards ?s ! i)"
    using Cons.IH [of ?s] Cons.prems sharded_put_inv n by simp
  then show ?case
    using shard_of_put [OF Cons.prems] by (simp add: put_all_def lru_put_all_def)
qed

lemma lru_put_all_restore:
  assumes "lru_inv c" and "elems c = []" and "distinct (map e_key L)"
    and "\<forall>e \<in> set L. e_bytes e = entry_cost (e_key e) (e_value e)"
    and "length L \<le> l_capacity c" and "total_bytes L \<le> l_max_bytes c"
  shows "lru_inv (lru_put_all now (rev L) c) \<and>
         elems (lru_put_all now (rev L) c) = filter (\<lambda>e. \<not> Expired now e) L \<and>
         l_capacity (lru_put_all now (rev L) c) = l_capacity c \<and>
         l_max_bytes (lru_put_all now (rev L) c) = l_max_bytes c"
  using assms(3-6)
proof (induction L)
  case Nil
  with assms show ?case by (simp add: lru_put_all_def)
next
  case (Cons e L)
  let ?c = "lru_put_all now (rev L) c" and ?L = "filter (\<lambda>e. \<not> Expired now e) L"
  have IH: "lru_inv ?c" "elems ?c = ?L" "l_capacity ?c = l_capacity c" "l_max_bytes ?c = l_max_bytes c"
    using Cons by simp_all
  have e: "mk_entry (e_key e) (e_value e) (e_expires e) = e"
    using Cons.prems(2) by (simp add: mk_entry_def)
  have "entry_cost (e_key e) (e_value e) \<le> l_max_bytes ?c"
    using Cons.prems IH(4) by simp
  from lru_put_spec [OF IH(1) this, of now "e_expires e"] obtain d
    where d: "lru_put now (e_key e) (e_value e) (e_expires e) ?c = (Inr (), d)" "lru_inv d"
      "elems d = ref_put (l_capacity c) (l_max_bytes c) now e ?L"
      "l_capacity d = l_capacity c" "l_max_bytes d = l_max_bytes c"
    unfolding e IH(2,3,4) by blast
  have "e_key e \<notin> e_key ` set ?L"
    using Cons.prems(1) by auto
  then have w: "without (e_key e) ?L = ?L"
    by (rule without_idle)
  have "length ?L \<le> length L" and "total_bytes ?L \<le> total_bytes L"
    by (auto simp: total_bytes_def intro: sum_list_filter_le_nat)
  then have "keep (l_capacity c) (l_max_bytes c) (e # ?L) = e # ?L"
    using Cons.prems(3,4) by (intro keep_id) (simp_all del: length_filter_le)
  then have "elems d = filter (\<lambda>e. \<not> Expired now e) (e # L)"
    by (simp add: d(3) ref_put_def w del: keep.simps)
  moreover have "lru_put_all now (rev (e # L)) c = d"
    using d(1) by (simp add: lru_put_all_def)
  ultimately show ?case
    using d(2,4,5) by simp
qed

lemma snapshot_filter:
  assumes "sharded_inv hash s" and "i < sh_num s"
  shows "filter (\<lambda>e. hash (e_key e) mod sh_num s = i) (sharded_snapshot now s) = lru_snapshot now (sh_shards s ! i)"
proof -
  let ?P = "\<lambda>e. hash (e_key e) mod sh_num s = i"
  have f: "filter ?P (lru_snapshot now (sh_shards s ! j)) = (if j = i then lru_snapshot now (sh_shards s ! j) else [])"
    if "j < sh_num s" for j
  proof -
    have "\<forall>e \<in> set (lru_snapshot now (sh_shards s ! j)). ?P e \<longleftrightarrow> j = i"
      using assms(1) that by (auto simp: sharded_inv_def lru_snapshot_def elems_def)
    then show ?thesis
      by (auto simp: filter_id_conv filter_empty_conv)
  qed
  have "sharded_snapshot now s = concat (map (\<lambda>j. lru_snapshot now (sh_shards s ! j)) [0..<sh_num s])"
    using assms(1) map_nth [of "sh_shards s"]
    by (metis (no_types, lifting) sharded_snapshot_def sharded_inv_def map_map comp_apply map_eq_conv)
  then have "filter ?P (sharded_snapshot now s) =
      concat (map (\<lambda>j. if j = i then lru_snapshot now (sh_shards s ! j) else []) [0..<sh_num s])"
    by (auto simp: filter_concat comp_def f intro!: arg_cong [of _ _ concat])
  also have "[0..<sh_num s] = [0..<i] @ i # [Suc i..<sh_num s]"
    using assms(2) upt_add_eq_append [of 0 i "sh_num s - i"] by (simp add: upt_conv_Cons)
  also have "concat (map (\<lambda>j. if j = i then lru_snapshot now (sh_shards s ! j) else []) \<dots>) =
      lru_snapshot now (sh_shards s ! i)"
  proof -
    have "concat (map (\<lambda>j. if j = i then lru_snapshot now (sh_shards s ! j) else []) [0..<i]) = []"
      and "concat (map (\<lambda>j. if j = i then lru_snapshot now (sh_shards s ! j) else []) [Suc i..<sh_num s]) = []"
      by (simp_all add: concat_eq_Nil_conv)
    then show ?thesis
      by (simp only: map_append list.map concat_append concat.simps append_Nil append_Nil2 if_True refl)
  qed
  finally show ?thesis .
qed

lemma snapshot_rev: "lru_snapshot now c = rev (filter (\<lambda>e. \<not> Expired now e) (elems c))"
  by (simp add: lru_snapshot_def elems_def rev_filter rev_map)

lemma filter_sum_le: "total_bytes (filter P es) \<le> total_bytes es"
  by (simp add: total_bytes_def sum_list_filter_le_nat)

lemma filter_Expired_later: "now \<le> now' \<Longrightarrow> filter (\<lambda>e. \<not> Expired now' e) (filter (\<lambda>e. \<not> Expired now e) es) = filter (\<lambda>e. \<not> Expired now' e) es"
  by (auto simp: filter_filter intro!: filter_cong dest: Expired_mono)

lemma snapshot_restore_shard:
  assumes "sharded_inv hash s" and "sharded_inv hash t" and "budgets t = budgets s" and "now \<le> now'"
    and "\<forall>c \<in> set (sh_shards t). elems c = []" and "i < sh_num s"
  shows "elems (sh_shards (put_all hash now' (sharded_snapshot now s) t) ! i) =
           filter (\<lambda>e. \<not> Expired now' e) (elems (sh_shards s ! i))"
proof -
  let ?c = "sh_shards s ! i" and ?d = "sh_shards t ! i" and ?L = "filter (\<lambda>e. \<not> Expired now e) (elems (sh_shards s ! i))"
  have len: "length (sh_shards t) = length (sh_shards s)"
    using arg_cong [OF assms(3), of length] by (simp add: budgets_def)
  then have n: "sh_num t = sh_num s" and i: "i < length (sh_shards s)" "i < length (sh_shards t)"
    using assms(1,2,6) by (simp_all add: sharded_inv_def)
  have "l_capacity ?d = l_capacity ?c" and "l_max_bytes ?d = l_max_bytes ?c"
    using arg_cong [OF assms(3), of "\<lambda>xs. xs ! i"] i by (simp_all add: budgets_def)
  moreover have c: "lru_inv ?c" and d: "lru_inv ?d" "elems ?d = []"
    using assms(1,2,5) i by (simp_all add: sharded_inv_def)
  moreover have "distinct (map e_key ?L)" and "\<forall>e \<in> set ?L. e_bytes e = entry_cost (e_key e) (e_value e)"
    using lru_invD(1) [OF c] by (auto simp: lru_wf_def distinct_map_filter)
  moreover have "length ?L \<le> l_capacity ?c" and "total_bytes ?L \<le> l_max_bytes ?c"
    using lru_invD(5,6) [OF c] filter_sum_le [of _ "elems ?c"] length_filter_le [of _ "elems ?c"] order_trans by blast+
  ultimately have "elems (lru_put_all now' (rev ?L) ?d) = filter (\<lambda>e. \<not> Expired now' e) ?L"
    using lru_put_all_restore [of ?d ?L now'] by simp
  then show ?thesis
    using shard_of_put_all [OF assms(2), of i now' "sharded_snapshot now s"] snapshot_filter [OF assms(1,6), of now]
      assms(4,6) n by (simp add: snapshot_rev filter_Expired_later del: filter_filter)
qed

section \<open>Properties\<close>

abbreviation sharded_run :: "(bytes \<Rightarrow> nat) \<Rightarrow> (nat \<times> cache_op) list \<Rightarrow> sharded \<Rightarrow> bytes option list \<times> sharded" where
  "sharded_run hash \<equiv> cache_run (sharded_put hash) (sharded_get hash) (sharded_remove hash)"

lemma sharded_run_inv:
  assumes "sharded_inv hash s"
  shows "sharded_inv hash (snd (sharded_run hash ops s)) \<and> budgets (snd (sharded_run hash ops s)) = budgets s"
  using assms
proof (induction ops arbitrary: s)
  case (Cons o1 ops)
  obtain t op where o1: "o1 = (t, op)"
    by (cases o1)
  let ?s = "snd (cache_step (sharded_put hash) (sharded_get hash) (sharded_remove hash) t op s)"
  have "sharded_inv hash ?s" and "budgets ?s = budgets s"
    using Cons.prems by (cases op; simp add: sharded_put_inv sharded_get_inv sharded_remove_inv)+
  with Cons.IH [of ?s] show ?case
    by (simp add: o1 split_beta Let_def)
qed simp

lemma fresh_covered:
  assumes "sharded_new cap num m = Inr s" and "2 * m < sz_mod"
  shows "sc.covered hash now s Map.empty"
proof (rule sc.coveredI)
  show inv: "sharded_inv hash s"
    using assms by (rule sharded_new_inv)
  have "sharded_view hash now' s k = None" for now' k
    using sharded_new_shard(2) [OF assms, of "shard_index hash k s"] shard_index_less [OF inv, of k] inv
    by (simp add: sharded_view_def lru_view_def getShard_def sharded_inv_def)
  then show "\<And>now' k y. sharded_view hash now' s k = Some y \<Longrightarrow> Map.empty k = Some y"
    by simp
qed

text \<open>
  C19. Coherence: whatever timed sequence of stores, lookups and removals runs on a new sharded
  cache (for any hash), every lookup is either a miss or returns exactly what an unbounded
  map holds under the key at that time, namely the last stored value, provided it was not
  removed since and has not expired. Evictions and shard placement never produce a stale or
  foreign value.
\<close>

theorem sharded_cache_coherent:
  assumes "sharded_new cap num m = Inr s" and "2 * m < sz_mod" and "sorted (map fst ops)"
    and "\<forall>op \<in> set ops. storable (\<lambda>k v. sharded_canStore hash k v s) (snd op)"
  shows "list_all2 (\<lambda>r r'. r = None \<or> r = r') (fst (sharded_run hash ops s)) (store_run ops Map.empty)"
  by (rule sc.coherent_run [OF fresh_covered [OF assms(1,2), of hash 0]]) (use assms in simp_all)

theorem sharded_cache_coherent_witness:
  "\<exists>s. sharded_new 3 2 400 = Inr s \<and>
     list_all2 (\<lambda>r r'. r = None \<or> r = r') (fst (sharded_run length [(5, Op_put [1] [9] 0), (6, Op_get [1])] s)) [None, Some [9]]"
proof -
  obtain s where s: "sharded_new 3 2 400 = Inr s"
    using sharded_new_ok [of 3 2 400] by auto
  have "sharded_canStore length [1] [9] s"
    using sharded_new_shard(4) [OF s, of "shard_index length [1] s"] sharded_newD(2) [OF s]
    by (simp add: sharded_canStore_def lru_canStore_def getShard_def shard_index_def entry_cost_def
        sz_add_def sz_mod_def SIZEOF_ENTRY_def)
  with sharded_cache_coherent [OF s, of "[(5, Op_put [1] [9] 0), (6, Op_get [1])]" length]
  have "list_all2 (\<lambda>r r'. r = None \<or> r = r') (fst (sharded_run length [(5, Op_put [1] [9] 0), (6, Op_get [1])] s)) [None, Some [9]]"
    by (simp add: sz_mod_def live_at_def)
  with s show ?thesis
    by blast
qed

text \<open>
  The budgets are split exactly: the cache has \<open>min capacity num_shards\<close> shards, their
  entry capacities add up to the capacity and their byte budgets to the byte budget, with
  no rounding up.
\<close>

lemma sharded_budgets_exact:
  assumes "sharded_new cap num m = Inr s"
  shows "length (sh_shards s) = min cap num \<and> sum_list (map l_capacity (sh_shards s)) = cap \<and>
         sum_list (map l_max_bytes (sh_shards s)) = m"
  using sharded_newD(3) [OF assms] sharded_new_totals [OF assms] by simp

text \<open>
  The constructor succeeds exactly for a positive capacity, a positive shard count and a
  byte budget of at least one byte per shard; otherwise it throws.
\<close>

lemma sharded_new_succeeds_iff:
  "(\<exists>s. sharded_new cap num m = Inr s) \<longleftrightarrow> 0 < cap \<and> 0 < num \<and> min cap num \<le> m"
  by (rule sharded_new_ok)

text \<open>
  C25. The aggregate limits hold after any sequence of calls: \<open>size()\<close> never exceeds the
  capacity, the accounted bytes never exceed the byte budget, and none of the 64-bit sums
  over the shards wraps around: the reported bytes are the bytes of the resident entries.
\<close>

theorem sharded_aggregate_limits:
  fixes hash :: "bytes \<Rightarrow> nat" and ops :: "(nat \<times> cache_op) list"
  assumes "sharded_new cap num m = Inr s" and "2 * m < sz_mod" and "cap < sz_mod"
  defines "t \<equiv> snd (sharded_run hash ops s)"
  shows "sharded_size t \<le> cap \<and> s_bytes (sharded_getStats t) \<le> m \<and>
         s_bytes (sharded_getStats t) = sum_list (map (\<lambda>c. total_bytes (elems c)) (sh_shards t))"
proof -
  have t: "sharded_inv hash t" "budgets t = budgets s"
    using sharded_run_inv [OF sharded_new_inv [OF assms(1,2)], of hash ops] by (simp_all add: t_def)
  have "sum_list (map fst (budgets t)) = cap" and "sum_list (map snd (budgets t)) = m"
    using sharded_new_totals [OF assms(1)] by (simp_all add: t(2) budgets_total)
  then show ?thesis
    using sharded_size_le [OF t(1)] sharded_bytes_le [OF t(1)] assms(2,3) by simp
qed

theorem sharded_aggregate_limits_witness:
  "\<exists>s. sharded_new 1 4 403 = Inr s \<and>
     sharded_size (snd (sharded_run length [(5, Op_put [1] [9] 0), (6, Op_put [2] [9] 0)] s)) \<le> 1"
proof -
  obtain s where s: "sharded_new 1 4 403 = Inr s"
    using sharded_new_ok [of 1 4 403] by auto
  with sharded_aggregate_limits [OF s, of length "[(5, Op_put [1] [9] 0), (6, Op_put [2] [9] 0)]"] show ?thesis
    by (simp add: sz_mod_def)
qed

text \<open>
  C22. A snapshot is a faithful image: storing its entries in order into a new cache of the
  same configuration, at the time of the snapshot or later, rebuilds every shard with the
  entries still alive in their LRU order.
\<close>

theorem snapshot_replay_restores:
  fixes hash :: "bytes \<Rightarrow> nat" and ops :: "(nat \<times> cache_op) list"
  assumes "sharded_new cap num m = Inr s" and "2 * m < sz_mod" and "now \<le> now'"
  defines "t \<equiv> snd (sharded_run hash ops s)"
  shows "map elems (sh_shards (put_all hash now' (sharded_snapshot now t) s)) =
           map (\<lambda>c. filter (\<lambda>e. \<not> Expired now' e) (elems c)) (sh_shards t)"
proof -
  have s: "sharded_inv hash s" and empty: "\<forall>c \<in> set (sh_shards s). elems c = []"
    using sharded_new_inv [OF assms(1,2)] sharded_new_shard(2) [OF assms(1,2)] sharded_newD [OF assms(1)]
    by (auto simp: in_set_conv_nth)
  have t: "sharded_inv hash t" "budgets t = budgets s"
    using sharded_run_inv [OF s, of ops] by (simp_all add: t_def)
  let ?r = "put_all hash now' (sharded_snapshot now t) s"
  have len: "length (sh_shards ?r) = length (sh_shards t)" "length (sh_shards t) = sh_num t"
    using arg_cong [OF t(2), of length] t(1) s put_all_inv [OF s, of now' "sharded_snapshot now t"]
    by (simp_all add: budgets_def sharded_inv_def put_all_num)
  show ?thesis
    by (rule nth_equalityI)
      (simp_all add: len snapshot_restore_shard [OF t(1) s t(2) [symmetric] assms(3) empty])
qed

theorem snapshot_replay_restores_witness:
  "\<exists>s. sharded_new 4 2 400 = Inr s \<and>
     map elems (sh_shards (put_all length 7 (sharded_snapshot 6 (snd (sharded_run length [(5, Op_put [1] [9] 0)] s))) s)) =
       map (\<lambda>c. filter (\<lambda>e. \<not> Expired 7 e) (elems c)) (sh_shards (snd (sharded_run length [(5, Op_put [1] [9] 0)] s)))"
proof -
  obtain s where s: "sharded_new 4 2 400 = Inr s"
    using sharded_new_ok [of 4 2 400] by auto
  have "2 * 400 < sz_mod" and "(6::nat) \<le> 7"
    by (simp_all add: sz_mod_def)
  with s snapshot_replay_restores [OF s, of 6 7 length "[(5, Op_put [1] [9] 0)]"] show ?thesis
    by blast
qed

end
