(* ===== verification/Kv_Protocol.thy ===== *)
theory Kv_Protocol
  imports Prelude
begin

text \<open>
  The KV compatibility protocol of \<open>include/kvrpc/kv_protocol.h\<close>: the frame header, its
  validation, \<open>Message::encode\<close> and \<open>Message::decodeHeader\<close>, and the frame sizer that
  the server (\<open>KVCache/src/main.cpp\<close>) and the client install. A \<open>std::string\<close> key or
  value is its list of bytes. The lemmas show that encoding and parsing are inverse to each
  other on exactly the frames that \<open>validate\<close> accepts.
\<close>

section \<open>Constants and header\<close>

definition MAGIC :: "16 word" where
  "MAGIC = 0xCAFE"

definition VERSION :: "8 word" where
  "VERSION = 1"

definition HEADER_SIZE :: nat where
  [limit_defs]: "HEADER_SIZE = 12"

definition MAX_KEY_SIZE :: nat where
  [limit_defs]: "MAX_KEY_SIZE = 64 * 1024"

definition MAX_VALUE_SIZE :: nat where
  [limit_defs]: "MAX_VALUE_SIZE = 1024 * 1024"

definition MAX_WIRE_VALUE_SIZE :: nat where
  [limit_defs]: "MAX_WIRE_VALUE_SIZE = MAX_VALUE_SIZE + 64"

definition MAX_FRAME_SIZE :: nat where
  [limit_defs]: "MAX_FRAME_SIZE = HEADER_SIZE + MAX_KEY_SIZE + MAX_WIRE_VALUE_SIZE"

datatype command = SET | GET | DEL | STATS | LOOKUP | SET_TTL | UNKNOWN

fun command_code :: "command \<Rightarrow> 8 word" where
  "command_code SET = 1"
| "command_code GET = 2"
| "command_code DEL = 3"
| "command_code STATS = 4"
| "command_code LOOKUP = 5"
| "command_code SET_TTL = 6"
| "command_code UNKNOWN = 0"

text \<open>
  \<open>static_cast<Command>(h.command)\<close>. The sources cast only after \<open>validate\<close>, which
  leaves the codes 1 to 6.
\<close>

definition command_of :: "8 word \<Rightarrow> command" where
  "command_of b =
     (if b = 1 then SET else if b = 2 then GET else if b = 3 then DEL else if b = 4 then STATS
      else if b = 5 then LOOKUP else if b = 6 then SET_TTL else UNKNOWN)"

record header =
  h_magic :: "16 word"
  h_version :: "8 word"
  h_command :: "8 word"
  h_key_len :: "32 word"
  h_value_len :: "32 word"

definition validate :: "header \<Rightarrow> unit result" where
  "validate h =
     throw_if (h_magic h \<noteq> MAGIC \<or> h_version h \<noteq> VERSION \<or> h_command h < 1 \<or> h_command h > 6 \<or>
        unat (h_key_len h) > MAX_KEY_SIZE \<or> unat (h_value_len h) > MAX_WIRE_VALUE_SIZE)
       (Runtime_error ''Invalid KVCache frame header'')"

section \<open>Encoding and decoding\<close>

definition encode :: "command \<Rightarrow> bytes \<Rightarrow> bytes \<Rightarrow> bytes result" where
  "encode command key value =
     rbind (throw_if (length key > MAX_KEY_SIZE \<or> length value > MAX_WIRE_VALUE_SIZE)
              (Length_error ''KVCache key or value exceeds protocol limit''))
       (\<lambda>_. let header = \<lparr>h_magic = MAGIC, h_version = VERSION, h_command = command_code command,
                          h_key_len = of_nat (length key), h_value_len = of_nat (length value)\<rparr>
             in rbind (validate header)
                  (\<lambda>_. Inr (be_bytes 2 MAGIC @ [VERSION, h_command header] @
                             be_bytes 4 (h_key_len header) @ be_bytes 4 (h_value_len header) @
                             key @ value)))"

text \<open>The caller supplies at least \<^const>\<open>HEADER_SIZE\<close> bytes.\<close>

definition decodeHeader :: "bytes \<Rightarrow> header" where
  "decodeHeader bs =
     \<lparr>h_magic = be_val (take 2 bs),
      h_version = bs ! 2,
      h_command = bs ! 3,
      h_key_len = be_val (take 4 (drop 4 bs)),
      h_value_len = be_val (take 4 (drop 8 bs))\<rparr>"

definition frame_total :: "header \<Rightarrow> nat" where
  "frame_total h = HEADER_SIZE + unat (h_key_len h) + unat (h_value_len h)"

definition frame_key :: "header \<Rightarrow> bytes \<Rightarrow> bytes" where
  "frame_key h bs = take (unat (h_key_len h)) (drop HEADER_SIZE bs)"

definition frame_value :: "header \<Rightarrow> bytes \<Rightarrow> bytes" where
  "frame_value h bs = take (unat (h_value_len h)) (drop (HEADER_SIZE + unat (h_key_len h)) bs)"

text \<open>The frame sizer: 0 asks for more input.\<close>

definition kv_frame_size :: "bytes \<Rightarrow> nat result" where
  "kv_frame_size bs =
     (if length bs < HEADER_SIZE then Inr 0
      else let h = decodeHeader bs in rbind (validate h) (\<lambda>_. Inr (frame_total h)))"

section \<open>Lemmas\<close>

lemma command_of_code [simp]: "command_of (command_code c) = c"
  by (cases c) (simp_all add: command_of_def)

lemma word8_1_6: "\<not> b < (1 :: 8 word) \<Longrightarrow> \<not> b > 6 \<Longrightarrow> b \<in> {1, 2, 3, 4, 5, 6}"
proof -
  assume "\<not> b < 1" and "\<not> b > 6"
  then have "1 \<le> unat b" and "unat b \<le> 6"
    by (simp_all add: word_less_nat_alt not_less)
  then show ?thesis
    by (auto simp: word_unat_eq_iff)
qed

lemma code_command_of: "\<not> b < 1 \<Longrightarrow> \<not> b > 6 \<Longrightarrow> command_code (command_of b) = b"
  using word8_1_6 [of b] by (auto simp: command_of_def)

lemma command_code_range: "c \<noteq> UNKNOWN \<Longrightarrow> \<not> command_code c < 1 \<and> \<not> command_code c > 6"
  by (cases c) (simp_all add: word_less_nat_alt)

lemma unat_of_nat_key: "n \<le> MAX_KEY_SIZE \<Longrightarrow> unat (of_nat n :: 32 word) = n"
  by (simp add: unat_of_nat limit_defs)

lemma unat_of_nat_value: "n \<le> MAX_WIRE_VALUE_SIZE \<Longrightarrow> unat (of_nat n :: 32 word) = n"
  by (simp add: unat_of_nat limit_defs)

lemmas unat_of_nat_limits = unat_of_nat_key unat_of_nat_value

text \<open>The bytes of a frame that \<^const>\<open>encode\<close> built, and when it builds one.\<close>

lemma encode_eq:
  assumes "length k \<le> MAX_KEY_SIZE" and "length v \<le> MAX_WIRE_VALUE_SIZE" and "c \<noteq> UNKNOWN"
  shows "encode c k v = Inr (be_bytes 2 MAGIC @ [VERSION, command_code c] @
           be_bytes 4 (of_nat (length k) :: 32 word) @ be_bytes 4 (of_nat (length v) :: 32 word) @ k @ v)"
  using assms command_code_range [of c]
  by (simp add: encode_def validate_def unat_of_nat_limits)

lemma encode_ok_iff:
  "(\<exists>bs. encode c k v = Inr bs) \<longleftrightarrow>
     length k \<le> MAX_KEY_SIZE \<and> length v \<le> MAX_WIRE_VALUE_SIZE \<and> c \<noteq> UNKNOWN"
proof
  assume "\<exists>bs. encode c k v = Inr bs"
  then show "length k \<le> MAX_KEY_SIZE \<and> length v \<le> MAX_WIRE_VALUE_SIZE \<and> c \<noteq> UNKNOWN"
    by (auto simp: encode_def validate_def)
next
  assume "length k \<le> MAX_KEY_SIZE \<and> length v \<le> MAX_WIRE_VALUE_SIZE \<and> c \<noteq> UNKNOWN"
  then show "\<exists>bs. encode c k v = Inr bs"
    using encode_eq [of k v c] by blast
qed

lemma encodeD:
  assumes "encode c k v = Inr bs"
  shows "length k \<le> MAX_KEY_SIZE" "length v \<le> MAX_WIRE_VALUE_SIZE" "c \<noteq> UNKNOWN"
    and "bs = be_bytes 2 MAGIC @ [VERSION, command_code c] @
           be_bytes 4 (of_nat (length k) :: 32 word) @ be_bytes 4 (of_nat (length v) :: 32 word) @ k @ v"
  using assms encode_ok_iff [of c k v] encode_eq [of k v c] by auto

text \<open>Every list of at least twelve bytes has the header's layout.\<close>

lemma header_layout:
  assumes "HEADER_SIZE \<le> length bs"
  obtains m v c a b r where "bs = m @ [v, c] @ a @ b @ r"
    and "length m = 2" and "length a = 4" and "length b = 4"
proof
  let ?m = "take 2 bs" and ?a = "take 4 (drop 4 bs)" and ?b = "take 4 (drop 8 bs)"
  have "drop 2 bs = bs ! 2 # bs ! 3 # drop 4 bs"
    using assms by (simp add: Cons_nth_drop_Suc [symmetric] limit_defs numeral_eq_Suc)
  moreover have "drop 4 bs = ?a @ drop 8 bs" and "drop 8 bs = ?b @ drop 12 bs"
    by (rule trans [OF append_take_drop_id [symmetric, of _ 4]], simp)+
  ultimately have "drop 2 bs = [bs ! 2, bs ! 3] @ ?a @ ?b @ drop 12 bs"
    by simp
  then show "bs = ?m @ [bs ! 2, bs ! 3] @ ?a @ ?b @ drop 12 bs"
    using append_take_drop_id [of 2 bs] by simp
qed (use assms in \<open>simp_all add: limit_defs\<close>)

lemma decodeHeader_layout:
  assumes "length m = 2" and "length a = 4" and "length b = 4"
  shows "decodeHeader (m @ [v, c] @ a @ b @ r) =
           \<lparr>h_magic = be_val m, h_version = v, h_command = c, h_key_len = be_val a, h_value_len = be_val b\<rparr>"
    and "drop HEADER_SIZE (m @ [v, c] @ a @ b @ r) = r"
  using assms by (simp_all add: decodeHeader_def nth_append drop_Cons' limit_defs)

lemma decodeHeader_encode:
  assumes "encode c k v = Inr bs"
  shows "decodeHeader (bs @ r) =
           \<lparr>h_magic = MAGIC, h_version = VERSION, h_command = command_code c,
            h_key_len = of_nat (length k), h_value_len = of_nat (length v)\<rparr>"
    and "drop HEADER_SIZE (bs @ r) = k @ v @ r"
  using encodeD(4) [OF assms] decodeHeader_layout [of "be_bytes 2 MAGIC"
      "be_bytes 4 (of_nat (length k) :: 32 word)" "be_bytes 4 (of_nat (length v) :: 32 word)"
      VERSION "command_code c" "k @ v @ r"]
  by simp_all

lemma length_encode: "encode c k v = Inr bs \<Longrightarrow> length bs = HEADER_SIZE + length k + length v"
  by (drule encodeD(4)) (simp add: limit_defs)

lemma validate_okD:
  assumes "validate h = Inr ()"
  shows "h_magic h = MAGIC" "h_version h = VERSION" "\<not> h_command h < 1" "\<not> h_command h > 6"
    "unat (h_key_len h) \<le> MAX_KEY_SIZE" "unat (h_value_len h) \<le> MAX_WIRE_VALUE_SIZE"
  using assms by (auto simp: validate_def)

lemma frame_total_le_max: "validate h = Inr () \<Longrightarrow> frame_total h \<le> MAX_FRAME_SIZE"
  using validate_okD(5,6) [of h] by (simp add: frame_total_def MAX_FRAME_SIZE_def)

lemma command_of_valid: "validate h = Inr () \<Longrightarrow> command_of (h_command h) \<noteq> UNKNOWN"
  using word8_1_6 [OF validate_okD(3,4), of h] by (auto simp: command_of_def)

lemma parse_encoded:
  assumes "encode c k v = Inr bs"
  shows "validate (decodeHeader (bs @ r)) = Inr () \<and>
         command_of (h_command (decodeHeader (bs @ r))) = c \<and>
         frame_key (decodeHeader (bs @ r)) (bs @ r) = k \<and>
         frame_value (decodeHeader (bs @ r)) (bs @ r) = v \<and>
         kv_frame_size (bs @ r) = Inr (length bs)"
proof -
  note lim = encodeD(1-3) [OF assms]
  note h = decodeHeader_encode(1) [OF assms, of r] and d = decodeHeader_encode(2) [OF assms, of r]
  have ok: "validate (decodeHeader (bs @ r)) = Inr ()"
    using lim command_code_range [of c] by (simp add: h validate_def unat_of_nat_limits)
  have "drop (HEADER_SIZE + length k) (bs @ r) = v @ r"
    by (simp only: drop_plus d slice_append_exact)
  then show ?thesis
    using lim ok d length_encode [OF assms]
    by (simp add: h frame_key_def frame_value_def kv_frame_size_def frame_total_def unat_of_nat_limits)
qed

text \<open>
  C23. Parsing inverts encoding: the header decoded from the front of an encoded frame, with
  any bytes following it in the receive buffer, passes validation and gives back the command,
  the key and the value, and the frame sizer finds exactly the end of the frame.
\<close>

theorem kv_parse_encode:
  assumes "encode c k v = Inr bs"
  shows "validate (decodeHeader (bs @ r)) = Inr () \<and>
         command_of (h_command (decodeHeader (bs @ r))) = c \<and>
         frame_key (decodeHeader (bs @ r)) (bs @ r) = k \<and>
         frame_value (decodeHeader (bs @ r)) (bs @ r) = v \<and>
         kv_frame_size (bs @ r) = Inr (length bs)"
  using assms by (rule parse_encoded)

theorem kv_parse_encode_witness:
  "encode SET_TTL [107] [1, 2] = Inr [0xCA, 0xFE, 1, 6, 0, 0, 0, 1, 0, 0, 0, 2, 107, 1, 2] \<and>
   kv_frame_size ([0xCA, 0xFE, 1, 6, 0, 0, 0, 1, 0, 0, 0, 2, 107, 1, 2] @ [9, 9]) = Inr 15"
proof -
  have e: "encode SET_TTL [107] [1, 2] = Inr [0xCA, 0xFE, 1, 6, 0, 0, 0, 1, 0, 0, 0, 2, 107, 1, 2]"
    by code_simp
  show ?thesis
    using e kv_parse_encode [OF e, of "[9, 9]"] by simp
qed

text \<open>
  C24. Encoding inverts parsing: a byte string that holds a header accepted by \<^const>\<open>validate\<close>
  and exactly the announced key and value bytes is the encoding of the command, key and value
  read from it, so no two different byte strings parse to the same request.
\<close>

theorem kv_encode_parse:
  assumes "HEADER_SIZE \<le> length bs" and "validate (decodeHeader bs) = Inr ()"
    and "length bs = frame_total (decodeHeader bs)"
  shows "encode (command_of (h_command (decodeHeader bs))) (frame_key (decodeHeader bs) bs)
           (frame_value (decodeHeader bs) bs) = Inr bs"
proof -
  obtain m v c a b r where bs: "bs = m @ [v, c] @ a @ b @ r"
    and len: "length m = 2" "length a = 4" "length b = 4"
    using header_layout [OF assms(1)] .
  note h = decodeHeader_layout [OF len, of v c r, folded bs]
  note ok = validate_okD [OF assms(2)]
  let ?h = "decodeHeader bs" and ?k = "frame_key (decodeHeader bs) bs"
    and ?v = "frame_value (decodeHeader bs) bs"
  have lr: "length r = unat (h_key_len ?h) + unat (h_value_len ?h)"
    using assms(3) len by (simp add: bs frame_total_def limit_defs)
  have kv: "?k @ ?v = r" and lk: "length ?k = unat (h_key_len ?h)" and lv: "length ?v = unat (h_value_len ?h)"
    using lr h(2) by (simp_all add: frame_key_def frame_value_def drop_plus list_split3)
  have "m = be_bytes 2 MAGIC" "a = be_bytes 4 (h_key_len ?h)" "b = be_bytes 4 (h_value_len ?h)"
    using be_bytes_be_val [of m, where 'a = 16] be_bytes_be_val [of a, where 'a = 32]
      be_bytes_be_val [of b, where 'a = 32] len ok(1) h(1) by simp_all
  moreover have "command_of (h_command ?h) \<noteq> UNKNOWN"
    using assms(2) by (rule command_of_valid)
  moreover have "v = VERSION" and "command_code (command_of (h_command ?h)) = c"
    using ok code_command_of [OF ok(3,4)] h(1) by simp_all
  ultimately have "encode (command_of (h_command ?h)) ?k ?v = Inr (m @ [v, c] @ a @ b @ ?k @ ?v)"
    using encode_eq [of ?k ?v "command_of (h_command ?h)"] ok(5,6) lk lv by simp
  then show ?thesis
    by (simp only: kv bs [symmetric])
qed

theorem kv_encode_parse_witness:
  "encode DEL [107, 50] [] = Inr [0xCA, 0xFE, 1, 3, 0, 0, 0, 2, 0, 0, 0, 0, 107, 50]"
proof -
  let ?f = "[0xCA, 0xFE, 1, 3, 0, 0, 0, 2, 0, 0, 0, 0, 107, 50] :: bytes"
  have "HEADER_SIZE \<le> length ?f" and "validate (decodeHeader ?f) = Inr ()"
    and "length ?f = frame_total (decodeHeader ?f)"
    by code_simp+
  from kv_encode_parse [OF this] show ?thesis
    by (simp add: decodeHeader_def frame_key_def frame_value_def command_of_def be_val_def limit_defs)
qed

text \<open>
  \<^const>\<open>encode\<close> returns a frame exactly for a known command with a key of at most 64 KiB
  and a value of at most 1 MiB plus 64 bytes; otherwise it throws, and a frame it returns
  never exceeds the server's frame limit.
\<close>

lemma kv_encode_total:
  "(\<exists>bs. encode c k v = Inr bs \<and> length bs \<le> MAX_FRAME_SIZE) \<longleftrightarrow>
     length k \<le> MAX_KEY_SIZE \<and> length v \<le> MAX_WIRE_VALUE_SIZE \<and> c \<noteq> UNKNOWN"
  using encode_ok_iff [of c k v] length_encode [of c k v]
  by (auto simp: MAX_FRAME_SIZE_def)

end
