(* ===== verification/Aof_Crc.thy ===== *)
theory Aof_Crc
  imports Prelude
begin

text \<open>
  The CRC32 of \<open>KVCache/src/aof.cpp\<close>: the 256-entry table and the table-driven loop. It is
  compared with the bit-serial definition of the checksum (one shift register step per bit,
  reflected polynomial \<open>0xedb88320\<close>), and shown to detect every change of a single byte.
\<close>

section \<open>The program's checksum\<close>

definition crc_shift :: "32 word \<Rightarrow> 32 word" where
  "crc_shift c = drop_bit 1 c XOR (0xedb88320 AND (0 - (c AND 1)))"

definition crc_entry :: "32 word \<Rightarrow> 32 word" where
  "crc_entry i = foldl (\<lambda>c j. crc_shift c) i [0..<8]"

definition crc_table :: "32 word list" where
  "crc_table = map (\<lambda>i. crc_entry (of_nat i)) [0..<256]"

definition crc_byte :: "32 word \<Rightarrow> byte \<Rightarrow> 32 word" where
  "crc_byte crc b = crc_table ! unat ((crc XOR ucast b) AND 255) XOR drop_bit 8 crc"

definition Crc :: "bytes \<Rightarrow> 32 word" where
  "Crc data = NOT (foldl crc_byte (NOT 0) data)"

section \<open>The bit-serial checksum\<close>

text \<open>Feed the byte into the low end of the register, then shift eight times.\<close>

definition ref_byte :: "32 word \<Rightarrow> byte \<Rightarrow> 32 word" where
  "ref_byte crc b = (crc_shift ^^ 8) (crc XOR ucast b)"

definition ref_crc :: "bytes \<Rightarrow> 32 word" where
  "ref_crc data = NOT (foldl ref_byte (NOT 0) data)"

lemma crc_shift_alt:
  "crc_shift c = (if bit c 0 then drop_bit 1 c XOR 0xedb88320 else drop_bit 1 c)"
proof (cases "bit c 0")
  case True
  then have "c AND 1 = 1"
    by (simp add: and_one_eq odd_iff_mod_2_eq_one bit_0)
  with True show ?thesis
    by (simp add: crc_shift_def)
next
  case False
  then have "c AND 1 = 0"
    by (simp add: and_one_eq even_iff_mod_2_eq_zero bit_0)
  with False show ?thesis
    by (simp add: crc_shift_def)
qed

lemma crc_shift_xor: "crc_shift (a XOR b) = crc_shift a XOR crc_shift b"
  by (simp add: crc_shift_alt bit_xor_iff drop_bit_xor ac_simps)

lemma crc_shift_pow_xor: "(crc_shift ^^ n) (a XOR b) = (crc_shift ^^ n) a XOR (crc_shift ^^ n) b"
  by (induction n) (simp_all add: crc_shift_xor)

text \<open>As long as zeros are shifted out the register only shifts.\<close>

lemma crc_shift_pow_zeros:
  "(\<And>i. i < n \<Longrightarrow> \<not> bit c i) \<Longrightarrow> (crc_shift ^^ n) c = drop_bit n c"
proof (induction n)
  case (Suc n)
  then have "(crc_shift ^^ n) c = drop_bit n c" and "\<not> bit c n"
    by simp_all
  then show ?case
    by (simp add: crc_shift_alt [of "drop_bit n c"] bit_drop_bit_eq drop_bit_drop_bit add.commute)
qed simp

lemma foldl_const: "foldl (\<lambda>c j. f c) x xs = (f ^^ length xs) x"
  by (induction xs arbitrary: x) (simp_all add: funpow_swap1)

lemma crc_entry_pow: "crc_entry i = (crc_shift ^^ 8) i"
  by (simp add: crc_entry_def foldl_const)

lemma mask_255: "(255 :: 32 word) = mask 8"
  by (simp add: mask_eq_exp_minus_1)

lemma and_255_less: "unat ((x :: 32 word) AND 255) < 256"
proof -
  have "x AND 255 \<le> 255"
    by (rule word_and_le1)
  then show ?thesis
    by (simp add: word_le_nat_alt)
qed

lemma xor_left_cancel: "(a :: 32 word) XOR x = a XOR y \<longleftrightarrow> x = y"
proof
  assume "a XOR x = a XOR y"
  then have "a XOR (a XOR x) = a XOR (a XOR y)"
    by simp
  then show "x = y"
    by (simp flip: xor.assoc)
qed simp

lemma xor_right_cancel: "(x :: 32 word) XOR a = y XOR a \<longleftrightarrow> x = y"
  by (simp add: xor.commute [of _ a] xor_left_cancel)

lemma crc_table_nth: "crc_table ! unat ((x :: 32 word) AND 255) = (crc_shift ^^ 8) (x AND 255)"
  using and_255_less [of x] by (simp add: crc_table_def crc_entry_pow)

lemma crc_byte_ref: "crc_byte crc b = ref_byte crc b"
proof -
  let ?x = "crc XOR ucast b"
  let ?hi = "?x AND NOT (mask 8)"
  have "?x = (?x AND mask 8) XOR ?hi"
    by (rule bit_word_eqI) (auto simp: bit_simps)
  then have "(crc_shift ^^ 8) ?x = (crc_shift ^^ 8) (?x AND mask 8) XOR (crc_shift ^^ 8) ?hi"
    by (metis crc_shift_pow_xor)
  moreover have "(crc_shift ^^ 8) ?hi = drop_bit 8 ?hi"
    by (rule crc_shift_pow_zeros) (simp add: bit_simps)
  moreover have "drop_bit 8 ?hi = drop_bit 8 crc"
    by (rule bit_word_eqI) (auto simp: bit_simps dest: bit_imp_le_length)
  ultimately show ?thesis
    by (simp add: crc_byte_def ref_byte_def crc_table_nth [unfolded mask_255] mask_255)
qed

section \<open>Injectivity\<close>

lemma crc_shift_inj: "crc_shift a = crc_shift b \<Longrightarrow> a = b"
proof -
  assume eq: "crc_shift a = crc_shift b"
  have top: "bit (crc_shift c) 31 = bit c 0" for c
    by (simp add: crc_shift_alt bit_xor_iff bit_drop_bit_eq bit_numeral_rec)
      (auto dest: bit_imp_le_length)
  have b0: "bit a 0 = bit b 0"
    using top [of a] top [of b] eq by simp
  have "drop_bit 1 a = drop_bit 1 b"
    using eq b0 by (auto simp: crc_shift_alt xor_right_cancel split: if_splits)
  then have "bit a (Suc i) = bit b (Suc i)" for i
    by (metis add.commute bit_drop_bit_eq comp_apply plus_1_eq_Suc)
  with b0 show "a = b"
    by (intro bit_word_eqI) (metis not0_implies_Suc)
qed

lemma crc_shift_pow_inj: "(crc_shift ^^ n) a = (crc_shift ^^ n) b \<Longrightarrow> a = b"
  by (induction n) (auto dest: crc_shift_inj)

lemma ref_byte_inj: "ref_byte c a = ref_byte d a \<Longrightarrow> c = d"
  by (auto simp: ref_byte_def xor_right_cancel dest!: crc_shift_pow_inj)

lemma ucast_byte_inj: "(ucast a :: 32 word) = ucast b \<Longrightarrow> a = (b :: byte)"
  by (rule bit_word_eqI) (auto simp: bit_eq_iff bit_ucast_iff)

lemma foldl_ref_inj: "foldl ref_byte c xs = foldl ref_byte d xs \<Longrightarrow> c = d"
  by (induction xs arbitrary: c d) (auto dest: ref_byte_inj)

text \<open>Up to four bytes fed one after the other act like one word fed at once.\<close>

fun le_word :: "bytes \<Rightarrow> 32 word" where
  "le_word [] = 0"
| "le_word (b # bs) = ucast b XOR push_bit 8 (le_word bs)"

lemma le_word_bound: "bit (le_word bs) i \<Longrightarrow> i < 8 * length bs"
proof (induction bs arbitrary: i)
  case (Cons b bs)
  then have "bit b i \<or> 8 \<le> i \<and> bit (le_word bs) (i - 8)"
    by (auto simp: bit_simps)
  then show ?case
    using Cons.IH [of "i - 8"] by (auto dest: bit_imp_le_length)
qed simp

lemma crc_shift_le_word:
  assumes "length bs \<le> 3"
  shows "(crc_shift ^^ 8) (push_bit 8 (le_word bs)) = le_word bs"
proof -
  have "(crc_shift ^^ 8) (push_bit 8 (le_word bs)) = drop_bit 8 (push_bit 8 (le_word bs))"
    by (rule crc_shift_pow_zeros) (simp add: bit_simps)
  also have "\<dots> = le_word bs"
  proof (rule bit_word_eqI)
    fix n
    show "bit (drop_bit 8 (push_bit 8 (le_word bs))) n = bit (le_word bs) n"
      using assms le_word_bound [of bs n] by (auto simp: bit_simps)
  qed
  finally show ?thesis .
qed

lemma foldl_ref_word:
  "length bs \<le> 4 \<Longrightarrow> foldl ref_byte c bs = (crc_shift ^^ (8 * length bs)) (c XOR le_word bs)"
proof (induction bs arbitrary: c)
  case (Cons b bs)
  have "foldl ref_byte c (b # bs) = (crc_shift ^^ (8 * length bs)) (ref_byte c b XOR le_word bs)"
    using Cons by simp
  also have "ref_byte c b XOR le_word bs = (crc_shift ^^ 8) (c XOR le_word (b # bs))"
    using Cons.prems by (simp add: ref_byte_def crc_shift_pow_xor crc_shift_le_word xor.assoc)
  finally show ?case
    by (simp add: funpow_add add.commute [of 8])
qed simp

lemma le_word_inj: "length u = length v \<Longrightarrow> length u \<le> 4 \<Longrightarrow> le_word u = le_word v \<Longrightarrow> u = v"
proof (induction u v rule: list_induct2)
  case (Cons a u b v)
  have eq: "bit (le_word (a # u)) i = bit (le_word (b # v)) i" for i
    using Cons.prems by simp
  have "a = b"
  proof (rule bit_word_eqI)
    fix n
    assume "n < LENGTH(8)"
    then show "bit a n = bit b n"
      using eq [of n] by (simp add: bit_simps)
  qed
  moreover have "le_word u = le_word v"
  proof (rule bit_word_eqI)
    fix n
    show "bit (le_word u) n = bit (le_word v) n"
      using eq [of "n + 8"] le_word_bound [of u n] le_word_bound [of v n] Cons.prems Cons.hyps
      by (auto simp: bit_simps dest: bit_imp_le_length)
  qed
  ultimately show ?case
    using Cons by simp
qed simp

lemma Crc_burst:
  assumes "length u = length v" and "length u \<le> 4" and "u \<noteq> v"
  shows "Crc (xs @ u @ ys) \<noteq> Crc (xs @ v @ ys)"
proof
  let ?c = "foldl ref_byte (NOT 0) xs"
  assume "Crc (xs @ u @ ys) = Crc (xs @ v @ ys)"
  then have "foldl ref_byte (foldl ref_byte ?c u) ys = foldl ref_byte (foldl ref_byte ?c v) ys"
    by (simp add: Crc_def crc_byte_ref [abs_def])
  then have "(crc_shift ^^ (8 * length v)) (?c XOR le_word u) = (crc_shift ^^ (8 * length v)) (?c XOR le_word v)"
    using assms by (auto simp: foldl_ref_word dest!: foldl_ref_inj)
  then have "le_word u = le_word v"
    by (auto simp: xor_left_cancel dest!: crc_shift_pow_inj)
  then show False
    using assms le_word_inj by blast
qed

lemma Crc_ref: "Crc data = ref_crc data"
  by (simp add: Crc_def ref_crc_def crc_byte_ref [abs_def])

text \<open>
  C31. The table-driven checksum computes the bit-serial CRC32 of every byte string.
\<close>
theorem crc_is_bit_serial: "Crc data = ref_crc data"
  by (rule Crc_ref)

text \<open>
  Damage confined to at most four consecutive bytes of a checksummed string, whatever it
  is, changes the checksum.
\<close>
lemma crc_detects_burst:
  assumes "length u = length v" and "length u \<le> 4" and "u \<noteq> v"
  shows "Crc (xs @ u @ ys) \<noteq> Crc (xs @ v @ ys)"
  using assms by (rule Crc_burst)

end
