(* ===== verification/Posix_Files.thy ===== *)
theory Posix_Files
  imports Prelude "HOL-Library.Sublist"
begin

text \<open>
  The file system the append-only log runs on, and the four helpers of
  \<open>KVCache/src/aof.cpp\<close> that wrap its calls: \<open>ReadExact\<close>, \<open>WriteExact\<close>, \<open>Sync\<close> and
  \<open>SyncDirectory\<close>.

  A \<open>world\<close> holds the outcomes of the system calls still to come (\<open>w_script\<close>): each call
  takes the next one, so every theorem quantifies over all patterns of short transfers,
  interruptions and failures. A program that needs another outcome when the script is used up
  is \<open>Halted\<close>: it is still inside that call, or the machine stopped there.

  A file keeps its bytes and the length of the prefix that an \<open>fsync\<close> has made durable; the
  directory keeps the current and the durable binding of the log's name. After a crash the
  name is bound to one of the two, and the file found there starts with its durable prefix;
  nothing is assumed about what follows that prefix.
\<close>

section \<open>Programs with exceptions that may not return\<close>

datatype 'a io = Done 'a | Throws exn | Halted

definition iobind :: "('s \<Rightarrow> 'a io \<times> 's) \<Rightarrow> ('a \<Rightarrow> 's \<Rightarrow> 'b io \<times> 's) \<Rightarrow> 's \<Rightarrow> 'b io \<times> 's" where
  "iobind p f s = (case p s of (Done x, t) \<Rightarrow> f x t | (Throws e, t) \<Rightarrow> (Throws e, t) | (Halted, t) \<Rightarrow> (Halted, t))"

definition ireturn :: "'a \<Rightarrow> 's \<Rightarrow> 'a io \<times> 's" where
  "ireturn x s = (Done x, s)"

definition of_result :: "'a result \<Rightarrow> 's \<Rightarrow> 'a io \<times> 's" where
  "of_result r s = (case r of Inl e \<Rightarrow> (Throws e, s) | Inr x \<Rightarrow> (Done x, s))"

lemma of_result_simps [simp]: "of_result (Inl e) s = (Throws e, s)" "of_result (Inr x) s = (Done x, s)"
  by (simp_all add: of_result_def)

lemma of_result_eq [simp]:
  "of_result r s = (Done x, t) \<longleftrightarrow> r = Inr x \<and> t = s"
  "of_result r s = (Throws e, t) \<longleftrightarrow> r = Inl e \<and> t = s"
  "of_result r s \<noteq> (Halted, t)"
  by (auto simp: of_result_def split: sum.splits)

lemma ireturn_apply [simp]: "ireturn x s = (Done x, s)"
  by (simp add: ireturn_def)

lemma iobind_simps [simp]:
  "p s = (Done x, t) \<Longrightarrow> iobind p f s = f x t"
  "p s = (Throws e, t) \<Longrightarrow> iobind p f s = (Throws e, t)"
  "p s = (Halted, t) \<Longrightarrow> iobind p f s = (Halted, t)"
  by (simp_all add: iobind_def)

lemma iobind_cases [consumes 1, case_names Throws Halted Done]:
  assumes "iobind p f s = (r, t)"
  obtains e where "p s = (Throws e, t)" and "r = Throws e"
    | "p s = (Halted, t)" and "r = Halted"
    | x u where "p s = (Done x, u)" and "f x u = (r, t)"
  using assms by (auto simp: iobind_def split: prod.splits io.splits)

lemma iobind_Done: "iobind p f s = (Done y, t) \<longleftrightarrow> (\<exists>x u. p s = (Done x, u) \<and> f x u = (Done y, t))"
  by (auto simp: iobind_def split: prod.splits io.splits)

section \<open>Files, directory and system calls\<close>

datatype sysres = Sys_ok nat | Sys_intr | Sys_err

record disk_file =
  f_data :: bytes
  f_synced :: nat

record world =
  w_script :: "sysres list"
  w_files :: "nat \<Rightarrow> disk_file"
  w_next :: nat
  w_name :: "nat option"
  w_name_synced :: "nat option"
  w_pos :: nat

datatype target = File nat | Directory

text \<open>\<open>O_APPEND\<close> writes go to the end of the file.\<close>

definition append_file :: "nat \<Rightarrow> bytes \<Rightarrow> world \<Rightarrow> world" where
  "append_file fd bs w = w\<lparr>w_files := (w_files w)(fd := (w_files w fd)\<lparr>f_data := f_data (w_files w fd) @ bs\<rparr>)\<rparr>"

fun persist :: "target \<Rightarrow> world \<Rightarrow> world" where
  "persist (File fd) w = w\<lparr>w_files := (w_files w)(fd := (w_files w fd)\<lparr>f_synced := length (f_data (w_files w fd))\<rparr>)\<rparr>"
| "persist Directory w = w\<lparr>w_name_synced := w_name w\<rparr>"

definition create_file :: "world \<Rightarrow> nat \<times> world" where
  "create_file w = (w_next w, w\<lparr>w_files := (w_files w)(w_next w := \<lparr>f_data = [], f_synced = 0\<rparr>), w_next := Suc (w_next w)\<rparr>)"

text \<open>A call that the source does not retry: any failure throws.\<close>

definition sys_call :: "exn \<Rightarrow> world \<Rightarrow> unit io \<times> world" where
  "sys_call e w = (case w_script w of
       [] \<Rightarrow> (Halted, w)
     | Sys_ok n # rs \<Rightarrow> (Done (), w\<lparr>w_script := rs\<rparr>)
     | _ # rs \<Rightarrow> (Throws e, w\<lparr>w_script := rs\<rparr>))"

text \<open>
  \<open>while (size) { n = read(fd, data, size); ... }\<close>: \<open>data\<close> is what has been read so far. A
  \<open>read\<close> returns at most what is asked for and at most what the file still holds.
\<close>

function ReadLoop :: "nat \<Rightarrow> bytes \<Rightarrow> nat \<Rightarrow> world \<Rightarrow> bytes io \<times> world" where
  "ReadLoop fd data sz w =
     (if sz = 0 then (Done data, w)
      else case w_script w of
          [] \<Rightarrow> (Halted, w)
        | Sys_intr # rs \<Rightarrow> ReadLoop fd data sz (w\<lparr>w_script := rs\<rparr>)
        | Sys_err # rs \<Rightarrow> (Throws (Runtime_error ''Truncated AOF record''), w\<lparr>w_script := rs\<rparr>)
        | Sys_ok n # rs \<Rightarrow>
            (let got = take (min n sz) (drop (w_pos w) (f_data (w_files w fd))) in
             if got = [] then (Throws (Runtime_error ''Truncated AOF record''), w\<lparr>w_script := rs\<rparr>)
             else ReadLoop fd (data @ got) (sz - length got)
                    (w\<lparr>w_script := rs, w_pos := w_pos w + length got\<rparr>)))"
  by pat_completeness auto
termination
  by (relation "measure (\<lambda>(fd, data, sz, w). length (w_script w))") auto

definition ReadExact :: "nat \<Rightarrow> nat \<Rightarrow> world \<Rightarrow> bytes io \<times> world" where
  "ReadExact fd sz w = ReadLoop fd [] sz w"

function WriteLoop :: "nat \<Rightarrow> bytes \<Rightarrow> nat \<Rightarrow> world \<Rightarrow> unit io \<times> world" where
  "WriteLoop fd data offset w =
     (if \<not> offset < length data then (Done (), w)
      else case w_script w of
          [] \<Rightarrow> (Halted, w)
        | Sys_intr # rs \<Rightarrow> WriteLoop fd data offset (w\<lparr>w_script := rs\<rparr>)
        | Sys_err # rs \<Rightarrow> (Throws (Runtime_error ''AOF write failed''), w\<lparr>w_script := rs\<rparr>)
        | Sys_ok k # rs \<Rightarrow>
            (let n = min k (length data - offset) in
             if n = 0 then (Throws (Runtime_error ''AOF write failed''), w\<lparr>w_script := rs\<rparr>)
             else WriteLoop fd data (offset + n)
                    (append_file fd (take n (drop offset data)) (w\<lparr>w_script := rs\<rparr>))))"
  by pat_completeness auto
termination
  by (relation "measure (\<lambda>(fd, data, offset, w). length (w_script w))") (auto simp: append_file_def)

definition WriteExact :: "nat \<Rightarrow> bytes \<Rightarrow> world \<Rightarrow> unit io \<times> world" where
  "WriteExact fd data w = WriteLoop fd data 0 w"

text \<open>A successful \<open>fsync\<close> carries the time the loop took, in microseconds.\<close>

function Sync :: "target \<Rightarrow> world \<Rightarrow> nat io \<times> world" where
  "Sync t w = (case w_script w of
       [] \<Rightarrow> (Halted, w)
     | Sys_intr # rs \<Rightarrow> Sync t (w\<lparr>w_script := rs\<rparr>)
     | Sys_err # rs \<Rightarrow> (Throws (Runtime_error ''AOF fsync failed''), w\<lparr>w_script := rs\<rparr>)
     | Sys_ok us # rs \<Rightarrow> (Done us, persist t (w\<lparr>w_script := rs\<rparr>)))"
  by pat_completeness auto
termination
  by (relation "measure (\<lambda>(t, w). length (w_script w))") auto

definition SyncDirectory :: "world \<Rightarrow> unit io \<times> world" where
  "SyncDirectory =
     iobind (sys_call (Runtime_error ''Cannot open AOF directory''))
       (\<lambda>_. iobind (Sync Directory) (\<lambda>_. ireturn ()))"

declare ReadLoop.simps [simp del] WriteLoop.simps [simp del] Sync.simps [simp del]

text \<open>What a restart may find under the log's name.\<close>

definition durable :: "disk_file \<Rightarrow> bytes" where
  "durable f = take (f_synced f) (f_data f)"

definition crash_image :: "world \<Rightarrow> bytes \<Rightarrow> bool" where
  "crash_image w d \<longleftrightarrow> (\<exists>nm \<in> {w_name w, w_name_synced w}.
     case nm of None \<Rightarrow> d = [] | Some i \<Rightarrow> prefix (durable (w_files w i)) d)"

section \<open>What the helpers do to the world\<close>

lemma sys_call_effect:
  "sys_call e w = (r, w') \<Longrightarrow> \<exists>rs. w' = w\<lparr>w_script := rs\<rparr> \<and> (r = Done () \<or> r = Throws e \<or> r = Halted)"
  by (auto simp: sys_call_def split: list.splits sysres.splits intro: exI [of _ "w_script w"])

lemma append_file_Nil [simp]: "append_file fd [] w = w"
  by (simp add: append_file_def)

lemma append_file_twice:
  "append_file fd ys ((append_file fd xs w)\<lparr>w_script := rs\<rparr>) = append_file fd (xs @ ys) (w\<lparr>w_script := rs\<rparr>)"
  by (simp add: append_file_def)

lemma script_same [simp]: "w\<lparr>w_script := w_script w\<rparr> = w"
  by simp

text \<open>One iteration of each loop.\<close>

lemma WriteLoop_steps:
  "\<not> off < length data \<Longrightarrow> WriteLoop fd data off w = (Done (), w)"
  "off < length data \<Longrightarrow> w_script w = [] \<Longrightarrow> WriteLoop fd data off w = (Halted, w)"
  "off < length data \<Longrightarrow> w_script w = Sys_intr # rs \<Longrightarrow> WriteLoop fd data off w = WriteLoop fd data off (w\<lparr>w_script := rs\<rparr>)"
  "off < length data \<Longrightarrow> w_script w = Sys_err # rs \<or> w_script w = Sys_ok 0 # rs \<Longrightarrow>
     WriteLoop fd data off w = (Throws (Runtime_error ''AOF write failed''), w\<lparr>w_script := rs\<rparr>)"
  "off < length data \<Longrightarrow> w_script w = Sys_ok (Suc k) # rs \<Longrightarrow>
     WriteLoop fd data off w =
       (let n = min (Suc k) (length data - off) in
        WriteLoop fd data (off + n) (append_file fd (take n (drop off data)) (w\<lparr>w_script := rs\<rparr>)))"
  by (auto simp: WriteLoop.simps [of fd data off w] Let_def)

lemma sysres_cases:
  obtains "x = Sys_intr" | "x = Sys_err \<or> x = Sys_ok 0" | k where "x = Sys_ok (Suc k)"
  by (metis sysres.exhaust not0_implies_Suc)

lemma WriteLoop_effect:
  "WriteLoop fd data off w = (r, w') \<Longrightarrow>
     \<exists>m rs. w' = append_file fd (take m (drop off data)) (w\<lparr>w_script := rs\<rparr>) \<and>
       (r = Done () \<and> drop (off + m) data = [] \<or> r = Halted \<or> r = Throws (Runtime_error ''AOF write failed''))"
proof (induction "w_script w" arbitrary: off w)
  case Nil
  then show ?case
    by (cases "off < length data") (auto simp: WriteLoop_steps intro!: exI [of _ 0] exI [of _ "w_script w"])
next
  case (Cons x rs)
  note sc = Cons.hyps(2) [symmetric]
  show ?case
  proof (cases "off < length data")
    case False
    with Cons.prems show ?thesis
      by (auto simp: WriteLoop_steps intro!: exI [of _ 0] exI [of _ "w_script w"])
  next
    case True
    show ?thesis
    proof (cases x rule: sysres_cases)
      case 1
      with Cons.hyps(1) [of "w\<lparr>w_script := rs\<rparr>" off] Cons.prems sc True show ?thesis
        by (simp add: WriteLoop_steps)
    next
      case 2
      with Cons.prems sc True show ?thesis
        by (auto simp: WriteLoop_steps intro!: exI [of _ 0] exI [of _ rs])
    next
      case (3 k)
      let ?n = "min (Suc k) (length data - off)"
      let ?w = "append_file fd (take ?n (drop off data)) (w\<lparr>w_script := rs\<rparr>)"
      have "WriteLoop fd data (off + ?n) ?w = (r, w')"
        using Cons.prems sc True 3 by (simp add: WriteLoop_steps Let_def)
      then obtain m rs' where "w' = append_file fd (take m (drop (off + ?n) data)) (?w\<lparr>w_script := rs'\<rparr>)"
        and r: "r = Done () \<and> drop (off + ?n + m) data = [] \<or> r = Halted \<or> r = Throws (Runtime_error ''AOF write failed'')"
        using Cons.hyps(1) [of ?w "off + ?n"] by (auto simp: append_file_def)
      then have "w' = append_file fd (take (?n + m) (drop off data)) (w\<lparr>w_script := rs'\<rparr>)"
        by (simp only: append_file_twice take_add drop_plus) simp
      then show ?thesis
        using r by (intro exI [of _ "?n + m"] exI [of _ rs']) (simp add: add.assoc)
    qed
  qed
qed

lemma WriteExact_effect:
  assumes "WriteExact fd data w = (r, w')"
  obtains bs rs where "w' = append_file fd bs (w\<lparr>w_script := rs\<rparr>)" and "prefix bs data"
    and "r = Done () \<and> bs = data \<or> r = Halted \<or> r = Throws (Runtime_error ''AOF write failed'')"
  using WriteLoop_effect [OF assms [unfolded WriteExact_def]]
  by (auto simp: take_is_prefix)

lemma Sync_steps:
  "w_script w = [] \<Longrightarrow> Sync t w = (Halted, w)"
  "w_script w = Sys_intr # rs \<Longrightarrow> Sync t w = Sync t (w\<lparr>w_script := rs\<rparr>)"
  "w_script w = Sys_err # rs \<Longrightarrow> Sync t w = (Throws (Runtime_error ''AOF fsync failed''), w\<lparr>w_script := rs\<rparr>)"
  "w_script w = Sys_ok us # rs \<Longrightarrow> Sync t w = (Done us, persist t (w\<lparr>w_script := rs\<rparr>))"
  by (auto simp: Sync.simps [of t w])

lemma Sync_effect:
  "Sync t w = (r, w') \<Longrightarrow>
     \<exists>rs. (\<exists>us. r = Done us) \<and> w' = persist t (w\<lparr>w_script := rs\<rparr>) \<or>
          (r = Halted \<or> r = Throws (Runtime_error ''AOF fsync failed'')) \<and> w' = w\<lparr>w_script := rs\<rparr>"
proof (induction "w_script w" arbitrary: w)
  case Nil
  then show ?case
    by (auto simp: Sync_steps intro!: exI [of _ "[]"])
next
  case (Cons x rs)
  note sc = Cons.hyps(2) [symmetric]
  show ?case
  proof (cases x)
    case (Sys_ok us)
    with sc Cons.prems show ?thesis
      by (auto simp: Sync_steps intro!: exI [of _ rs])
  next
    case Sys_intr
    with sc Cons.prems Cons.hyps(1) [of "w\<lparr>w_script := rs\<rparr>"] show ?thesis
      by (simp add: Sync_steps)
  next
    case Sys_err
    with sc Cons.prems show ?thesis
      by (auto simp: Sync_steps intro!: exI [of _ rs])
  qed
qed

lemma SyncDirectory_effect:
  assumes "SyncDirectory w = (r, w')"
  shows "\<exists>rs. r = Done () \<and> w' = persist Directory (w\<lparr>w_script := rs\<rparr>) \<or>
              (r = Halted \<or> (\<exists>e. r = Throws (Runtime_error e))) \<and> w' = w\<lparr>w_script := rs\<rparr>"
  using assms unfolding SyncDirectory_def
proof (cases rule: iobind_cases)
  case (Done x u)
  then obtain rs where u: "u = w\<lparr>w_script := rs\<rparr>"
    using sys_call_effect by blast
  from Done(2) show ?thesis
    by (cases rule: iobind_cases) (use u in \<open>auto dest!: Sync_effect\<close>)
qed (auto dest!: sys_call_effect)

lemma ReadLoop_steps:
  "ReadLoop fd data 0 w = (Done data, w)"
  "0 < sz \<Longrightarrow> w_script w = [] \<Longrightarrow> ReadLoop fd data sz w = (Halted, w)"
  "0 < sz \<Longrightarrow> w_script w = Sys_intr # rs \<Longrightarrow> ReadLoop fd data sz w = ReadLoop fd data sz (w\<lparr>w_script := rs\<rparr>)"
  "0 < sz \<Longrightarrow> w_script w = Sys_err # rs \<or> w_script w = Sys_ok 0 # rs \<Longrightarrow>
     ReadLoop fd data sz w = (Throws (Runtime_error ''Truncated AOF record''), w\<lparr>w_script := rs\<rparr>)"
  "0 < sz \<Longrightarrow> w_script w = Sys_ok (Suc k) # rs \<Longrightarrow>
     ReadLoop fd data sz w =
       (let got = take (min (Suc k) sz) (drop (w_pos w) (f_data (w_files w fd))) in
        if got = [] then (Throws (Runtime_error ''Truncated AOF record''), w\<lparr>w_script := rs\<rparr>)
        else ReadLoop fd (data @ got) (sz - length got) (w\<lparr>w_script := rs, w_pos := w_pos w + length got\<rparr>))"
  by (auto simp: ReadLoop.simps [of fd data sz w] ReadLoop.simps [of fd data 0 w] Let_def)

lemma ReadLoop_effect:
  assumes "ReadLoop fd data sz w = (r, w')"
  shows "\<exists>p rs. w' = w\<lparr>w_script := rs, w_pos := p\<rparr> \<and>
       (r = Done (data @ take sz (drop (w_pos w) (f_data (w_files w fd)))) \<and> p = w_pos w + sz \<and>
          sz \<le> length (f_data (w_files w fd)) - w_pos w \<or>
        r = Halted \<or> r = Throws (Runtime_error ''Truncated AOF record''))"
  using assms
proof (induction "w_script w" arbitrary: data sz w)
  case Nil
  then show ?case
    by (cases "sz = 0") (auto simp: ReadLoop_steps intro!: exI [of _ "w_pos w"] exI [of _ "[]"])
next
  case (Cons x rs)
  note sc = Cons.hyps(2) [symmetric]
  let ?F = "f_data (w_files w fd)"
  show ?case
  proof (cases "sz = 0")
    case True
    with Cons.prems show ?thesis
      by (auto simp: ReadLoop_steps intro!: exI [of _ "w_pos w"] exI [of _ "w_script w"])
  next
    case False
    show ?thesis
    proof (cases x rule: sysres_cases)
      case 1
      with Cons.hyps(1) [of "w\<lparr>w_script := rs\<rparr>" data sz] Cons.prems sc False show ?thesis
        by (simp add: ReadLoop_steps)
    next
      case 2
      with Cons.prems sc False show ?thesis
        by (auto simp: ReadLoop_steps intro!: exI [of _ "w_pos w"] exI [of _ rs])
    next
      case (3 k)
      define got where "got = take (min (Suc k) sz) (drop (w_pos w) ?F)"
      have step: "ReadLoop fd data sz w =
          (if got = [] then (Throws (Runtime_error ''Truncated AOF record''), w\<lparr>w_script := rs\<rparr>)
           else ReadLoop fd (data @ got) (sz - length got) (w\<lparr>w_script := rs, w_pos := w_pos w + length got\<rparr>))"
        using sc False 3 unfolding got_def by (subst ReadLoop_steps(5)) (simp_all only: Let_def neq0_conv)
      show ?thesis
      proof (cases "got = []")
        case True
        with step Cons.prems show ?thesis
          by (auto intro!: exI [of _ "w_pos w"] exI [of _ rs])
      next
        case ne: False
        have len: "length got \<le> sz" "length got \<le> length ?F - w_pos w"
          by (auto simp: got_def)
        have split: "got @ take (sz - length got) (drop (w_pos w + length got) ?F) = take sz (drop (w_pos w) ?F)"
          unfolding drop_plus got_def by (rule take_chunk) simp
        show ?thesis
          using Cons.hyps(1) [of "w\<lparr>w_script := rs, w_pos := w_pos w + length got\<rparr>" "data @ got" "sz - length got"]
            step Cons.prems ne len by (auto simp: split)
      qed
    qed
  qed
qed

text \<open>Calls that only read: files and directory are as before.\<close>

definition same_disk :: "world \<Rightarrow> world \<Rightarrow> bool" where
  "same_disk w w' \<longleftrightarrow> w_files w' = w_files w \<and> w_next w' = w_next w \<and> w_name w' = w_name w \<and>
     w_name_synced w' = w_name_synced w"

lemma same_disk_simps [simp]:
  "same_disk w w"
  "same_disk w (w\<lparr>w_script := rs\<rparr>)"
  "same_disk w (w\<lparr>w_pos := p\<rparr>)"
  by (simp_all add: same_disk_def)

lemma same_disk_trans: "same_disk u v \<Longrightarrow> same_disk v w \<Longrightarrow> same_disk u w"
  by (simp add: same_disk_def)

lemma same_diskD:
  "same_disk w w' \<Longrightarrow> w_files w' = w_files w"
  "same_disk w w' \<Longrightarrow> w_name w' = w_name w"
  "same_disk w w' \<Longrightarrow> w_name_synced w' = w_name_synced w"
  "same_disk w w' \<Longrightarrow> w_next w' = w_next w"
  by (auto simp: same_disk_def)

lemma ReadExact_effect:
  assumes "ReadExact fd sz w = (r, w')"
  shows "same_disk w w' \<and>
    (r = Done (take sz (drop (w_pos w) (f_data (w_files w fd)))) \<and> w_pos w' = w_pos w + sz \<and>
       sz \<le> length (f_data (w_files w fd)) - w_pos w \<or>
     r = Halted \<or> r = Throws (Runtime_error ''Truncated AOF record''))"
  using ReadLoop_effect [OF assms [unfolded ReadExact_def]] by (auto simp: same_disk_def)

section \<open>Progress\<close>

text \<open>
  A script with no hard failure, in which every transfer moves something, and with at least
  \<open>n\<close> calls that are not interrupted.
\<close>

definition healthy :: "nat \<Rightarrow> sysres list \<Rightarrow> bool" where
  "healthy n rs \<longleftrightarrow> Sys_err \<notin> set rs \<and> Sys_ok 0 \<notin> set rs \<and> n \<le> length (filter (\<lambda>r. r \<noteq> Sys_intr) rs)"

lemma healthy_simps [simp]:
  "healthy (Suc n) [] = False"
  "healthy n (Sys_intr # rs) = healthy n rs"
  "healthy n (Sys_err # rs) = False"
  "healthy n (Sys_ok k # rs) \<longleftrightarrow> k \<noteq> 0 \<and> healthy (n - 1) rs"
  by (auto simp: healthy_def)

lemma healthy_mono: "healthy n rs \<Longrightarrow> m \<le> n \<Longrightarrow> healthy m rs"
  by (simp add: healthy_def)

lemma WriteLoop_healthy:
  "healthy (length data - off + k) (w_script w) \<Longrightarrow>
     \<exists>w'. WriteLoop fd data off w = (Done (), w') \<and> healthy k (w_script w')"
proof (induction "w_script w" arbitrary: off w)
  case Nil
  then show ?case
    by (cases "off < length data") (auto simp: WriteLoop_steps healthy_def)
next
  case (Cons x rs)
  note sc = Cons.hyps(2) [symmetric]
  show ?case
  proof (cases "off < length data")
    case False
    with Cons.prems show ?thesis
      by (simp add: WriteLoop_steps)
  next
    case True
    show ?thesis
    proof (cases x rule: sysres_cases)
      case 1
      with Cons.hyps(1) [of "w\<lparr>w_script := rs\<rparr>" off] Cons.prems sc True show ?thesis
        by (simp add: WriteLoop_steps flip: sc)
    next
      case 2
      with Cons.prems show ?thesis
        by (auto simp flip: Cons.hyps(2))
    next
      case (3 j)
      let ?n = "min (Suc j) (length data - off)"
      have "healthy (length data - (off + ?n) + k) rs"
        using Cons.prems 3 True by (auto simp flip: Cons.hyps(2) elim!: healthy_mono)
      then show ?thesis
        using Cons.hyps(1) [of "append_file fd (take ?n (drop off data)) (w\<lparr>w_script := rs\<rparr>)" "off + ?n"] 3 sc True
        by (simp add: WriteLoop_steps Let_def append_file_def)
    qed
  qed
qed

lemma WriteExact_healthy:
  "healthy (length data + k) (w_script w) \<Longrightarrow>
     \<exists>w'. WriteExact fd data w = (Done (), w') \<and> healthy k (w_script w')"
  using WriteLoop_healthy [of data 0] by (simp add: WriteExact_def)

lemma persist_script [simp]: "w_script (persist t w) = w_script w"
  by (cases t) simp_all

lemma Sync_healthy:
  "healthy (Suc k) (w_script w) \<Longrightarrow> \<exists>us w'. Sync t w = (Done us, w') \<and> healthy k (w_script w')"
proof (induction "w_script w" arbitrary: w)
  case Nil
  then show ?case
    by simp
next
  case (Cons x rs)
  then show ?case
    by (cases x) (auto simp: Sync_steps simp flip: Cons.hyps(2))
qed

lemma ReadLoop_healthy:
  "healthy (sz + k) (w_script w) \<Longrightarrow> sz \<le> length (f_data (w_files w fd)) - w_pos w \<Longrightarrow>
     \<exists>bs w'. ReadLoop fd data sz w = (Done bs, w') \<and> healthy k (w_script w')"
proof (induction "w_script w" arbitrary: data sz w)
  case Nil
  then show ?case
    by (cases sz) (auto simp: ReadLoop_steps)
next
  case (Cons x rs)
  note sc = Cons.hyps(2) [symmetric]
  show ?case
  proof (cases "sz = 0")
    case True
    with Cons.prems show ?thesis
      by (simp add: ReadLoop_steps)
  next
    case False
    show ?thesis
    proof (cases x rule: sysres_cases)
      case 1
      with Cons.hyps(1) [of "w\<lparr>w_script := rs\<rparr>" sz data] Cons.prems sc False show ?thesis
        by (simp add: ReadLoop_steps flip: sc)
    next
      case 2
      with Cons.prems show ?thesis
        by (auto simp flip: Cons.hyps(2))
    next
      case (3 j)
      let ?F = "f_data (w_files w fd)"
      define got where "got = take (min (Suc j) sz) (drop (w_pos w) ?F)"
      have step: "ReadLoop fd data sz w =
          (if got = [] then (Throws (Runtime_error ''Truncated AOF record''), w\<lparr>w_script := rs\<rparr>)
           else ReadLoop fd (data @ got) (sz - length got) (w\<lparr>w_script := rs, w_pos := w_pos w + length got\<rparr>))"
        using sc False 3 unfolding got_def by (subst ReadLoop_steps(5)) (simp_all only: Let_def neq0_conv)
      have len: "length got = min (Suc j) sz"
        using Cons.prems(2) by (simp add: got_def)
      with False have ne: "got \<noteq> []"
        by auto
      have "healthy (sz - length got + k) rs"
        using Cons.prems(1) 3 False len by (auto simp flip: Cons.hyps(2) elim!: healthy_mono)
      then show ?thesis
        using Cons.hyps(1) [of "w\<lparr>w_script := rs, w_pos := w_pos w + length got\<rparr>" "sz - length got" "data @ got"]
          step ne len Cons.prems(2) by simp
    qed
  qed
qed

lemma ReadExact_healthy:
  "healthy (sz + k) (w_script w) \<Longrightarrow> sz \<le> length (f_data (w_files w fd)) - w_pos w \<Longrightarrow>
     \<exists>bs w'. ReadExact fd sz w = (Done bs, w') \<and> healthy k (w_script w')"
  unfolding ReadExact_def by (rule ReadLoop_healthy)

end
