(* ===== verification/Aof_Log.thy ===== *)
theory Aof_Log
  imports Kv_Protocol Aof_Crc Posix_Files
begin

text \<open>
  The append-only log of \<open>KVCache/include/aof.h\<close> and \<open>KVCache/src/aof.cpp\<close>: the record
  format, the logger's state and its methods \<open>start\<close>, \<open>stop\<close>, \<open>stats\<close>, \<open>log\<close>,
  \<open>needsRewrite\<close>, \<open>logBatch\<close>, \<open>rewrite\<close> and \<open>replay\<close>, on the file system of
  \<open>Posix_Files\<close>. The logger's mutex makes every method atomic, so a method is one function
  on the logger and the world.
\<close>

section \<open>Records\<close>

record mutation =
  m_command :: command
  m_key :: bytes
  m_value :: bytes

definition AOF2 :: bytes where
  "AOF2 = [0x41, 0x4F, 0x46, 0x32]"

definition Encode :: "mutation \<Rightarrow> bytes result" where
  "Encode m =
     rbind (throw_if ((m_command m \<noteq> SET \<and> m_command m \<noteq> DEL \<and> m_command m \<noteq> SET_TTL) \<or>
                      (m_command m = DEL \<and> m_value m \<noteq> []))
              (Invalid_argument ''Invalid AOF mutation''))
       (\<lambda>_. rbind (encode (m_command m) (m_key m) (m_value m))
         (\<lambda>payload. Inr (AOF2 @ be_bytes 4 (of_nat (length payload) :: 32 word) @ be_bytes 4 (Crc payload) @ payload)))"

fun SizeFrom :: "nat \<Rightarrow> mutation list \<Rightarrow> nat result" where
  "SizeFrom acc [] = Inr acc"
| "SizeFrom acc (m # ms) = rbind (Encode m) (\<lambda>bs. SizeFrom (sz_add acc (length bs)) ms)"

definition Size :: "mutation list \<Rightarrow> nat result" where
  "Size ms = SizeFrom 0 ms"

section \<open>The logger\<close>

record aof_stats =
  as_records :: nat
  as_syncs :: nat
  as_bytes :: nat
  as_rewrites :: nat
  as_sync_us :: nat

record aof =
  a_fd :: nat
  a_bytes :: nat
  a_rewritten_at :: nat
  a_max_bytes :: nat
  a_failed :: bool
  a_started :: bool
  a_stats :: aof_stats

definition open_log :: "world \<Rightarrow> nat io \<times> world" where
  "open_log = iobind (sys_call (Runtime_error ''Cannot open AOF''))
     (\<lambda>_ w. case w_name w of
          Some i \<Rightarrow> (Done i, w)
        | None \<Rightarrow> (let (i, w') = create_file w in (Done i, w'\<lparr>w_name := Some i\<rparr>)))"

definition aof_new :: "nat \<Rightarrow> world \<Rightarrow> aof io \<times> world" where
  "aof_new max_bytes =
     iobind (sys_call (Runtime_error ''Cannot open AOF lock'')) (\<lambda>_.
     iobind (sys_call (Runtime_error ''AOF already in use'')) (\<lambda>_.
     iobind open_log (\<lambda>fd.
     iobind (sys_call (Runtime_error ''AOF already in use'')) (\<lambda>_.
     iobind (sys_call (Runtime_error ''Invalid AOF file or size limit'')) (\<lambda>_ w.
       (let size = length (f_data (w_files w fd)) in
        iobind (of_result (throw_if (size > max_bytes) (Runtime_error ''Invalid AOF file or size limit''))) (\<lambda>_.
        iobind SyncDirectory (\<lambda>_.
        ireturn \<lparr>a_fd = fd, a_bytes = size, a_rewritten_at = 0, a_max_bytes = max_bytes, a_failed = False,
                 a_started = False,
                 a_stats = \<lparr>as_records = 0, as_syncs = 0, as_bytes = size, as_rewrites = 0, as_sync_us = 0\<rparr>\<rparr>)) w))))))"

definition aof_start :: "aof \<Rightarrow> aof" where
  "aof_start a = a\<lparr>a_started := True\<rparr>"

definition aof_stop :: "aof \<Rightarrow> aof" where
  "aof_stop a = a\<lparr>a_started := False\<rparr>"

definition aof_getStats :: "aof \<Rightarrow> aof_stats" where
  "aof_getStats a = a_stats a"

definition needsRewrite :: "mutation list \<Rightarrow> aof \<Rightarrow> bool result" where
  "needsRewrite ms a =
     (if ms = [] then Inr False
      else rbind (Size ms) (\<lambda>size.
        Inr (size > sz_sub (a_max_bytes a) (a_bytes a) \<or>
             a_bytes a > a_max_bytes a div 2 \<and> sz_sub (a_bytes a) (a_rewritten_at a) > a_max_bytes a div 4)))"

fun WriteMutations :: "nat \<Rightarrow> mutation list \<Rightarrow> world \<Rightarrow> unit io \<times> world" where
  "WriteMutations fd [] = ireturn ()"
| "WriteMutations fd (m # ms) =
     iobind (of_result (Encode m)) (\<lambda>bs. iobind (WriteExact fd bs) (\<lambda>_. WriteMutations fd ms))"

definition logBatch :: "mutation list \<Rightarrow> aof \<Rightarrow> world \<Rightarrow> unit io \<times> aof \<times> world" where
  "logBatch ms a w =
     (if ms = [] then (Done (), a, w)
      else if \<not> a_started a \<or> a_failed a then (Throws (Runtime_error ''AOF unavailable''), a, w)
      else case Size ms of
          Inl e \<Rightarrow> (Throws e, a, w)
        | Inr sz \<Rightarrow>
            if sz > sz_sub (a_max_bytes a) (a_bytes a)
            then (Throws (Aof_capacity_error ''AOF capacity exceeded after compaction''), a, w)
            else (case iobind (WriteMutations (a_fd a) ms) (\<lambda>_. Sync (File (a_fd a))) w of
                (Halted, w') \<Rightarrow> (Halted, a, w')
              | (Throws e, w') \<Rightarrow> (Throws e, a\<lparr>a_failed := True\<rparr>, w')
              | (Done us, w') \<Rightarrow>
                  (let bytes' = sz_add (a_bytes a) sz; st = a_stats a in
                   (Done (), a\<lparr>a_bytes := bytes',
                               a_stats := st\<lparr>as_sync_us := sz_add (as_sync_us st) us, as_bytes := bytes',
                                             as_records := sz_add (as_records st) (length ms),
                                             as_syncs := sz_add (as_syncs st) 1\<rparr>\<rparr>, w'))))"

definition aof_log :: "command \<Rightarrow> bytes \<Rightarrow> bytes \<Rightarrow> aof \<Rightarrow> world \<Rightarrow> unit io \<times> aof \<times> world" where
  "aof_log c k v = logBatch [\<lparr>m_command = c, m_key = k, m_value = v\<rparr>]"

text \<open>\<open>mkstemp\<close>: a new empty file under a name of its own.\<close>

definition make_temp :: "world \<Rightarrow> nat io \<times> world" where
  "make_temp = iobind (sys_call (Runtime_error ''Cannot create AOF rewrite''))
     (\<lambda>_ w. case create_file w of (i, w') \<Rightarrow> (Done i, w'))"

definition rename_to_log :: "nat \<Rightarrow> world \<Rightarrow> unit io \<times> world" where
  "rename_to_log i = iobind (sys_call (Runtime_error ''Cannot publish AOF rewrite''))
     (\<lambda>_ w. (Done (), w\<lparr>w_name := Some i\<rparr>))"

text \<open>The part of the \<open>try\<close> block before \<open>renamed = true\<close>.\<close>

definition publish :: "nat \<Rightarrow> mutation list \<Rightarrow> world \<Rightarrow> unit io \<times> world" where
  "publish replacement snapshot =
     iobind (sys_call (Runtime_error ''Cannot lock AOF replacement'')) (\<lambda>_.
     iobind (WriteMutations replacement snapshot) (\<lambda>_.
     iobind (Sync (File replacement)) (\<lambda>_.
     rename_to_log replacement)))"

definition rewrite :: "mutation list \<Rightarrow> aof \<Rightarrow> world \<Rightarrow> unit io \<times> aof \<times> world" where
  "rewrite snapshot a w =
     (if a_failed a then (Throws (Runtime_error ''AOF unavailable''), a, w)
      else case Size snapshot of
          Inl e \<Rightarrow> (Throws e, a, w)
        | Inr sz \<Rightarrow>
            if sz > a_max_bytes a then (Throws (Aof_capacity_error ''Snapshot exceeds AOF limit''), a, w)
            else (case make_temp w of
                (Halted, w1) \<Rightarrow> (Halted, a, w1)
              | (Throws e, w1) \<Rightarrow> (Throws e, a, w1)
              | (Done replacement, w1) \<Rightarrow>
                  (case publish replacement snapshot w1 of
                      (Halted, w2) \<Rightarrow> (Halted, a, w2)
                    | (Throws e, w2) \<Rightarrow> (Throws e, a, w2)
                    | (Done _, w2) \<Rightarrow>
                        (let st = a_stats a;
                             a' = a\<lparr>a_fd := replacement, a_bytes := sz, a_rewritten_at := sz,
                                    a_stats := st\<lparr>as_bytes := sz, as_rewrites := sz_add (as_rewrites st) 1\<rparr>\<rparr>
                         in case SyncDirectory w2 of
                              (Halted, w3) \<Rightarrow> (Halted, a', w3)
                            | (Throws e, w3) \<Rightarrow> (Throws e, a'\<lparr>a_failed := True\<rparr>, w3)
                            | (Done _, w3) \<Rightarrow> (Done (), a', w3)))))"

section \<open>Replay\<close>

text \<open>
  The payload that follows a 12-byte record header, and how many bytes of the log remain
  after it. A version-1 record has no header of its own: the twelve bytes are the frame's.
\<close>

definition ReadPayload :: "nat \<Rightarrow> bytes \<Rightarrow> nat \<Rightarrow> world \<Rightarrow> (bytes \<times> nat) io \<times> world" where
  "ReadPayload fd header remaining =
     (if take 4 header = AOF2
      then let len = unat (be_val (take 4 (drop 4 header)) :: 32 word);
               crc = be_val (take 4 (drop 8 header)) :: 32 word
           in iobind (of_result (throw_if (len < HEADER_SIZE \<or> len > MAX_FRAME_SIZE \<or> len > remaining)
                        (Runtime_error ''Invalid AOF record length''))) (\<lambda>_.
              iobind (ReadExact fd len) (\<lambda>payload.
              iobind (of_result (throw_if (Crc payload \<noteq> crc) (Runtime_error ''AOF checksum mismatch''))) (\<lambda>_.
              ireturn (payload, remaining - len))))
      else let h = decodeHeader header;
               len = unat (h_key_len h) + unat (h_value_len h)
           in iobind (of_result (validate h)) (\<lambda>_.
              iobind (of_result (throw_if (len > remaining) (Runtime_error ''Truncated legacy AOF''))) (\<lambda>_.
              iobind (ReadExact fd len) (\<lambda>body.
              ireturn (header @ body, remaining - len)))))"

definition check_record :: "bytes \<Rightarrow> mutation result" where
  "check_record payload =
     (let h = decodeHeader payload in
      rbind (validate h) (\<lambda>_.
      rbind (throw_if (frame_total h \<noteq> length payload \<or>
               (h_command h \<noteq> command_code SET \<and> h_command h \<noteq> command_code DEL \<and> h_command h \<noteq> command_code SET_TTL) \<or>
               (h_command h = command_code DEL \<and> h_value_len h \<noteq> 0))
              (Runtime_error ''Invalid AOF operation'')) (\<lambda>_.
      Inr \<lparr>m_command = command_of (h_command h), m_key = frame_key h payload, m_value = frame_value h payload\<rparr>)))"

lemma ReadPayload_remaining:
  "ReadPayload fd header remaining w = (Done (payload, remaining'), w') \<Longrightarrow> remaining' \<le> remaining"
  by (auto simp: ReadPayload_def Let_def iobind_Done ireturn_def split: if_splits)

text \<open>One round of the loop up to the callback.\<close>

definition ReplayRecord :: "nat \<Rightarrow> nat \<Rightarrow> world \<Rightarrow> (mutation \<times> nat) io \<times> world" where
  "ReplayRecord fd remaining =
     iobind (of_result (throw_if (remaining < HEADER_SIZE) (Runtime_error ''Truncated AOF header''))) (\<lambda>_.
     iobind (ReadExact fd 12) (\<lambda>header.
     iobind (ReadPayload fd header (remaining - 12)) (\<lambda>(payload, remaining').
     iobind (of_result (check_record payload)) (\<lambda>m.
     ireturn (m, remaining')))))"

lemma ReplayRecord_remaining:
  "ReplayRecord fd remaining w = (Done (m, remaining'), w') \<Longrightarrow> 0 < remaining \<Longrightarrow> remaining' < remaining"
  by (auto simp: ReplayRecord_def iobind_Done HEADER_SIZE_def dest!: ReadPayload_remaining)

type_synonym 's callback = "mutation \<Rightarrow> 's \<Rightarrow> unit result \<times> 's"

function ReplayLoop :: "'s callback \<Rightarrow> nat \<Rightarrow> nat \<Rightarrow> 's \<Rightarrow> world \<Rightarrow> unit io \<times> 's \<times> world" where
  "ReplayLoop cb fd remaining s w =
     (if remaining = 0 then (Done (), s, w)
      else case ReplayRecord fd remaining w of
          (Halted, w1) \<Rightarrow> (Halted, s, w1)
        | (Throws e, w1) \<Rightarrow> (Throws e, s, w1)
        | (Done (m, remaining'), w1) \<Rightarrow>
            (case cb m s of
                (Inl e, s') \<Rightarrow> (Throws e, s', w1)
              | (Inr _, s') \<Rightarrow> ReplayLoop cb fd remaining' s' w1))"
  by pat_completeness auto
termination
  by (relation "measure (\<lambda>(cb, fd, remaining, s, w). remaining)") (auto dest!: ReplayRecord_remaining [OF sym])

declare ReplayLoop.simps [simp del]

definition replay :: "'s callback \<Rightarrow> aof \<Rightarrow> 's \<Rightarrow> world \<Rightarrow> unit io \<times> 's \<times> world" where
  "replay cb a s w =
     (if a_started a then (Throws (Logic_error ''Replay must precede start''), s, w)
      else case sys_call (Runtime_error ''Cannot seek AOF'') w of
          (Halted, w1) \<Rightarrow> (Halted, s, w1)
        | (Throws e, w1) \<Rightarrow> (Throws e, s, w1)
        | (Done _, w1) \<Rightarrow> ReplayLoop cb (a_fd a) (a_bytes a) s (w1\<lparr>w_pos := 0\<rparr>))"

section \<open>The log as a sequence of records\<close>

text \<open>The bytes of the log without the file system: what \<^const>\<open>ReplayLoop\<close> parses.\<close>

definition take_payload :: "bytes \<Rightarrow> bytes \<Rightarrow> (bytes \<times> bytes) option" where
  "take_payload header rest =
     (if take 4 header = AOF2
      then let len = unat (be_val (take 4 (drop 4 header)) :: 32 word) in
           if len < HEADER_SIZE \<or> len > MAX_FRAME_SIZE \<or> len > length rest \<or>
              Crc (take len rest) \<noteq> be_val (take 4 (drop 8 header)) then None
           else Some (take len rest, drop len rest)
      else let h = decodeHeader header; len = unat (h_key_len h) + unat (h_value_len h) in
           if validate h \<noteq> Inr () \<or> len > length rest then None
           else Some (header @ take len rest, drop len rest))"

definition parse_record :: "bytes \<Rightarrow> (mutation \<times> bytes) option" where
  "parse_record bs =
     (if length bs < HEADER_SIZE then None
      else case take_payload (take 12 bs) (drop 12 bs) of
          None \<Rightarrow> None
        | Some (payload, rest) \<Rightarrow>
            (case check_record payload of Inl e \<Rightarrow> None | Inr m \<Rightarrow> Some (m, rest)))"

lemma take_payload_rest: "take_payload header rest = Some (p, r) \<Longrightarrow> length r \<le> length rest"
  by (auto simp: take_payload_def Let_def split: if_splits)

lemma parse_record_rest: "parse_record bs = Some (m, r) \<Longrightarrow> length r < length bs"
  by (auto simp: parse_record_def limit_defs split: if_splits option.splits sum.splits dest!: take_payload_rest)

text \<open>The mutations up to the first unreadable record, and whether the log was read to its end.\<close>

function parse_log :: "bytes \<Rightarrow> mutation list \<times> bool" where
  "parse_log bs =
     (if bs = [] then ([], True)
      else case parse_record bs of
          None \<Rightarrow> ([], False)
        | Some (m, rest) \<Rightarrow> (let (ms, complete) = parse_log rest in (m # ms, complete)))"
  by pat_completeness auto
termination
  by (relation "measure length") (auto dest!: parse_record_rest)

declare parse_log.simps [simp del]

fun replay_all :: "'s callback \<Rightarrow> mutation list \<Rightarrow> 's \<Rightarrow> unit result \<times> 's" where
  "replay_all cb [] s = (Inr (), s)"
| "replay_all cb (m # ms) s = (case cb m s of (Inl e, s') \<Rightarrow> (Inl e, s') | (Inr _, s') \<Rightarrow> replay_all cb ms s')"

definition loggable :: "mutation \<Rightarrow> bool" where
  "loggable m \<longleftrightarrow> m_command m \<in> {SET, DEL, SET_TTL} \<and> (m_command m = DEL \<longrightarrow> m_value m = [])"

text \<open>A record is a checksummed frame, or in a version-1 log the bare frame.\<close>

definition is_record :: "mutation \<Rightarrow> bytes \<Rightarrow> bool" where
  "is_record m bs \<longleftrightarrow> loggable m \<and> (Encode m = Inr bs \<or> encode (m_command m) (m_key m) (m_value m) = Inr bs)"

lemma EncodeD:
  assumes "Encode m = Inr bs"
  obtains p where "encode (m_command m) (m_key m) (m_value m) = Inr p" and "loggable m"
    and "bs = AOF2 @ be_bytes 4 (of_nat (length p) :: 32 word) @ be_bytes 4 (Crc p) @ p"
  using assms by (auto simp: Encode_def loggable_def)

lemma Encode_ok_iff:
  "(\<exists>bs. Encode m = Inr bs) \<longleftrightarrow>
     loggable m \<and> length (m_key m) \<le> MAX_KEY_SIZE \<and> length (m_value m) \<le> MAX_WIRE_VALUE_SIZE"
  using encode_ok_iff [of "m_command m" "m_key m" "m_value m"] by (auto simp: Encode_def loggable_def)

lemma length_Encode: "Encode m = Inr bs \<Longrightarrow> length bs = 24 + length (m_key m) + length (m_value m)"
  by (elim EncodeD) (simp add: AOF2_def length_encode limit_defs)

lemma check_record_encode:
  assumes "encode (m_command m) (m_key m) (m_value m) = Inr p" and "loggable m"
  shows "check_record p = Inr m"
proof -
  note f = parse_encoded [OF assms(1), of "[]", simplified]
  note h = decodeHeader_encode(1) [OF assms(1), of "[]", simplified]
  have "frame_total (decodeHeader p) = length p"
    using f length_encode [OF assms(1)] by (auto simp: kv_frame_size_def Let_def split: if_splits)
  moreover have "m_command m = DEL \<Longrightarrow> h_value_len (decodeHeader p) = 0"
    using assms(2) by (simp add: h loggable_def)
  ultimately show ?thesis
    using f assms(2) unfolding check_record_def Let_def by (auto simp: loggable_def h)
qed

lemma parse_record_Encode:
  assumes "Encode m = Inr bs"
  shows "parse_record (bs @ r) = Some (m, r)"
proof -
  obtain p where p: "encode (m_command m) (m_key m) (m_value m) = Inr p" "loggable m"
    and bs: "bs = AOF2 @ be_bytes 4 (of_nat (length p) :: 32 word) @ be_bytes 4 (Crc p) @ p"
    using assms by (rule EncodeD)
  have len: "HEADER_SIZE \<le> length p" "length p \<le> MAX_FRAME_SIZE"
    using length_encode [OF p(1)] encodeD(1,2) [OF p(1)] by (simp_all add: limit_defs)
  then have "unat (of_nat (length p) :: 32 word) = length p"
    by (simp add: unat_of_nat limit_defs)
  then have "take_payload (take 12 (bs @ r)) (drop 12 (bs @ r)) = Some (p, r)"
    using len by (simp add: take_payload_def bs AOF2_def)
  then show ?thesis
    using check_record_encode [OF p] by (simp add: parse_record_def bs AOF2_def HEADER_SIZE_def)
qed

lemma parse_record_legacy:
  assumes "encode (m_command m) (m_key m) (m_value m) = Inr p" and "loggable m"
  shows "parse_record (p @ r) = Some (m, r)"
proof -
  note f = parse_encoded [OF assms(1), of "[]", simplified]
  note g = decodeHeader_encode(1) [OF assms(1), of "[]", simplified]
  have len: "length p = 12 + length (m_key m) + length (m_value m)"
    using length_encode [OF assms(1)] by (simp add: HEADER_SIZE_def)
  have h: "decodeHeader (take 12 p) = decodeHeader p" and "take 4 p \<noteq> AOF2"
    using encodeD(4) [OF assms(1)] by (simp_all add: decodeHeader_def AOF2_def nth_append MAGIC_def VERSION_def)
  then have "take_payload (take 12 (p @ r)) (drop 12 (p @ r)) = Some (p, r)"
    using len f encodeD(1,2) [OF assms(1)] by (simp add: take_payload_def g unat_of_nat_limits)
  then show ?thesis
    using check_record_encode [OF assms] len by (simp add: parse_record_def HEADER_SIZE_def)
qed

lemma parse_record_is_record: "is_record m bs \<Longrightarrow> parse_record (bs @ r) = Some (m, r)"
  by (auto simp: is_record_def parse_record_Encode parse_record_legacy)

lemma parse_log_Nil [simp]: "parse_log [] = ([], True)"
  by (simp add: parse_log.simps)

lemma parse_log_None: "bs \<noteq> [] \<Longrightarrow> parse_record bs = None \<Longrightarrow> parse_log bs = ([], False)"
  by (simp add: parse_log.simps [of bs])

lemma parse_log_Some:
  "parse_record bs = Some (m, rest) \<Longrightarrow> parse_log bs = (m # fst (parse_log rest), snd (parse_log rest))"
  by (auto simp: parse_log.simps [of bs] split_beta parse_record_def HEADER_SIZE_def split: if_splits)

lemma parse_log_records:
  "list_all2 is_record ms bss \<Longrightarrow> parse_log (concat bss @ r) = (ms @ fst (parse_log r), snd (parse_log r))"
  by (induction ms bss rule: list_all2_induct) (simp_all add: parse_log_Some parse_record_is_record)

text \<open>No proper prefix of a record is a record.\<close>

lemma be_val_of_nat_length: "length p \<le> MAX_FRAME_SIZE \<Longrightarrow> unat (of_nat (length p) :: 32 word) = length p"
  by (simp add: unat_of_nat limit_defs)

lemma parse_record_truncated:
  assumes "is_record m (bs @ t)" and "t \<noteq> []"
  shows "parse_record bs = None"
proof (cases "length bs < HEADER_SIZE")
  case True
  then show ?thesis
    by (simp add: parse_record_def)
next
  case False
  then have 12: "12 \<le> length bs"
    by (simp add: HEADER_SIZE_def)
  then have hd: "take 12 bs = take 12 (bs @ t)"
    by simp
  consider (new) "Encode m = Inr (bs @ t)" | (old) "encode (m_command m) (m_key m) (m_value m) = Inr (bs @ t)"
    using assms(1) by (auto simp: is_record_def)
  then have "take_payload (take 12 bs) (drop 12 bs) = None"
  proof cases
    case new
    then obtain p where p: "encode (m_command m) (m_key m) (m_value m) = Inr p"
      and bs: "bs @ t = AOF2 @ be_bytes 4 (of_nat (length p) :: 32 word) @ be_bytes 4 (Crc p) @ p"
      by (rule EncodeD)
    have "length p \<le> MAX_FRAME_SIZE"
      using length_encode [OF p] encodeD(1,2) [OF p] by (simp add: limit_defs)
    moreover have "length (drop 12 bs) < length p"
      using arg_cong [OF bs, of length] assms(2) 12 by (cases t) (simp_all add: AOF2_def)
    moreover have "take 12 bs = AOF2 @ be_bytes 4 (of_nat (length p) :: 32 word) @ be_bytes 4 (Crc p)"
      using hd by (simp add: bs AOF2_def)
    ultimately show ?thesis
      by (simp add: take_payload_def be_val_of_nat_length AOF2_def)
  next
    case old
    note f = encodeD(4) [OF old]
    have "take 12 bs = be_bytes 2 MAGIC @ [VERSION, command_code (m_command m)] @
        be_bytes 4 (of_nat (length (m_key m)) :: 32 word) @ be_bytes 4 (of_nat (length (m_value m)) :: 32 word)"
      using hd by (simp add: f)
    moreover have "length (drop 12 bs) < length (m_key m) + length (m_value m)"
      using length_encode [OF old] assms(2) 12 by (cases t) (simp_all add: HEADER_SIZE_def)
    ultimately show ?thesis
      using encodeD(1,2) [OF old]
      by (simp add: take_payload_def decodeHeader_def AOF2_def MAGIC_def VERSION_def nth_append unat_of_nat_limits)
  qed
  with False show ?thesis
    by (simp add: parse_record_def)
qed

text \<open>A checksummed record whose payload and checksum field disagree is not a record.\<close>

lemma parse_record_damaged:
  assumes "length crc = 4" and "be_val crc \<noteq> Crc p" and "length p \<le> MAX_FRAME_SIZE"
  shows "parse_record (AOF2 @ be_bytes 4 (of_nat (length p) :: 32 word) @ crc @ p @ r) = None"
  using assms by (simp add: parse_record_def take_payload_def be_val_of_nat_length AOF2_def)

section \<open>Replay reads the records\<close>

lemma ReadPayload_effect:
  fixes fd :: nat and w :: world
  defines "F \<equiv> f_data (w_files w fd)"
  assumes "ReadPayload fd header remaining w = (r, w')" and "w_pos w + remaining = length F"
  shows "same_disk w w' \<and>
    (\<forall>payload rem'. r = Done (payload, rem') \<longrightarrow>
       take_payload header (drop (w_pos w) F) = Some (payload, drop (w_pos w') F) \<and> w_pos w' + rem' = length F)"
proof (cases "take 4 header = AOF2")
  case True
  then show ?thesis
    using assms(2,3) unfolding ReadPayload_def Let_def
    by (auto simp: True F_def take_payload_def throw_if_def add.commute elim!: iobind_cases
        dest!: ReadExact_effect split: if_splits)
next
  case False
  then show ?thesis
    using assms(2,3) unfolding ReadPayload_def Let_def
    by (auto simp: F_def take_payload_def throw_if_def Let_def add.commute elim!: iobind_cases
        dest!: ReadExact_effect split: if_splits)
qed

lemma ReadPayload_healthy:
  fixes fd :: nat and w :: world
  defines "F \<equiv> f_data (w_files w fd)"
  assumes "take_payload header (drop (w_pos w) F) = Some (payload, rest)"
    and "w_pos w + remaining = length F" and "healthy (remaining + k) (w_script w)"
  shows "\<exists>w'. ReadPayload fd header remaining w = (Done (payload, length rest), w') \<and>
           rest = drop (w_pos w') F \<and> healthy (length rest + k) (w_script w')"
proof -
  let ?read = "\<lambda>len. \<exists>w'. ReadExact fd len w = (Done (take len (drop (w_pos w) F)), w') \<and>
      w_pos w' = w_pos w + len \<and> healthy (remaining - len + k) (w_script w')"
  have read: "?read len" if "len \<le> remaining" for len
  proof -
    have "healthy (len + (remaining - len + k)) (w_script w)" and "len \<le> length F - w_pos w"
      using assms(3,4) that by simp_all
    then obtain bs w' where "ReadExact fd len w = (Done bs, w')" "healthy (remaining - len + k) (w_script w')"
      using ReadExact_healthy [of len "remaining - len + k" w fd] by (auto simp: F_def)
    then show ?thesis
      by (auto dest: ReadExact_effect simp: F_def)
  qed
  show ?thesis
  proof (cases "take 4 header = AOF2")
    case True
    let ?len = "unat (be_val (take 4 (drop 4 header)) :: 32 word)"
    have "?len \<le> remaining" and r: "\<not> ?len < HEADER_SIZE" "\<not> ?len > MAX_FRAME_SIZE"
        "Crc payload = be_val (take 4 (drop 8 header))" "payload = take ?len (drop (w_pos w) F)" "rest = drop (w_pos w + ?len) F"
      using assms(2,3) True by (auto simp: take_payload_def Let_def add.commute split: if_splits)
    with read [of ?len] obtain w' where "ReadExact fd ?len w = (Done payload, w')" "w_pos w' = w_pos w + ?len"
      "healthy (remaining - ?len + k) (w_script w')" by auto
    with True r \<open>?len \<le> remaining\<close> show ?thesis
      by (auto simp: ReadPayload_def Let_def throw_if_def assms(3) [symmetric])
  next
    case False
    let ?h = "decodeHeader header"
    let ?len = "unat (h_key_len ?h) + unat (h_value_len ?h)"
    have "?len \<le> remaining" and r: "validate ?h = Inr ()" "payload = header @ take ?len (drop (w_pos w) F)"
        "rest = drop (w_pos w + ?len) F"
      using assms(2,3) False by (auto simp: take_payload_def Let_def add.commute split: if_splits)
    with read [of ?len] obtain w' where "ReadExact fd ?len w = (Done (take ?len (drop (w_pos w) F)), w')"
      "w_pos w' = w_pos w + ?len" "healthy (remaining - ?len + k) (w_script w')" by auto
    with False r \<open>?len \<le> remaining\<close> show ?thesis
      by (auto simp: ReadPayload_def Let_def throw_if_def assms(3) [symmetric])
  qed
qed

lemma ReplayRecord_effect:
  fixes fd :: nat and w :: world
  defines "F \<equiv> f_data (w_files w fd)"
  assumes "ReplayRecord fd remaining w = (r, w')" and "w_pos w + remaining = length F"
  shows "same_disk w w' \<and>
    (\<forall>m rem'. r = Done (m, rem') \<longrightarrow>
       parse_record (drop (w_pos w) F) = Some (m, drop (w_pos w') F) \<and> w_pos w' + rem' = length F)"
proof (cases "remaining < HEADER_SIZE")
  case True
  with assms show ?thesis
    by (auto simp: ReplayRecord_def)
next
  case False
  then have *: "iobind (ReadExact fd 12) (\<lambda>header. iobind (ReadPayload fd header (remaining - 12))
      (\<lambda>(payload, remaining'). iobind (of_result (check_record payload)) (\<lambda>m. ireturn (m, remaining')))) w = (r, w')"
    using assms(2) by (simp add: ReplayRecord_def)
  then show ?thesis
  proof (cases rule: iobind_cases)
    case (Done header w1)
    note e1 = ReadExact_effect [OF Done(1)]
    then have e1': "same_disk w w1" "header = take 12 (drop (w_pos w) F)" "w_pos w1 = w_pos w + 12"
      and "f_data (w_files w1 fd) = F"
      by (auto simp: F_def dest: same_diskD)
    then have pos1: "w_pos w1 + (remaining - 12) = length (f_data (w_files w1 fd))"
      using assms(3) False by (simp add: HEADER_SIZE_def)
    from Done(2) show ?thesis
    proof (cases rule: iobind_cases)
      case (Done x w2)
      obtain payload rem' where x: "x = (payload, rem')"
        by fastforce
      note e2 = ReadPayload_effect [OF Done(1) pos1]
      have "drop 12 (drop (w_pos w) F) = drop (w_pos w1) F"
        using e1' by (simp add: add.commute)
      then show ?thesis
        using Done(2) e1' e2 False assms(3) \<open>f_data (w_files w1 fd) = F\<close> unfolding x
        by (auto simp: parse_record_def HEADER_SIZE_def elim!: iobind_cases intro: same_disk_trans)
    qed (use e1' ReadPayload_effect [OF _ pos1] in \<open>auto intro: same_disk_trans\<close>)
  qed (auto dest!: ReadExact_effect)
qed

lemma ReplayRecord_healthy:
  fixes fd :: nat and w :: world
  defines "F \<equiv> f_data (w_files w fd)"
  assumes "parse_record (drop (w_pos w) F) = Some (m, rest)"
    and "w_pos w + remaining = length F" and "healthy (remaining + k) (w_script w)"
  shows "\<exists>w'. ReplayRecord fd remaining w = (Done (m, length rest), w') \<and>
           rest = drop (w_pos w') F \<and> healthy (length rest + k) (w_script w')"
proof -
  have 12: "12 \<le> remaining"
    using assms(2,3) by (auto simp: parse_record_def HEADER_SIZE_def split: if_splits)
  then have "healthy (12 + (remaining - 12 + k)) (w_script w)" and "12 \<le> length F - w_pos w"
    using assms(3,4) by simp_all
  then obtain header w1 where rd: "ReadExact fd 12 w = (Done header, w1)" and h1: "healthy (remaining - 12 + k) (w_script w1)"
    using ReadExact_healthy [of 12 "remaining - 12 + k" w fd] by (auto simp: F_def)
  then have e1: "w_pos w1 = w_pos w + 12" "header = take 12 (drop (w_pos w) F)" "f_data (w_files w1 fd) = F"
    by (auto dest!: ReadExact_effect dest: same_diskD simp: F_def)
  obtain payload where p: "take_payload header (drop (w_pos w1) F) = Some (payload, rest)" and "check_record payload = Inr m"
    using assms(2) e1 by (auto simp: parse_record_def add.commute split: if_splits option.splits sum.splits)
  moreover have "w_pos w1 + (remaining - 12) = length F"
    using assms(3) e1 12 by simp
  ultimately show ?thesis
    using ReadPayload_healthy [of header w1 fd payload rest "remaining - 12" k] rd h1 e1 12
    by (auto simp: ReplayRecord_def HEADER_SIZE_def)
qed

text \<open>
  Whatever the system calls do, replay leaves the disk alone, hands the callback the records
  of the log in order, and returns only if the log was read to its end and the callback
  accepted every record.
\<close>

lemma ReplayLoop_sound:
  fixes fd :: nat and w :: world
  assumes "ReplayLoop cb fd remaining s w = (r, s', w')" and "w_pos w + remaining = length (f_data (w_files w fd))"
  shows "same_disk w w' \<and>
    (\<exists>ms. prefix ms (fst (parse_log (drop (w_pos w) (f_data (w_files w fd))))) \<and>
       s' = snd (replay_all cb ms s) \<and>
       (r = Done () \<longrightarrow> fst (replay_all cb ms s) = Inr () \<and>
          parse_log (drop (w_pos w) (f_data (w_files w fd))) = (ms, True)))"
  using assms
proof (induction cb fd remaining s w arbitrary: r s' w' rule: ReplayLoop.induct)
  case (1 cb fd remaining s w)
  show ?case
  proof (cases "remaining = 0")
    case True
    with 1(2,3) show ?thesis
      by (auto simp: ReplayLoop.simps [of cb fd 0 s w] intro!: exI [of _ "[]"])
  next
    case False
    obtain r1 w1 where rr: "ReplayRecord fd remaining w = (r1, w1)"
      by fastforce
    note e = ReplayRecord_effect [OF rr 1(3)]
    show ?thesis
    proof (cases r1)
      case (Done x)
      obtain m rem' where x: "x = (m, rem')"
        by fastforce
      obtain c s1 where cb: "cb m s = (c, s1)"
        by fastforce
      have p: "parse_log (drop (w_pos w) (f_data (w_files w fd))) =
          (m # fst (parse_log (drop (w_pos w1) (f_data (w_files w fd)))), snd (parse_log (drop (w_pos w1) (f_data (w_files w fd)))))"
        using e Done x by (intro parse_log_Some) simp
      have fs: "w_files w1 = w_files w"
        using e same_diskD by blast
      show ?thesis
      proof (cases c)
        case (Inl ex)
        with False rr Done x cb 1(2) e p show ?thesis
          by (auto simp: ReplayLoop.simps [of cb fd remaining s w] intro!: exI [of _ "[m]"])
      next
        case (Inr u)
        then have "ReplayLoop cb fd rem' s1 w1 = (r, s', w')"
          using False rr Done x cb 1(2) by (simp add: ReplayLoop.simps [of cb fd remaining s w])
        moreover have "w_pos w1 + rem' = length (f_data (w_files w1 fd))"
          using e Done x fs by simp
        ultimately have IH: "same_disk w1 w' \<and>
            (\<exists>ms. prefix ms (fst (parse_log (drop (w_pos w1) (f_data (w_files w fd))))) \<and>
               s' = snd (replay_all cb ms s1) \<and>
               (r = Done () \<longrightarrow> fst (replay_all cb ms s1) = Inr () \<and>
                  parse_log (drop (w_pos w1) (f_data (w_files w fd))) = (ms, True)))"
          using 1(1) [OF False rr [symmetric] Done x [symmetric] cb [symmetric] Inr] fs by simp
        then obtain ms where "same_disk w1 w'" "prefix ms (fst (parse_log (drop (w_pos w1) (f_data (w_files w fd)))))"
          "s' = snd (replay_all cb ms s1)"
          "r = Done () \<longrightarrow> fst (replay_all cb ms s1) = Inr () \<and> parse_log (drop (w_pos w1) (f_data (w_files w fd))) = (ms, True)"
          by blast
        then show ?thesis
          using e cb Inr p by (auto intro!: exI [of _ "m # ms"] intro: same_disk_trans)
      qed
    qed (use False rr 1(2) e in \<open>auto simp: ReplayLoop.simps [of cb fd remaining s w] intro!: exI [of _ "[]"]\<close>)
  qed
qed

lemma ReplayLoop_healthy:
  fixes fd :: nat and w :: world
  assumes "parse_log (drop (w_pos w) (f_data (w_files w fd))) = (ms, True)"
    and "w_pos w + remaining = length (f_data (w_files w fd))"
    and "healthy remaining (w_script w)" and "fst (replay_all cb ms s) = Inr ()"
  shows "fst (ReplayLoop cb fd remaining s w) = Done ()"
  using assms
proof (induction ms arbitrary: remaining s w)
  case Nil
  then have "drop (w_pos w) (f_data (w_files w fd)) = []"
    by (auto simp: parse_log.simps [of "drop _ _"] split_beta split: if_splits option.splits)
  then have "remaining = 0"
    using Nil.prems(2) by simp
  then show ?case
    by (simp add: ReplayLoop.simps [of cb fd 0 s w])
next
  case (Cons m ms)
  let ?bs = "drop (w_pos w) (f_data (w_files w fd))"
  obtain rest where p: "parse_record ?bs = Some (m, rest)" and ms: "parse_log rest = (ms, True)"
    using Cons.prems(1)
    by (auto simp: parse_log.simps [of ?bs] split_beta prod_eq_iff split: if_splits option.splits)
  obtain w1 where rr: "ReplayRecord fd remaining w = (Done (m, length rest), w1)"
    and rest: "rest = drop (w_pos w1) (f_data (w_files w fd))" and h: "healthy (length rest) (w_script w1)"
    using ReplayRecord_healthy [OF p Cons.prems(2), of 0] Cons.prems(3) by auto
  note e = ReplayRecord_effect [OF rr Cons.prems(2)]
  then have fs: "w_files w1 = w_files w"
    using same_diskD by blast
  obtain s1 where cb: "cb m s = (Inr (), s1)"
    using Cons.prems(4) by (auto split: prod.splits sum.splits)
  have "0 < remaining"
    using p Cons.prems(2) by (auto simp: parse_record_def HEADER_SIZE_def split: if_splits)
  moreover have "fst (ReplayLoop cb fd (length rest) s1 w1) = Done ()"
    using Cons.prems(4) cb ms rest h e fs by (intro Cons.IH) simp_all
  ultimately show ?case
    using rr cb by (simp add: ReplayLoop.simps [of cb fd remaining s w])
qed

lemma replay_sound:
  assumes "replay cb a s w = (r, s', w')" and "a_bytes a = length (f_data (w_files w (a_fd a)))"
  shows "same_disk w w' \<and>
    (\<exists>ms. prefix ms (fst (parse_log (f_data (w_files w (a_fd a))))) \<and> s' = snd (replay_all cb ms s) \<and>
       (r = Done () \<longrightarrow> fst (replay_all cb ms s) = Inr () \<and> parse_log (f_data (w_files w (a_fd a))) = (ms, True)))"
proof (cases "a_started a")
  case True
  with assms(1) show ?thesis
    by (auto simp: replay_def intro!: exI [of _ "[]"])
next
  case False
  obtain r1 w1 where sc: "sys_call (Runtime_error ''Cannot seek AOF'') w = (r1, w1)"
    by fastforce
  then obtain rs where w1: "w1 = w\<lparr>w_script := rs\<rparr>"
    using sys_call_effect by blast
  show ?thesis
  proof (cases r1)
    case (Done u)
    then have "ReplayLoop cb (a_fd a) (a_bytes a) s (w\<lparr>w_script := rs, w_pos := 0\<rparr>) = (r, s', w')"
      using assms(1) False sc by (simp add: replay_def w1)
    from ReplayLoop_sound [OF this] assms(2) show ?thesis
      by (simp add: same_disk_def)
  qed (use assms(1) False sc w1 in \<open>auto simp: replay_def intro!: exI [of _ "[]"]\<close>)
qed

lemma replay_records:
  assumes "list_all2 is_record ms bss" and "f_data (w_files w (a_fd a)) = concat bss"
    and "a_bytes a = length (concat bss)" and "\<not> a_started a"
    and "w_script w = Sys_ok n # rs" and "healthy (a_bytes a) rs" and "fst (replay_all cb ms s) = Inr ()"
  shows "\<exists>w'. replay cb a s w = (Done (), snd (replay_all cb ms s), w') \<and> same_disk w w'"
proof -
  have p: "parse_log (f_data (w_files w (a_fd a))) = (ms, True)"
    using parse_log_records [OF assms(1), of "[]"] assms(2) by simp
  have "fst (replay cb a s w) = Done ()"
    using ReplayLoop_healthy [of "w\<lparr>w_script := rs, w_pos := 0\<rparr>" "a_fd a" ms "a_bytes a" cb s] p assms
    by (simp add: replay_def sys_call_def)
  then obtain s' w' where "replay cb a s w = (Done (), s', w')"
    by (metis prod.collapse)
  with replay_sound [OF this] p assms(2,3) show ?thesis
    by auto
qed

text \<open>
  C18. Replay restores the log: when the file holds the records of some mutations, checksummed
  or in the version-1 format, one after the other, and the system calls deliver its bytes, in
  pieces of any size and with any interruptions, then replay returns, has applied exactly
  these mutations in their order, and has not changed the disk.
\<close>
theorem replay_restores_log:
  assumes "list_all2 is_record ms bss" and "f_data (w_files w (a_fd a)) = concat bss"
    and "a_bytes a = length (concat bss)" and "\<not> a_started a"
    and "w_script w = Sys_ok n # rs" and "healthy (a_bytes a) rs" and "fst (replay_all cb ms s) = Inr ()"
  shows "\<exists>w'. replay cb a s w = (Done (), snd (replay_all cb ms s), w') \<and> same_disk w w'"
  using assms by (rule replay_records)

text \<open>An example: one checksummed record, one version-1 record, and a callback that collects.\<close>

definition collect :: "mutation list callback" where
  "collect m s = (Inr (), s @ [m])"

lemma replay_all_collect: "replay_all collect ms s = (Inr (), s @ ms)"
  by (induction ms arbitrary: s) (simp_all add: collect_def)

definition log_example :: "mutation list" where
  "log_example = [\<lparr>m_command = SET, m_key = [107], m_value = [1, 2]\<rparr>, \<lparr>m_command = DEL, m_key = [107], m_value = []\<rparr>]"

definition world_example :: "bytes \<Rightarrow> sysres list \<Rightarrow> world" where
  "world_example bs rs = \<lparr>w_script = rs, w_files = (\<lambda>_. \<lparr>f_data = bs, f_synced = length bs\<rparr>), w_next = 1,
     w_name = Some 0, w_name_synced = Some 0, w_pos = 0\<rparr>"

definition aof_example :: "nat \<Rightarrow> nat \<Rightarrow> bool \<Rightarrow> aof" where
  "aof_example bytes max_bytes started =
     \<lparr>a_fd = 0, a_bytes = bytes, a_rewritten_at = 0, a_max_bytes = max_bytes, a_failed = False, a_started = started,
      a_stats = \<lparr>as_records = 0, as_syncs = 0, as_bytes = bytes, as_rewrites = 0, as_sync_us = 0\<rparr>\<rparr>"

lemma log_example_records:
  obtains b1 b2 where "list_all2 is_record log_example [b1, b2]" and "length b1 = 27" and "length b2 = 13"
    and "Encode (hd log_example) = Inr b1"
proof -
  let ?m = "hd log_example" and ?n = "log_example ! 1"
  obtain b1 where b1: "Encode ?m = Inr b1"
    using Encode_ok_iff [of ?m] by (auto simp: log_example_def loggable_def limit_defs)
  obtain b2 where b2: "encode (m_command ?n) (m_key ?n) (m_value ?n) = Inr b2"
    using encode_ok_iff [of "m_command ?n" "m_key ?n" "m_value ?n"] by (auto simp: log_example_def limit_defs)
  have "list_all2 is_record log_example [b1, b2]"
    using b1 b2 by (simp add: log_example_def is_record_def loggable_def)
  moreover have "length b1 = 27" "length b2 = 13"
    using length_Encode [OF b1] length_encode [OF b2] by (simp_all add: log_example_def HEADER_SIZE_def)
  ultimately show thesis
    using b1 that by blast
qed

theorem replay_restores_log_witness:
  "\<exists>b1 b2 w'. list_all2 is_record log_example [b1, b2] \<and>
     replay collect (aof_example (length (b1 @ b2)) 1000 False) []
       (world_example (b1 @ b2) (Sys_ok 1 # Sys_intr # replicate 40 (Sys_ok 5))) = (Done (), log_example, w')"
proof -
  obtain b1 b2 where b: "list_all2 is_record log_example [b1, b2]" "length b1 = 27" "length b2 = 13"
    by (rule log_example_records)
  let ?bs = "concat [b1, b2]" and ?rs = "Sys_intr # replicate 40 (Sys_ok 5)"
  have "healthy (length ?bs) ?rs"
    using b(2,3) by (auto simp: healthy_def)
  then have "\<exists>w'. replay collect (aof_example (length ?bs) 1000 False) [] (world_example ?bs (Sys_ok 1 # ?rs)) =
      (Done (), snd (replay_all collect log_example []), w') \<and> same_disk (world_example ?bs (Sys_ok 1 # ?rs)) w'"
    by (intro replay_restores_log [OF b(1), where n = 1 and rs = ?rs])
      (simp_all add: world_example_def aof_example_def replay_all_collect)
  with b(1) show ?thesis
    unfolding replay_all_collect by (intro exI [of _ b1] exI [of _ b2]) auto
qed



text \<open>
  C26. A damaged record is rejected: when up to four consecutive bytes of the payload of a
  checksummed record are overwritten by anything else, replay does not return, and the
  callback has seen nothing of this record or of what follows it.
\<close>
theorem replay_rejects_damage:
  assumes "list_all2 is_record ms bss"
    and "Encode m = Inr (AOF2 @ be_bytes 4 (of_nat n :: 32 word) @ crc @ x @ u @ y)" and "length crc = 4"
    and "n = length (x @ u @ y)" and "length v = length u" and "length u \<le> 4" and "v \<noteq> u"
    and "f_data (w_files w (a_fd a)) = concat bss @ (AOF2 @ be_bytes 4 (of_nat n :: 32 word) @ crc @ x @ v @ y) @ z"
    and "a_bytes a = length (f_data (w_files w (a_fd a)))"
    and "replay cb a s w = (r, s', w')"
  shows "r \<noteq> Done () \<and> (\<exists>ms'. prefix ms' ms \<and> s' = snd (replay_all cb ms' s))"
proof -
  obtain p where p: "encode (m_command m) (m_key m) (m_value m) = Inr p"
    and eq: "AOF2 @ be_bytes 4 (of_nat n :: 32 word) @ crc @ x @ u @ y =
      AOF2 @ be_bytes 4 (of_nat (length p) :: 32 word) @ be_bytes 4 (Crc p) @ p"
    using assms(2) by (rule EncodeD)
  have "length p = n"
    using arg_cong [OF eq, of length] assms(3,4) by simp
  with eq have "crc @ (x @ u @ y) = be_bytes 4 (Crc p) @ p"
    by simp
  then have crc: "crc = be_bytes 4 (Crc p)" and xuy: "x @ u @ y = p"
    using append_eq_append_conv [of crc "be_bytes 4 (Crc p)" "x @ u @ y" p] assms(3) by auto
  have "Crc (x @ u @ y) \<noteq> Crc (x @ v @ y)"
    using assms(5-7) by (intro Crc_burst) auto
  then have "be_val crc \<noteq> Crc (x @ v @ y)"
    by (simp add: crc xuy)
  moreover have "length p \<le> MAX_FRAME_SIZE"
    using length_encode [OF p] encodeD(1,2) [OF p] by (simp add: limit_defs)
  moreover have len: "length (x @ v @ y) = n"
    using assms(4,5) by simp
  ultimately have "parse_record (AOF2 @ be_bytes 4 (of_nat n :: 32 word) @ crc @ (x @ v @ y) @ z) = None"
    using parse_record_damaged [OF assms(3), of "x @ v @ y" z] \<open>length p = n\<close> by simp
  then have "parse_log ((AOF2 @ be_bytes 4 (of_nat n :: 32 word) @ crc @ x @ v @ y) @ z) = ([], False)"
    by (intro parse_log_None) (simp_all add: AOF2_def)
  then have "parse_log (f_data (w_files w (a_fd a))) = (ms, False)"
    using parse_log_records [OF assms(1)] by (simp add: assms(8))
  with replay_sound [OF assms(10,9)] show ?thesis
    by auto
qed

theorem replay_rejects_damage_witness:
  "\<exists>bs. length bs = 27 \<and>
     fst (replay collect (aof_example (length bs) 1000 False) [] (world_example bs (replicate 99 (Sys_ok 5)))) \<noteq> Done ()"
proof -
  let ?m = "hd log_example"
  obtain b1 where b1: "Encode ?m = Inr b1"
    using log_example_records by metis
  then obtain p where p: "encode (m_command ?m) (m_key ?m) (m_value ?m) = Inr p"
    and b1': "b1 = AOF2 @ be_bytes 4 (of_nat (length p) :: 32 word) @ be_bytes 4 (Crc p) @ p"
    by (rule EncodeD)
  have px: "p = take 12 p @ [107] @ [1, 2]" and len: "length p = 15"
    using encodeD(4) [OF p] by (simp_all add: log_example_def)
  let ?bs = "concat [] @ (AOF2 @ be_bytes 4 (of_nat (length p) :: 32 word) @ be_bytes 4 (Crc p) @ take 12 p @ [108] @ [1, 2]) @ []"
  obtain x s' w' where x: "replay collect (aof_example (length ?bs) 1000 False) []
      (world_example ?bs (replicate 99 (Sys_ok 5))) = (x, s', w')"
    by (metis prod.collapse)
  have "Encode ?m = Inr (AOF2 @ be_bytes 4 (of_nat (length p) :: 32 word) @ be_bytes 4 (Crc p) @ take 12 p @ [107] @ [1, 2])"
    using b1 b1' px by simp
  then have "x \<noteq> Done ()"
    using replay_rejects_damage [where ms = "[]" and bss = "[]" and m = ?m and n = "length p" and x = "take 12 p"
        and u = "[107]" and y = "[1, 2]" and v = "[108]" and z = "[]" and crc = "be_bytes 4 (Crc p)", OF _ _ _ _ _ _ _ _ _ x] len
    by (simp add: world_example_def aof_example_def)
  with x have "length ?bs = 27 \<and>
     fst (replay collect (aof_example (length ?bs) 1000 False) [] (world_example ?bs (replicate 99 (Sys_ok 5)))) \<noteq> Done ()"
    using len by (simp add: AOF2_def)
  then show ?thesis
    by blast
qed

end
