(* ===== verification/Aof_Durability.thy ===== *)
theory Aof_Durability
  imports Aof_Log
begin

text \<open>
  What the log of \<open>Aof_Log\<close> promises about the disk: the logger's invariant, that an
  acknowledged batch survives every crash, that a batch that did not finish leaves what was
  durable before, that a rewrite is atomic, that the file stays within its configured size,
  and that a failed logger refuses every further call.
\<close>

section \<open>Sizes\<close>

abbreviation encoded :: "mutation list \<Rightarrow> bytes list \<Rightarrow> bool" where
  "encoded ms bss \<equiv> list_all2 (\<lambda>m bs. Encode m = Inr bs) ms bss"

lemma encoded_records: "encoded ms bss \<Longrightarrow> list_all2 is_record ms bss"
  by (erule list_all2_mono) (auto simp: is_record_def elim: EncodeD)

lemma SizeFrom_encoded:
  "encoded ms bss \<Longrightarrow> SizeFrom acc ms = Inr (foldl (\<lambda>a bs. sz_add a (length bs)) acc bss)"
  by (induction ms bss arbitrary: acc rule: list_all2_induct) simp_all

lemma SizeFrom_ok: "SizeFrom acc ms = Inr n \<Longrightarrow> \<exists>bss. encoded ms bss"
proof (induction ms arbitrary: acc)
  case Nil
  show ?case
    by (rule exI [of _ "[]"]) simp
next
  case (Cons m ms)
  then obtain bs where "Encode m = Inr bs" and "SizeFrom (sz_add acc (length bs)) ms = Inr n"
    by auto
  moreover from Cons.IH [OF this(2)] obtain bss where "encoded ms bss"
    by blast
  ultimately show ?case
    by (intro exI [of _ "bs # bss"]) simp
qed

lemma encoded_unique: "encoded ms bss \<Longrightarrow> encoded ms bss' \<Longrightarrow> bss = bss'"
proof (induction ms bss arbitrary: bss' rule: list_all2_induct)
  case (Cons m ms b bss)
  from Cons.prems Cons.hyps(1) obtain bs' where "bss' = b # bs'" and "encoded ms bs'"
    by (cases bss') simp_all
  moreover have "bss = bs'"
    using calculation(2) by (rule Cons.IH)
  ultimately show ?case
    by simp
qed simp

lemma length_Encode_le: "Encode m = Inr bs \<Longrightarrow> length bs \<le> 2 ^ 21"
  using length_Encode [of m bs] Encode_ok_iff [of m] by (auto simp: limit_defs)

lemma encoded_length: "encoded ms bss \<Longrightarrow> sum_list (map length bss) \<le> length ms * 2 ^ 21"
  by (induction ms bss rule: list_all2_induct) (auto dest!: length_Encode_le)

text \<open>
  A batch of at most \<open>2 ^ 40\<close> mutations (the bound on vectors that fit in memory) cannot make
  the 64-bit size counter wrap around.
\<close>

definition BATCH_LIMIT :: nat where
  "BATCH_LIMIT = 2 ^ 40"

lemma Size_exact:
  assumes "length ms \<le> BATCH_LIMIT" and "Size ms = Inr n"
  obtains bss where "encoded ms bss" and "n = length (concat bss)"
proof -
  obtain bss where bss: "encoded ms bss"
    using SizeFrom_ok assms(2) unfolding Size_def by blast
  have "length ms * 2 ^ 21 \<le> 2 ^ 40 * 2 ^ 21"
    using assms(1) unfolding BATCH_LIMIT_def by (rule mult_right_mono) simp
  then have "0 + sum_list (map length bss) < sz_mod"
    using encoded_length [OF bss] by (simp add: sz_mod_def)
  then have "n = length (concat bss)"
    using assms(2) SizeFrom_encoded [OF bss, of 0] foldl_sz_add [of 0 length bss]
    by (simp add: Size_def length_concat)
  with bss show thesis
    by (rule that)
qed

section \<open>The invariant\<close>

definition log_data :: "aof \<Rightarrow> world \<Rightarrow> bytes" where
  "log_data a w = f_data (w_files w (a_fd a))"

definition aof_inv :: "aof \<Rightarrow> world \<Rightarrow> bool" where
  "aof_inv a w \<longleftrightarrow>
     a_max_bytes a < sz_mod \<and> a_bytes a \<le> a_max_bytes a \<and> a_rewritten_at a \<le> a_bytes a \<and>
     as_bytes (a_stats a) = a_bytes a \<and> a_fd a < w_next w \<and>
     length (log_data a w) \<le> a_max_bytes a \<and> w_name w = Some (a_fd a) \<and>
     (\<not> a_failed a \<longrightarrow> w_name_synced w = Some (a_fd a) \<and> a_bytes a = length (log_data a w))"

lemma aof_inv_room: "aof_inv a w \<Longrightarrow> sz_sub (a_max_bytes a) (a_bytes a) = a_max_bytes a - a_bytes a"
  by (simp add: aof_inv_def sz_sub_exact)

lemma aof_inv_growth: "aof_inv a w \<Longrightarrow> sz_sub (a_bytes a) (a_rewritten_at a) = a_bytes a - a_rewritten_at a"
  by (simp add: aof_inv_def sz_sub_exact)

section \<open>Appending\<close>

lemma WriteMutations_effect:
  assumes "encoded ms bss" and "WriteMutations fd ms w = (r, w')"
  shows "\<exists>bs rs. w' = append_file fd bs (w\<lparr>w_script := rs\<rparr>) \<and> prefix bs (concat bss) \<and>
    (r = Done () \<and> bs = concat bss \<or> r = Halted \<or> r = Throws (Runtime_error ''AOF write failed''))"
  using assms
proof (induction ms bss arbitrary: w rule: list_all2_induct)
  case Nil
  then show ?case
    by (auto intro!: exI [of _ "[]"] exI [of _ "w_script w"])
next
  case (Cons m ms b bss)
  then have "iobind (WriteExact fd b) (\<lambda>_. WriteMutations fd ms) w = (r, w')"
    by simp
  then show ?case
  proof (cases rule: iobind_cases)
    case (Done x u)
    obtain rs where "u = append_file fd b (w\<lparr>w_script := rs\<rparr>)"
      using WriteExact_effect [OF Done(1)] by (metis io.distinct(1,3))
    with Cons.IH [OF Done(2)] show ?thesis
      by (auto simp: append_file_twice)
  next
    case (Throws e)
    from WriteExact_effect [OF Throws(1)] Throws(2) show ?thesis
      by (metis concat.simps(2) io.distinct(1) prefix_prefix)
  next
    case Halted
    from WriteExact_effect [OF Halted(1)] Halted(2) show ?thesis
      by (metis concat.simps(2) prefix_prefix)
  qed
qed

lemma append_file_simps [simp]:
  "w_files (append_file fd bs w) = (w_files w)(fd := (w_files w fd)\<lparr>f_data := f_data (w_files w fd) @ bs\<rparr>)"
  "w_name (append_file fd bs w) = w_name w"
  "w_name_synced (append_file fd bs w) = w_name_synced w"
  "w_next (append_file fd bs w) = w_next w"
  "w_script (append_file fd bs w) = w_script w"
  by (simp_all add: append_file_def)

text \<open>Writing some records and then \<open>fsync\<close>.\<close>

lemma write_sync_effect:
  assumes "encoded ms bss" and "iobind (WriteMutations fd ms) (\<lambda>_. Sync (File fd)) w = (r, w')"
  shows "(\<exists>us rs. r = Done us \<and> w' = persist (File fd) (append_file fd (concat bss) (w\<lparr>w_script := rs\<rparr>))) \<or>
    (\<exists>bs rs. w' = append_file fd bs (w\<lparr>w_script := rs\<rparr>) \<and> prefix bs (concat bss) \<and>
       (r = Halted \<or> r = Throws (Runtime_error ''AOF write failed'') \<or> r = Throws (Runtime_error ''AOF fsync failed'')))"
  using assms(2)
proof (cases rule: iobind_cases)
  case (Done x u)
  then obtain rs where u: "u = append_file fd (concat bss) (w\<lparr>w_script := rs\<rparr>)"
    using WriteMutations_effect [OF assms(1) Done(1)] by auto
  have u': "u\<lparr>w_script := rs'\<rparr> = append_file fd (concat bss) (w\<lparr>w_script := rs'\<rparr>)" for rs'
    by (simp add: u append_file_def)
  from Sync_effect [OF Done(2), unfolded u'] show ?thesis
    by blast
qed (use WriteMutations_effect [OF assms(1)] in fastforce)+

lemma logBatch_cases [consumes 3, case_names unchanged acked torn]:
  assumes "logBatch ms a w = (r, a', w')" and "aof_inv a w" and "length ms \<le> BATCH_LIMIT"
  obtains "a' = a" "w' = w" "r = Done () \<and> ms = [] \<or> (\<exists>e. r = Throws e)"
    | bss us rs where "encoded ms bss" "ms \<noteq> []" "\<not> a_failed a" "r = Done ()"
        "length (concat bss) \<le> a_max_bytes a - a_bytes a"
        "w' = persist (File (a_fd a)) (append_file (a_fd a) (concat bss) (w\<lparr>w_script := rs\<rparr>))"
        "a' = a\<lparr>a_bytes := a_bytes a + length (concat bss),
                a_stats := (a_stats a)\<lparr>as_sync_us := sz_add (as_sync_us (a_stats a)) us,
                                      as_bytes := a_bytes a + length (concat bss),
                                      as_records := sz_add (as_records (a_stats a)) (length ms),
                                      as_syncs := sz_add (as_syncs (a_stats a)) 1\<rparr>\<rparr>"
    | bss bs rs where "encoded ms bss" "\<not> a_failed a" "prefix bs (concat bss)"
        "length (concat bss) \<le> a_max_bytes a - a_bytes a"
        "w' = append_file (a_fd a) bs (w\<lparr>w_script := rs\<rparr>)"
        "r = Halted \<and> a' = a \<or> (\<exists>e. r = Throws (Runtime_error e) \<and> a' = a\<lparr>a_failed := True\<rparr>)"
proof (cases "ms = [] \<or> \<not> a_started a \<or> a_failed a \<or> (\<exists>e. Size ms = Inl e)")
  case True
  with assms(1) show thesis
    by (intro that(1)) (auto simp: logBatch_def split: if_splits sum.splits)
next
  case False
  then obtain n where n: "Size ms = Inr n"
    by (cases "Size ms") auto
  then obtain bss where bss: "encoded ms bss" and len: "n = length (concat bss)"
    using assms(3) by (elim Size_exact)
  note room = aof_inv_room [OF assms(2)]
  show thesis
  proof (cases "n > a_max_bytes a - a_bytes a")
    case True
    with assms(1) False n show thesis
      by (intro that(1)) (auto simp: logBatch_def room)
  next
    case fits: False
    obtain x u where wr: "iobind (WriteMutations (a_fd a) ms) (\<lambda>_. Sync (File (a_fd a))) w = (x, u)"
      by fastforce
    have add: "sz_add (a_bytes a) n = a_bytes a + n"
      using fits assms(2) by (intro sz_add_exact) (auto simp: aof_inv_def)
    from write_sync_effect [OF bss wr] show thesis
    proof (elim disjE exE conjE)
      fix us rs
      assume "x = Done us" and "u = persist (File (a_fd a)) (append_file (a_fd a) (concat bss) (w\<lparr>w_script := rs\<rparr>))"
      with assms(1) False n fits wr add bss len show thesis
        by (intro that(2) [of bss rs us]) (auto simp: logBatch_def room Let_def)
    qed (use assms(1) False n fits wr bss len in \<open>auto simp: logBatch_def room intro: that(3)\<close>)
  qed
qed

lemma durable_append: "prefix (durable f) (durable (f\<lparr>f_data := f_data f @ bs\<rparr>))"
  by (auto simp: durable_def)

lemma crash_imageD:
  "crash_image w d \<Longrightarrow> w_name w = Some i \<Longrightarrow> w_name_synced w = Some i \<Longrightarrow> prefix (durable (w_files w i)) d"
  by (simp add: crash_image_def)

text \<open>
  C16. An acknowledged batch is durable: once \<^const>\<open>logBatch\<close> has returned, whatever a crash
  leaves under the log's name starts with the whole log as it was before the call followed by
  the records of the batch in their order.
\<close>
theorem acked_batch_survives_crash:
  assumes "aof_inv a w" and "length ms \<le> BATCH_LIMIT" and "ms \<noteq> []"
    and "logBatch ms a w = (Done (), a', w')" and "crash_image w' d"
  shows "\<exists>bss. list_all2 is_record ms bss \<and> prefix (log_data a w @ concat bss) d"
  using assms(4,1,2)
proof (cases rule: logBatch_cases)
  case (acked bss us rs)
  have "prefix (durable (w_files w' (a_fd a))) d"
    using assms(1,5) acked by (intro crash_imageD) (auto simp: aof_inv_def)
  then show ?thesis
    using acked encoded_records [OF acked(1)] by (auto simp: durable_def log_data_def)
qed (use assms(3) in auto)

text \<open>
  A batch that throws or is cut short at any point loses nothing: whatever a crash
  leaves still starts with everything that was durable before the call.
\<close>
lemma unfinished_batch_keeps_durable:
  assumes "aof_inv a w" and "length ms \<le> BATCH_LIMIT" and "\<not> a_failed a"
    and "logBatch ms a w = (r, a', w')" and "crash_image w' d"
  shows "prefix (durable (w_files w (a_fd a))) d"
proof -
  have nm: "w_name w = Some (a_fd a)" "w_name_synced w = Some (a_fd a)"
    using assms(1,3) by (simp_all add: aof_inv_def)
  show ?thesis
    using assms(4,1,2)
  proof (cases rule: logBatch_cases)
    case unchanged
    with assms(5) nm show ?thesis
      by (auto dest: crash_imageD)
  next
    case (acked bss us rs)
    with assms(5) nm have "prefix (durable (w_files w' (a_fd a))) d"
      by (intro crash_imageD) auto
    with acked show ?thesis
      by (auto simp: durable_def intro: prefix_order.trans [rotated] take_is_prefix prefix_prefix)
  next
    case (torn bss bs rs)
    with assms(5) nm have "prefix (durable (w_files w' (a_fd a))) d"
      by (intro crash_imageD) auto
    with torn show ?thesis
      by (auto intro: prefix_order.trans [OF durable_append])
  qed
qed

section \<open>Rewriting\<close>

text \<open>Nothing but the contents of one file differs.\<close>

definition only_touches :: "nat \<Rightarrow> world \<Rightarrow> world \<Rightarrow> bool" where
  "only_touches i w w' \<longleftrightarrow> w_name w' = w_name w \<and> w_name_synced w' = w_name_synced w \<and> w_next w' = w_next w \<and>
     (\<forall>j. j \<noteq> i \<longrightarrow> w_files w' j = w_files w j)"

lemma only_touches_trans: "only_touches i u v \<Longrightarrow> only_touches i v w \<Longrightarrow> only_touches i u w"
  by (simp add: only_touches_def)

lemma only_touches_simps [simp]:
  "only_touches i w (w\<lparr>w_script := rs\<rparr>)"
  "only_touches i w (append_file i bs (w\<lparr>w_script := rs\<rparr>))"
  by (simp_all add: only_touches_def)

lemma rename_effect:
  assumes "rename_to_log i w = (r, w')"
  shows "\<exists>rs. r = Done () \<and> w' = w\<lparr>w_script := rs, w_name := Some i\<rparr> \<or> r \<noteq> Done () \<and> w' = w\<lparr>w_script := rs\<rparr>"
  using assms unfolding rename_to_log_def by (cases rule: iobind_cases) (auto dest!: sys_call_effect)

lemma publish_effect:
  assumes "encoded ms bss" and "publish i ms w = (r, w')"
  shows "(\<exists>rs. r = Done () \<and>
      w' = (persist (File i) (append_file i (concat bss) (w\<lparr>w_script := rs\<rparr>)))\<lparr>w_name := Some i\<rparr>) \<or>
    r \<noteq> Done () \<and> only_touches i w w'"
proof -
  have "publish i ms = iobind (sys_call (Runtime_error ''Cannot lock AOF replacement''))
     (\<lambda>_. iobind (iobind (WriteMutations i ms) (\<lambda>_. Sync (File i))) (\<lambda>_. rename_to_log i))"
    by (rule ext) (simp add: publish_def iobind_def split: prod.splits io.splits)
  with assms(2) have "iobind (sys_call (Runtime_error ''Cannot lock AOF replacement''))
     (\<lambda>_. iobind (iobind (WriteMutations i ms) (\<lambda>_. Sync (File i))) (\<lambda>_. rename_to_log i)) w = (r, w')"
    by simp
  then show ?thesis
  proof (cases rule: iobind_cases)
    case (Done x u)
    then obtain rs where u: "u = w\<lparr>w_script := rs\<rparr>"
      using sys_call_effect by blast
    from Done(2) show ?thesis
    proof (cases rule: iobind_cases)
      case (Done y v)
      then obtain rs' where v: "v = persist (File i) (append_file i (concat bss) (w\<lparr>w_script := rs'\<rparr>))"
        using write_sync_effect [OF assms(1) Done(1)] u by auto
      have "only_touches i w (v\<lparr>w_script := rs\<rparr>)" for rs
        by (simp add: v only_touches_def)
      moreover have "v\<lparr>w_script := rs\<rparr> = persist (File i) (append_file i (concat bss) (w\<lparr>w_script := rs\<rparr>))" for rs
        by (simp add: v append_file_def)
      ultimately show ?thesis
        using rename_effect [OF Done(2)] by auto
    qed (auto simp: u dest!: write_sync_effect [OF assms(1)])
  qed (auto dest!: sys_call_effect)
qed

lemma make_temp_effect:
  assumes "make_temp w = (r, w')"
  shows "\<exists>rs. (r = Done (w_next w) \<and>
       w' = w\<lparr>w_script := rs, w_files := (w_files w)(w_next w := \<lparr>f_data = [], f_synced = 0\<rparr>), w_next := Suc (w_next w)\<rparr>) \<or>
     (\<forall>i. r \<noteq> Done i) \<and> w' = w\<lparr>w_script := rs\<rparr>"
  using assms unfolding make_temp_def
  by (cases rule: iobind_cases) (auto dest!: sys_call_effect simp: create_file_def)

text \<open>Either the log is untouched, or the complete snapshot has been published.\<close>

lemma rewrite_cases [consumes 3, case_names intact published]:
  assumes "rewrite ms a w = (r, a', w')" and "aof_inv a w" and "length ms \<le> BATCH_LIMIT"
  obtains "a' = a" "r \<noteq> Done ()" "w_name w' = w_name w" "w_name_synced w' = w_name_synced w" "w_next w \<le> w_next w'"
        "\<forall>i < w_next w. w_files w' i = w_files w i"
    | bss where "encoded ms bss" "\<not> a_failed a" "length (concat bss) \<le> a_max_bytes a"
        "w_name w' = Some (w_next w)" "w_next w' = Suc (w_next w)" "\<forall>i < w_next w. w_files w' i = w_files w i"
        "w_files w' (w_next w) = \<lparr>f_data = concat bss, f_synced = length (concat bss)\<rparr>"
        "a' = a\<lparr>a_fd := w_next w, a_bytes := length (concat bss), a_rewritten_at := length (concat bss),
                a_failed := a_failed a',
                a_stats := (a_stats a)\<lparr>as_bytes := length (concat bss),
                                      as_rewrites := sz_add (as_rewrites (a_stats a)) 1\<rparr>\<rparr>"
        "r = Done () \<and> w_name_synced w' = Some (w_next w) \<and> \<not> a_failed a' \<or>
         r = Halted \<and> w_name_synced w' = w_name_synced w \<or>
         (\<exists>e. r = Throws (Runtime_error e)) \<and> w_name_synced w' = w_name_synced w \<and> a_failed a'"
proof (cases "a_failed a \<or> (\<exists>e. Size ms = Inl e) \<or> (\<exists>n. Size ms = Inr n \<and> n > a_max_bytes a) \<or> (\<forall>i. fst (make_temp w) \<noteq> Done i)")
  case True
  have "\<forall>i. fst (make_temp w) \<noteq> Done i \<Longrightarrow> \<exists>rs. snd (make_temp w) = w\<lparr>w_script := rs\<rparr>"
    using make_temp_effect [of w] by (cases "make_temp w") auto
  with assms(1) True show thesis
    by (intro that(1)) (auto simp: rewrite_def split: if_splits sum.splits prod.splits io.splits)
next
  case False
  then obtain n where n: "Size ms = Inr n" "n \<le> a_max_bytes a" and nf: "\<not> a_failed a"
    by (cases "Size ms") auto
  obtain bss where bss: "encoded ms bss" and len: "n = length (concat bss)"
    using Size_exact [OF assms(3) n(1)] .
  obtain rs where mt: "make_temp w = (Done (w_next w),
      w\<lparr>w_script := rs, w_files := (w_files w)(w_next w := \<lparr>f_data = [], f_synced = 0\<rparr>), w_next := Suc (w_next w)\<rparr>)"
    (is "_ = (_, ?w1)")
    using make_temp_effect [of w] False by (cases "make_temp w") auto
  obtain x w2 where pub: "publish (w_next w) ms ?w1 = (x, w2)"
    by fastforce
  from publish_effect [OF bss pub] show thesis
  proof (elim disjE exE conjE)
    assume "x \<noteq> Done ()" and "only_touches (w_next w) ?w1 w2"
    with assms(1) n nf mt pub show thesis
      by (intro that(1)) (auto simp: rewrite_def only_touches_def split: io.splits)
  next
    fix rs'
    assume x: "x = Done ()"
      and w2: "w2 = (persist (File (w_next w)) (append_file (w_next w) (concat bss) (?w1\<lparr>w_script := rs'\<rparr>)))\<lparr>w_name := Some (w_next w)\<rparr>"
    obtain y w3 where sd: "SyncDirectory w2 = (y, w3)"
      by fastforce
    from SyncDirectory_effect [OF this] obtain rs'' where
      "y = Done () \<and> w3 = persist Directory (w2\<lparr>w_script := rs''\<rparr>) \<or>
       (y = Halted \<or> (\<exists>e. y = Throws (Runtime_error e))) \<and> w3 = w2\<lparr>w_script := rs''\<rparr>"
      by blast
    with assms(1) n nf mt pub x sd bss len show thesis
      by (intro that(2) [of bss]) (auto simp: rewrite_def w2 Let_def split: io.splits)
  qed
qed

text \<open>
  C17. A rewrite is atomic: at every point where it may be cut short, and after it has thrown,
  a crash leaves either what was durable of the old log or the complete snapshot, one record
  per entry; after it has returned, the complete snapshot.
\<close>
theorem rewrite_crash_atomic:
  assumes "aof_inv a w" and "length ms \<le> BATCH_LIMIT" and "\<not> a_failed a"
    and "rewrite ms a w = (r, a', w')" and "crash_image w' d"
  shows "r \<noteq> Done () \<and> prefix (durable (w_files w (a_fd a))) d \<or>
    (\<exists>bss. list_all2 is_record ms bss \<and> prefix (concat bss) d)"
proof -
  have nm: "w_name w = Some (a_fd a)" "w_name_synced w = Some (a_fd a)" "a_fd a < w_next w"
    using assms(1,3) by (simp_all add: aof_inv_def)
  show ?thesis
    using assms(4,1,2)
  proof (cases rule: rewrite_cases)
    case intact
    with nm assms(5) show ?thesis
      by (auto dest!: crash_imageD)
  next
    case (published bss)
    then show ?thesis
      using nm assms(5) encoded_records [OF published(1)] by (auto simp: crash_image_def durable_def)
  qed
qed

section \<open>The invariant is kept\<close>

lemma logBatch_inv:
  assumes "logBatch ms a w = (r, a', w')" and "aof_inv a w" and "length ms \<le> BATCH_LIMIT" and "r \<noteq> Halted"
  shows "aof_inv a' w'"
  using assms(1-3)
proof (cases rule: logBatch_cases)
  case unchanged
  with assms(2) show ?thesis
    by simp
next
  case (acked bss us rs)
  with assms(2) show ?thesis
    by (auto simp: aof_inv_def log_data_def)
next
  case (torn bss bs rs)
  then have "length bs \<le> length (concat bss)"
    by (simp add: prefix_length_le)
  with torn assms(2,4) show ?thesis
    by (auto simp: aof_inv_def log_data_def)
qed

lemma rewrite_inv:
  assumes "rewrite ms a w = (r, a', w')" and "aof_inv a w" and "length ms \<le> BATCH_LIMIT" and "r \<noteq> Halted"
  shows "aof_inv a' w'"
  using assms(1-3)
proof (cases rule: rewrite_cases)
  case intact
  with assms(2) show ?thesis
    by (auto simp: aof_inv_def log_data_def)
next
  case (published bss)
  note a' = published(8)
  have "a_fd a' = w_next w" "a_bytes a' = length (concat bss)" "a_rewritten_at a' = length (concat bss)"
    "a_max_bytes a' = a_max_bytes a" "as_bytes (a_stats a') = length (concat bss)"
    by (subst a', simp)+
  with published(3-7,9) assms(2,4) show ?thesis
    by (auto simp: aof_inv_def log_data_def)
qed

lemma aof_new_inv:
  assumes "aof_new m w = (Done a, w')" and "m < sz_mod" and "\<forall>i. w_name w = Some i \<longrightarrow> i < w_next w"
  shows "aof_inv a w' \<and> \<not> a_started a \<and> \<not> a_failed a \<and>
    log_data a w' = (case w_name w of None \<Rightarrow> [] | Some i \<Rightarrow> f_data (w_files w i))"
proof -
  have sc: "sys_call e u = (Done x, v) \<Longrightarrow> \<exists>rs. v = u\<lparr>w_script := rs\<rparr>" for e u x v
    using sys_call_effect by blast
  have sd: "SyncDirectory u = (Done x, v) \<Longrightarrow> \<exists>rs. v = persist Directory (u\<lparr>w_script := rs\<rparr>)" for u x v
    using SyncDirectory_effect by fastforce
  show ?thesis
    using assms unfolding aof_new_def open_log_def
    by (cases "w_name w")
      (auto simp: iobind_Done Let_def create_file_def aof_inv_def log_data_def dest!: sc sd)
qed

lemma aof_start_inv [simp]: "aof_inv (aof_start a) w = aof_inv a w" "aof_inv (aof_stop a) w = aof_inv a w"
  by (simp_all add: aof_inv_def aof_start_def aof_stop_def log_data_def)

lemma WriteMutations_healthy:
  "encoded ms bss \<Longrightarrow> healthy (length (concat bss) + k) (w_script w) \<Longrightarrow>
     \<exists>w'. WriteMutations fd ms w = (Done (), w') \<and> healthy k (w_script w')"
proof (induction ms bss arbitrary: w rule: list_all2_induct)
  case (Cons m ms b bss)
  then have "healthy (length b + (length (concat bss) + k)) (w_script w)"
    by (simp add: ac_simps)
  then obtain u where "WriteExact fd b w = (Done (), u)" and "healthy (length (concat bss) + k) (w_script u)"
    using WriteExact_healthy by blast
  with Cons.IH [of u] Cons.hyps(1) show ?case
    by auto
qed simp

lemma logBatch_progress:
  assumes "aof_inv a w" and "a_started a" and "\<not> a_failed a" and "encoded ms bss" and "length ms \<le> BATCH_LIMIT"
    and "a_bytes a + length (concat bss) \<le> a_max_bytes a" and "healthy (length (concat bss) + 1) (w_script w)"
  shows "fst (logBatch ms a w) = Done ()"
proof (cases "ms = []")
  case False
  obtain n where n: "Size ms = Inr n"
    using SizeFrom_encoded [OF assms(4), of 0] by (simp add: Size_def)
  then obtain bss' where "encoded ms bss'" and "n = length (concat bss')"
    using assms(5) by (elim Size_exact)
  moreover have "bss' = bss"
    using calculation(1) assms(4) by (rule encoded_unique)
  ultimately have len: "\<not> n > a_max_bytes a - a_bytes a"
    using assms(6) by simp
  obtain u where u: "WriteMutations (a_fd a) ms w = (Done (), u)" and "healthy (Suc 0) (w_script u)"
    using WriteMutations_healthy [OF assms(4,7), of "a_fd a"] by auto
  then obtain us w' where "Sync (File (a_fd a)) u = (Done us, w')"
    using Sync_healthy [of 0 u] by blast
  with u have "iobind (WriteMutations (a_fd a) ms) (\<lambda>_. Sync (File (a_fd a))) w = (Done us, w')"
    by simp
  with False assms(2,3) n len show ?thesis
    by (simp add: logBatch_def aof_inv_room [OF assms(1)] Let_def)
qed (simp add: logBatch_def)

section \<open>Runs of a logger\<close>

text \<open>
  The states a logger and its disk can be in between two method calls: any methods in any
  order, with any outcomes of the system calls. \<open>reads\<close> covers replay and the outcomes still
  to come, which are not known in advance.
\<close>

inductive logger_reachable :: "aof \<Rightarrow> world \<Rightarrow> bool" where
  opened: "aof_new m w = (Done a, w') \<Longrightarrow> m < sz_mod \<Longrightarrow> (\<forall>i. w_name w = Some i \<longrightarrow> i < w_next w) \<Longrightarrow> logger_reachable a w'"
| started: "logger_reachable a w \<Longrightarrow> logger_reachable (aof_start a) w"
| stopped: "logger_reachable a w \<Longrightarrow> logger_reachable (aof_stop a) w"
| batch: "logger_reachable a w \<Longrightarrow> length ms \<le> BATCH_LIMIT \<Longrightarrow> logBatch ms a w = (r, a', w') \<Longrightarrow> r \<noteq> Halted \<Longrightarrow>
    logger_reachable a' w'"
| rewritten: "logger_reachable a w \<Longrightarrow> length ms \<le> BATCH_LIMIT \<Longrightarrow> rewrite ms a w = (r, a', w') \<Longrightarrow> r \<noteq> Halted \<Longrightarrow>
    logger_reachable a' w'"
| reads: "logger_reachable a w \<Longrightarrow> same_disk w w' \<Longrightarrow> logger_reachable a w'"

lemma reachable_inv: "logger_reachable a w \<Longrightarrow> aof_inv a w"
proof (induction rule: logger_reachable.induct)
  case (opened m w a w')
  then show ?case
    by (blast dest: aof_new_inv)
next
  case (reads a w w')
  then show ?case
    by (simp add: aof_inv_def log_data_def same_disk_def)
qed (auto intro: logBatch_inv rewrite_inv)

text \<open>
  In every state a logger can reach, \<open>bytes_\<close> is at most \<open>max_bytes_\<close> and
  \<open>rewritten_at_\<close> at most \<open>bytes_\<close>, so no subtraction in \<open>needsRewrite\<close> or \<open>logBatch\<close>
  wraps around; the log file is never larger than \<open>max_bytes_\<close>; and while the logger has not
  failed, \<open>bytes_\<close> is the length of the file and the log's name is durably bound to it.
\<close>
lemma reachable_logger_bounds:
  assumes "logger_reachable a w"
  shows "sz_sub (a_max_bytes a) (a_bytes a) + a_bytes a = a_max_bytes a \<and>
    sz_sub (a_bytes a) (a_rewritten_at a) + a_rewritten_at a = a_bytes a \<and>
    length (log_data a w) \<le> a_max_bytes a \<and>
    (a_failed a \<or> a_bytes a = length (log_data a w) \<and> w_name w = Some (a_fd a) \<and> w_name_synced w = Some (a_fd a))"
  using reachable_inv [OF assms] aof_inv_room [of a w] aof_inv_growth [of a w] by (auto simp: aof_inv_def)

lemma aof_example_inv:
  "length bs \<le> 1000 \<Longrightarrow> aof_inv (aof_example (length bs) 1000 started) (world_example bs rs)"
  by (simp add: aof_inv_def aof_example_def world_example_def log_data_def sz_mod_def)

lemma aof_new_example:
  "aof_new 1000 (world_example [] (replicate 7 (Sys_ok 1))) = (Done (aof_example 0 1000 False), world_example [] [])"
  by (simp add: aof_new_def open_log_def SyncDirectory_def iobind_def sys_call_def world_example_def aof_example_def
      Sync.simps Let_def numeral_eq_Suc)

lemma reachable_example: "logger_reachable (aof_example 0 1000 True) (world_example [] rs)"
proof -
  have "logger_reachable (aof_example 0 1000 False) (world_example [] [])"
    using aof_new_example by (rule logger_reachable.opened) (simp_all add: sz_mod_def world_example_def)
  then have "logger_reachable (aof_start (aof_example 0 1000 False)) (world_example [] [])"
    by (rule logger_reachable.started)
  then show ?thesis
    by (intro logger_reachable.reads [of _ "world_example [] []" "world_example [] rs"])
      (simp_all add: aof_start_def aof_example_def same_disk_def world_example_def)
qed

lemma log_example_encoded:
  obtains bss where "encoded log_example bss" and "length (concat bss) = 52"
proof -
  let ?m = "hd log_example" and ?n = "log_example ! 1"
  obtain b1 b2 where b: "Encode ?m = Inr b1" "Encode ?n = Inr b2"
    using Encode_ok_iff [of ?m] Encode_ok_iff [of ?n] by (auto simp: log_example_def loggable_def limit_defs)
  then have "length b1 = 27" "length b2 = 25"
    using length_Encode by (simp_all add: log_example_def)
  with b show thesis
    by (intro that [of "[b1, b2]"]) (simp_all add: log_example_def)
qed

lemma batch_example:
  "\<exists>a w. logBatch log_example (aof_example 0 1000 True) (world_example [] (replicate 53 (Sys_ok 9))) = (Done (), a, w)"
proof -
  obtain bss where "encoded log_example bss" and "length (concat bss) = 52"
    by (rule log_example_encoded)
  then have "fst (logBatch log_example (aof_example 0 1000 True) (world_example [] (replicate 53 (Sys_ok 9)))) = Done ()"
    using aof_example_inv [of "[]" True "replicate 53 (Sys_ok 9)"]
    by (intro logBatch_progress [of _ _ _ bss])
      (auto simp: aof_example_def world_example_def log_example_def BATCH_LIMIT_def healthy_def)
  then show ?thesis
    by (metis prod.collapse)
qed

theorem acked_batch_survives_crash_witness:
  "\<exists>a w bss. logBatch log_example (aof_example 0 1000 True) (world_example [] (replicate 53 (Sys_ok 9))) = (Done (), a, w) \<and>
     list_all2 is_record log_example bss \<and> prefix (concat bss) (durable (w_files w (a_fd a)))"
proof -
  let ?a = "aof_example 0 1000 True" and ?w = "world_example [] (replicate 53 (Sys_ok 9))"
  obtain a w where lb: "logBatch log_example ?a ?w = (Done (), a, w)"
    using batch_example by blast
  have inv: "aof_inv ?a ?w" and len: "length log_example \<le> BATCH_LIMIT" and ne: "log_example \<noteq> []"
    using aof_example_inv [of "[]" True] by (simp_all add: log_example_def BATCH_LIMIT_def)
  have "w_name w = Some (a_fd a)"
    using logBatch_inv [OF lb inv len] by (simp add: aof_inv_def)
  then have "crash_image w (durable (w_files w (a_fd a)))"
    by (simp add: crash_image_def)
  from acked_batch_survives_crash [OF inv len ne lb this] lb show ?thesis
    by (auto simp: log_data_def aof_example_def world_example_def)
qed

text \<open>The disk fails after three bytes of the batch.\<close>

lemma torn_example:
  "\<exists>b1. Encode (hd log_example) = Inr b1 \<and> length b1 = 27 \<and>
     logBatch [hd log_example] (aof_example 0 1000 True) (world_example [] [Sys_ok 3, Sys_err]) =
       (Throws (Runtime_error ''AOF write failed''), (aof_example 0 1000 True)\<lparr>a_failed := True\<rparr>,
        append_file 0 (take 3 b1) (world_example [] []))"
proof -
  let ?w = "world_example [] [Sys_ok 3, Sys_err]"
  obtain b1 where b1: "Encode (hd log_example) = Inr b1" and len: "length b1 = 27"
    using log_example_records by metis
  have "WriteExact 0 b1 ?w = WriteLoop 0 b1 3 (append_file 0 (take 3 b1) (world_example [] [Sys_err]))"
    using len WriteLoop_steps(5) [of 0 b1 ?w 2 "[Sys_err]" 0]
    by (simp add: WriteExact_def world_example_def numeral_3_eq_3)
  also have "\<dots> = (Throws (Runtime_error ''AOF write failed''), append_file 0 (take 3 b1) (world_example [] []))"
    using len by (subst WriteLoop_steps(4) [where rs = "[]"]) (simp_all add: append_file_def world_example_def)
  finally have "iobind (WriteMutations 0 [hd log_example]) (\<lambda>_. Sync (File 0)) ?w =
      (Throws (Runtime_error ''AOF write failed''), append_file 0 (take 3 b1) (world_example [] []))"
    using b1 by (simp add: iobind_def)
  moreover have "Size [hd log_example] = Inr 27"
    using b1 len by (simp add: Size_def sz_add_exact sz_mod_def)
  ultimately show ?thesis
    using b1 len by (simp add: logBatch_def aof_example_def sz_sub_exact sz_mod_def)
qed

text \<open>
  A failed logger stays failed: when a batch throws after some of its bytes may have
  reached the file, the logger refuses every later batch and every rewrite without touching
  the disk, so nothing is ever appended behind a torn record.
\<close>
lemma torn_logger_refuses:
  assumes "aof_inv a w" and "length ms \<le> BATCH_LIMIT" and "logBatch ms a w = (Throws e, a', w')"
    and "log_data a' w' \<noteq> log_data a w" and "ms' \<noteq> []"
  shows "logBatch ms' a' u = (Throws (Runtime_error ''AOF unavailable''), a', u) \<and>
    rewrite ms' a' u = (Throws (Runtime_error ''AOF unavailable''), a', u)"
  using assms(3,1,2)
proof (cases rule: logBatch_cases)
  case (torn bss bs rs)
  with assms(5) show ?thesis
    by (auto simp: logBatch_def rewrite_def)
qed (use assms(4) in auto)

theorem rewrite_crash_atomic_witness:
  "fst (rewrite [hd log_example] (aof_example 2 1000 True) (world_example [9, 9] [Sys_ok 1, Sys_ok 1])) = Halted \<and>
   crash_image (snd (snd (rewrite [hd log_example] (aof_example 2 1000 True) (world_example [9, 9] [Sys_ok 1, Sys_ok 1])))) [9, 9, 5] \<and>
   prefix (durable (w_files (world_example [9, 9] [Sys_ok 1, Sys_ok 1]) 0)) [9, 9, 5]"
proof -
  let ?a = "aof_example 2 1000 True" and ?w = "world_example [9, 9] [Sys_ok 1, Sys_ok 1]"
  obtain b1 where b1: "Encode (hd log_example) = Inr b1" and len1: "length b1 = 27"
    using log_example_records by metis
  have inv: "aof_inv ?a ?w" and len: "length [hd log_example] \<le> BATCH_LIMIT" and nf: "\<not> a_failed ?a"
    using aof_example_inv [of "[9, 9]" True] by (simp_all add: BATCH_LIMIT_def aof_example_def numeral_2_eq_2)
  obtain r a' w' where rw: "rewrite [hd log_example] ?a ?w = (r, a', w')"
    by (metis prod.collapse)
  have "Size [hd log_example] = Inr 27"
    using b1 len1 by (simp add: Size_def sz_add_exact sz_mod_def)
  moreover have "WriteExact i b1 v = (Halted, v)" if "w_script v = []" for i v
    using len1 that by (auto simp: WriteExact_def WriteLoop_steps)
  ultimately have "rewrite [hd log_example] ?a ?w = (Halted, ?a, ?w\<lparr>w_script := [],
      w_files := (w_files ?w)(1 := \<lparr>f_data = [], f_synced = 0\<rparr>), w_next := 2\<rparr>)"
    using b1 by (simp add: rewrite_def aof_example_def make_temp_def publish_def iobind_def sys_call_def create_file_def
        world_example_def)
  with rw have r: "r = Halted" and ci: "crash_image w' [9, 9, 5]"
    by (auto simp: crash_image_def world_example_def durable_def)
  from rewrite_crash_atomic [OF inv len nf rw ci] r ci rw show ?thesis
    by (auto simp: aof_example_def world_example_def durable_def)
qed

end
