(* ===== verification/Example_Encoding.thy ===== *)
theory Example_Encoding
  imports Prelude
begin

text \<open>
  Integers and byte strings with a length in front, and their parsers. The generated protocol
  buffer classes are parameters of the development; the concrete codecs that show their
  assumptions to be satisfiable are built from these.
\<close>

fun nlen :: "nat \<Rightarrow> nat" where
  "nlen n = (if n = 0 then 0 else Suc (nlen (n div 256)))"

declare nlen.simps [simp del]

definition ser_nat :: "nat \<Rightarrow> bytes" where
  "ser_nat n = of_nat (nlen n) # be_bytes (nlen n) (of_nat n :: 64 word)"

definition parse_nat :: "bytes \<Rightarrow> (nat \<times> bytes) option" where
  "parse_nat bs = (case bs of [] \<Rightarrow> None
     | l # r \<Rightarrow> if length r < unat l \<or> 8 < unat l then None
               else Some (unat (be_val (take (unat l) r) :: 64 word), drop (unat l) r))"

definition ser_bytes :: "bytes \<Rightarrow> bytes" where
  "ser_bytes s = ser_nat (length s) @ s"

definition parse_bytes :: "bytes \<Rightarrow> (bytes \<times> bytes) option" where
  "parse_bytes bs =
     (case parse_nat bs of None \<Rightarrow> None
      | Some (n, r) \<Rightarrow> if length r < n then None else Some (take n r, drop n r))"

lemma nlen_bound: "n < 256 ^ nlen n"
proof (induction n rule: nlen.induct)
  case (1 n)
  show ?case
  proof (cases "n = 0")
    case False
    then have "n div 256 < 256 ^ nlen (n div 256)"
      using 1 by simp
    then have "n < 256 * 256 ^ nlen (n div 256)"
      by (simp add: div_less_iff_less_mult mult.commute)
    with False show ?thesis
      by (simp add: nlen.simps [of n])
  qed (simp add: nlen.simps)
qed

lemma nlen_le: "n < 256 ^ k \<Longrightarrow> nlen n \<le> k"
proof (induction k arbitrary: n)
  case (Suc k)
  then have "n div 256 < 256 ^ k"
    by (simp add: div_less_iff_less_mult mult.commute)
  with Suc.IH show ?case
    by (simp add: nlen.simps [of n])
qed (simp add: nlen.simps)

lemma nlen_64: "n < 2 ^ 64 \<Longrightarrow> nlen n \<le> 8"
  by (rule nlen_le) simp

lemma parse_ser_nat:
  assumes "n < 2 ^ 64"
  shows "parse_nat (ser_nat n @ r) = Some (n, r)"
proof -
  have l: "unat (of_nat (nlen n) :: byte) = nlen n"
    using nlen_64 [OF assms] by (simp add: unat_of_nat)
  have "n < 2 ^ (8 * nlen n)"
    using nlen_bound [of n] by (simp add: power_mult)
  then have "unat (be_val (be_bytes (nlen n) (of_nat n :: 64 word)) :: 64 word) = n"
    using assms by (simp add: be_val_be_bytes_take_bit unsigned_take_bit_eq unat_of_nat take_bit_nat_eq_self)
  with l nlen_64 [OF assms] show ?thesis
    by (simp add: parse_nat_def ser_nat_def)
qed

lemma parse_nat_less: "parse_nat bs = Some (n, r) \<Longrightarrow> n < 2 ^ 64"
  using unsigned_less [where 'a = nat and 'b = 64] by (auto simp: parse_nat_def split: list.splits if_splits)

lemma parse_ser_bytes: "length s < 2 ^ 64 \<Longrightarrow> parse_bytes (ser_bytes s @ r) = Some (s, r)"
  by (simp add: parse_bytes_def ser_bytes_def parse_ser_nat)

lemma length_ser_bytes: "length s < length (ser_bytes s)"
  by (simp add: ser_bytes_def ser_nat_def)

lemma length_ser_nat: "0 < length (ser_nat n)" "n < 2 ^ 64 \<Longrightarrow> length (ser_nat n) \<le> 9"
  using nlen_64 [of n] by (simp_all add: ser_nat_def)

end
