(* ===== verification/Server_Types.thy ===== *)
theory Server_Types
  imports Prelude
begin

text \<open>
  The types of \<open>include/kvrpc/tcp_server.h\<close> that the server shares with its handlers: the reply
  to a request and the resource options.
\<close>

record reply =
  rp_consumed :: nat
  rp_bytes :: bytes
  rp_close :: bool

definition default_reply :: reply where
  "default_reply = \<lparr>rp_consumed = 0, rp_bytes = [], rp_close = False\<rparr>"

text \<open>\<open>so_idle_timeout\<close> is the number of milliseconds, of a signed type.\<close>

record server_options =
  so_io_threads :: nat
  so_workers :: nat
  so_queue_capacity :: nat
  so_queue_bytes :: nat
  so_output_bytes :: nat
  so_pipeline :: nat
  so_idle_timeout :: int

definition default_options :: server_options where
  "default_options = \<lparr>so_io_threads = 2, so_workers = 4, so_queue_capacity = 1024, so_queue_bytes = 64 * 1024 * 1024,
     so_output_bytes = 8 * 1024 * 1024, so_pipeline = 16, so_idle_timeout = 30000\<rparr>"

end
