(* ===== verification/Cache_Service.thy ===== *)
theory Cache_Service
  imports Sharded_Cache Aof_Durability Example_Encoding Server_Types
begin

text \<open>
  \<open>CacheService\<close> of \<open>KVCache/include/cache_service.h\<close>: the request handler that ties the
  sharded cache to the append-only log. One call of \<open>HandleBatch\<close> validates a batch of
  frames, compacts the log if it must, appends the batch's mutations with one \<open>fsync\<close>, and
  only then applies the requests to the cache and builds the replies.

  The protobuf message \<open>CacheValue\<close> is generated code: its parser and serializer are an
  argument (\<open>codec\<close>) of the definitions that use them. The wall clock is an argument too:
  \<open>tv i\<close> and \<open>ta i\<close> are its readings while the \<open>i\<close>-th request is validated and applied,
  \<open>tc\<close> during a compaction.
\<close>

section \<open>The generated message\<close>

text \<open>\<open>cv_unknown\<close> holds the fields the schema does not know, which protobuf keeps.\<close>

record cache_value =
  cv_found :: bool
  cv_value :: bytes
  cv_expires :: nat
  cv_ttl :: nat
  cv_unknown :: bytes

record codec =
  cd_parse :: "bytes \<Rightarrow> cache_value option"
  cd_ser :: "cache_value \<Rightarrow> bytes"

definition cv_empty :: cache_value where
  "cv_empty = \<lparr>cv_found = False, cv_value = [], cv_expires = 0, cv_ttl = 0, cv_unknown = []\<rparr>"

section \<open>State\<close>

record request =
  rq_command :: command
  rq_key :: bytes
  rq_value :: bytes
  rq_expires :: nat

record service =
  sv_cache :: sharded
  sv_aof :: aof
  sv_failed :: bool
  sv_metrics :: "(nat \<Rightarrow> bytes) option"

section \<open>Validation\<close>

datatype verdict = Incomplete | Valid request nat "mutation list"

definition MAX_TTL :: nat where
  "MAX_TTL = 315360000000"

text \<open>The body of the \<open>try\<close> block for one input; \<open>continue\<close> is \<open>Incomplete\<close>.\<close>

definition check_request :: "(bytes \<Rightarrow> nat) \<Rightarrow> codec \<Rightarrow> nat \<Rightarrow> sharded \<Rightarrow> bytes \<Rightarrow> verdict result" where
  "check_request hash cd now cache data =
     (if length data < HEADER_SIZE then Inr Incomplete
      else let h = decodeHeader data; command = command_of (h_command h) in
        rbind (validate h) (\<lambda>_.
        rbind (throw_if ((command \<noteq> SET \<and> command \<noteq> SET_TTL \<and> h_value_len h \<noteq> 0) \<or> (command = STATS \<and> h_key_len h \<noteq> 0))
                 (Runtime_error ''Invalid request body for command'')) (\<lambda>_.
        if length data < frame_total h then Inr Incomplete
        else let key = frame_key h data; value = frame_value h data in
          if command = SET_TTL
          then (case cd_parse cd value of
              None \<Rightarrow> Inl (Runtime_error ''Invalid TTL request'')
            | Some item \<Rightarrow>
                if cv_ttl item = 0 \<or> cv_ttl item > MAX_TTL then Inl (Runtime_error ''Invalid TTL request'')
                else let expires = sz_add now (cv_ttl item) in
                  if length (cv_value item) > MAX_VALUE_SIZE \<or> \<not> sharded_canStore hash key (cv_value item) cache
                  then Inl (Runtime_error ''Entry exceeds byte limit'')
                  else Inr (Valid \<lparr>rq_command = command, rq_key = key, rq_value = cv_value item, rq_expires = expires\<rparr>
                             (frame_total h)
                             [\<lparr>m_command = command, m_key = key,
                               m_value = cd_ser cd (item\<lparr>cv_ttl := 0, cv_expires := expires\<rparr>)\<rparr>]))
          else if command = SET \<and> (length value > MAX_VALUE_SIZE \<or> \<not> sharded_canStore hash key value cache)
          then Inl (Runtime_error ''Entry exceeds byte limit'')
          else Inr (Valid \<lparr>rq_command = command, rq_key = key, rq_value = value, rq_expires = 0\<rparr> (frame_total h)
                     (if command = SET \<or> command = DEL
                      then [\<lparr>m_command = command, m_key = key, m_value = value\<rparr>] else [])))))"

definition default_request :: request where
  "default_request = \<lparr>rq_command = GET, rq_key = [], rq_value = [], rq_expires = 0\<rparr>"

fun validate_inputs ::
  "(bytes \<Rightarrow> nat) \<Rightarrow> codec \<Rightarrow> (nat \<Rightarrow> nat) \<Rightarrow> sharded \<Rightarrow> nat \<Rightarrow> bytes list \<Rightarrow> ((request \<times> reply) list \<times> mutation list) result" where
  "validate_inputs hash cd tv cache i [] = Inr ([], [])"
| "validate_inputs hash cd tv cache i (data # inputs) =
     (case check_request hash cd (tv i) cache data of
         Inl e \<Rightarrow>
           if is_runtime_error e
           then rbind (validate_inputs hash cd tv cache (Suc i) inputs)
                  (\<lambda>(rs, ms). Inr ((default_request, default_reply\<lparr>rp_close := True\<rparr>) # rs, ms))
           else Inl e
       | Inr Incomplete \<Rightarrow>
           rbind (validate_inputs hash cd tv cache (Suc i) inputs)
             (\<lambda>(rs, ms). Inr ((default_request, default_reply) # rs, ms))
       | Inr (Valid request n mutations) \<Rightarrow>
           rbind (validate_inputs hash cd tv cache (Suc i) inputs)
             (\<lambda>(rs, ms). Inr ((request, default_reply\<lparr>rp_consumed := n\<rparr>) # rs, mutations @ ms)))"

section \<open>Compaction\<close>

definition snapshot_mutation :: "codec \<Rightarrow> entry \<Rightarrow> mutation" where
  "snapshot_mutation cd e =
     (if e_expires e \<noteq> 0
      then \<lparr>m_command = SET_TTL, m_key = e_key e,
            m_value = cd_ser cd (cv_empty\<lparr>cv_value := e_value e, cv_expires := e_expires e\<rparr>)\<rparr>
      else \<lparr>m_command = SET, m_key = e_key e, m_value = e_value e\<rparr>)"

definition CompactLocked :: "codec \<Rightarrow> nat \<Rightarrow> service \<Rightarrow> world \<Rightarrow> unit io \<times> service \<times> world" where
  "CompactLocked cd now sv w =
     (let (r, a, w') = rewrite (map (snapshot_mutation cd) (sharded_snapshot now (sv_cache sv))) (sv_aof sv) w
      in (r, sv\<lparr>sv_aof := a\<rparr>, w'))"

definition Compact :: "codec \<Rightarrow> nat \<Rightarrow> service \<Rightarrow> world \<Rightarrow> unit io \<times> service \<times> world" where
  "Compact cd now sv w = CompactLocked cd now sv w"

section \<open>Serving\<close>

text \<open>\<open>std::to_string\<close>.\<close>

function dec :: "nat \<Rightarrow> bytes" where
  "dec n = (if n < 10 then [48 + of_nat n] else dec (n div 10) @ [48 + of_nat (n mod 10)])"
  by pat_completeness auto
termination
  by (relation "measure id") auto

declare dec.simps [simp del]

definition stats_text :: "lru_stats \<Rightarrow> aof_stats \<Rightarrow> bytes" where
  "stats_text stats disk =
     chars ''Hits: '' @ dec (s_hits stats) @ chars '', Misses: '' @ dec (s_misses stats) @
     chars '', AOF records: '' @ dec (as_records disk) @ chars '', AOF syncs: '' @ dec (as_syncs disk) @
     chars '', AOF bytes: '' @ dec (as_bytes disk) @ chars '', Cache bytes: '' @ dec (s_bytes stats) @
     chars '', Evictions: '' @ dec (s_evictions stats) @ chars '', AOF rewrites: '' @ dec (as_rewrites disk) @
     chars '', AOF sync us: '' @ dec (as_sync_us disk)"

definition serve ::
  "(bytes \<Rightarrow> nat) \<Rightarrow> codec \<Rightarrow> nat \<Rightarrow> aof_stats \<Rightarrow> bytes option \<Rightarrow> request \<Rightarrow> sharded \<Rightarrow> bytes result \<times> sharded" where
  "serve hash cd now disk metrics request cache =
     (let (response, cache') =
        (if rq_command request = SET \<or> rq_command request = SET_TTL
         then let (r, c) = sharded_put hash now (rq_key request) (rq_value request) (rq_expires request) cache
              in (rbind r (\<lambda>_. Inr []), c)
         else if rq_command request = DEL then (Inr [], snd (sharded_remove hash (rq_key request) cache))
         else if rq_command request = GET
         then let (v, c) = sharded_get hash now (rq_key request) cache in (Inr (case v of None \<Rightarrow> [] | Some x \<Rightarrow> x), c)
         else if rq_command request = LOOKUP
         then let (v, c) = sharded_get hash now (rq_key request) cache
              in (Inr (cd_ser cd (case v of
                        None \<Rightarrow> cv_empty\<lparr>cv_found := False\<rparr>
                      | Some x \<Rightarrow> cv_empty\<lparr>cv_found := True, cv_value := x\<rparr>)), c)
         else (Inr (stats_text (sharded_getStats cache) disk), cache))
      in (rbind response (\<lambda>text.
            encode (rq_command request) (rq_key request)
              (text @ (case metrics of Some m \<Rightarrow> if rq_command request = STATS then m else [] | None \<Rightarrow> []))),
          cache'))"

fun serve_all ::
  "(bytes \<Rightarrow> nat) \<Rightarrow> codec \<Rightarrow> (nat \<Rightarrow> nat) \<Rightarrow> aof_stats \<Rightarrow> (nat \<Rightarrow> bytes) option \<Rightarrow> nat \<Rightarrow> (request \<times> reply) list \<Rightarrow>
   sharded \<Rightarrow> reply list result \<times> sharded" where
  "serve_all hash cd ta disk metrics i [] cache = (Inr [], cache)"
| "serve_all hash cd ta disk metrics i ((request, reply) # rs) cache =
     (if rp_consumed reply = 0 \<or> rp_close reply
      then let (r, c) = serve_all hash cd ta disk metrics (Suc i) rs cache in (rbind r (\<lambda>replies. Inr (reply # replies)), c)
      else case serve hash cd (ta i) disk (map_option (\<lambda>f. f i) metrics) request cache of
          (Inl e, c) \<Rightarrow> (Inl e, c)
        | (Inr bs, c) \<Rightarrow>
            (let (r, c') = serve_all hash cd ta disk metrics (Suc i) rs c
             in (rbind r (\<lambda>replies. Inr (reply\<lparr>rp_bytes := bs\<rparr> # replies)), c')))"

text \<open>The second \<open>try\<close> block of \<open>HandleBatch\<close>, without its handlers.\<close>

definition commit_batch ::
  "(bytes \<Rightarrow> nat) \<Rightarrow> codec \<Rightarrow> nat \<Rightarrow> (nat \<Rightarrow> nat) \<Rightarrow> (request \<times> reply) list \<Rightarrow> mutation list \<Rightarrow> service \<Rightarrow> world \<Rightarrow>
   reply list io \<times> service \<times> world" where
  "commit_batch hash cd tc ta rs ms sv w =
     (case needsRewrite ms (sv_aof sv) of
         Inl e \<Rightarrow> (Throws e, sv, w)
       | Inr needed \<Rightarrow>
           (case (if needed then CompactLocked cd tc sv w else (Done (), sv, w)) of
               (Halted, sv1, w1) \<Rightarrow> (Halted, sv1, w1)
             | (Throws e, sv1, w1) \<Rightarrow> (Throws e, sv1, w1)
             | (Done _, sv1, w1) \<Rightarrow>
                 (case logBatch ms (sv_aof sv1) w1 of
                     (Halted, a, w2) \<Rightarrow> (Halted, sv1\<lparr>sv_aof := a\<rparr>, w2)
                   | (Throws e, a, w2) \<Rightarrow> (Throws e, sv1\<lparr>sv_aof := a\<rparr>, w2)
                   | (Done _, a, w2) \<Rightarrow>
                       (let (r, c) = serve_all hash cd ta (aof_getStats a) (sv_metrics sv1) 0 rs (sv_cache sv1);
                            sv2 = sv1\<lparr>sv_aof := a, sv_cache := c\<rparr>
                        in (case r of Inl e \<Rightarrow> (Throws e, sv2, w2) | Inr replies \<Rightarrow> (Done replies, sv2, w2))))))"

fun is_capacity_error :: "exn \<Rightarrow> bool" where
  "is_capacity_error (Aof_capacity_error _) = True"
| "is_capacity_error _ = False"

definition HandleBatch ::
  "(bytes \<Rightarrow> nat) \<Rightarrow> codec \<Rightarrow> (nat \<Rightarrow> nat) \<Rightarrow> nat \<Rightarrow> (nat \<Rightarrow> nat) \<Rightarrow> bytes list \<Rightarrow> service \<Rightarrow> world \<Rightarrow>
   reply list io \<times> service \<times> world" where
  "HandleBatch hash cd tv tc ta inputs sv w =
     (if sv_failed sv
      then (Throws (Runtime_error ''Storage is unavailable; restart after resolving the failure''), sv, w)
      else case validate_inputs hash cd tv (sv_cache sv) 0 inputs of
          Inl e \<Rightarrow> (Throws e, sv, w)
        | Inr (rs, ms) \<Rightarrow>
            (case commit_batch hash cd tc ta rs ms sv w of
                (Throws e, sv', w') \<Rightarrow> (Throws e, if is_capacity_error e then sv' else sv'\<lparr>sv_failed := True\<rparr>, w')
              | other \<Rightarrow> other))"

definition Handle ::
  "(bytes \<Rightarrow> nat) \<Rightarrow> codec \<Rightarrow> nat \<Rightarrow> nat \<Rightarrow> nat \<Rightarrow> bytes \<Rightarrow> service \<Rightarrow> world \<Rightarrow> (bytes \<times> nat) io \<times> service \<times> world" where
  "Handle hash cd tv tc ta data sv w =
     (case HandleBatch hash cd (\<lambda>_. tv) tc (\<lambda>_. ta) [data] sv w of
         (Halted, sv', w') \<Rightarrow> (Halted, sv', w')
       | (Throws e, sv', w') \<Rightarrow> (Throws e, sv', w')
       | (Done replies, sv', w') \<Rightarrow>
           (let reply = hd replies in
            if rp_close reply then (Throws (Runtime_error ''Invalid request or unavailable storage''), sv', w')
            else (Done (rp_bytes reply, rp_consumed reply), sv', w')))"

definition SetTransportMetrics :: "(nat \<Rightarrow> bytes) option \<Rightarrow> service \<Rightarrow> service" where
  "SetTransportMetrics callback sv = sv\<lparr>sv_metrics := callback\<rparr>"

section \<open>Construction\<close>

definition replay_callback :: "(bytes \<Rightarrow> nat) \<Rightarrow> codec \<Rightarrow> nat \<Rightarrow> sharded callback" where
  "replay_callback hash cd now m cache =
     (if m_command m = SET then sharded_put hash now (m_key m) (m_value m) 0 cache
      else if m_command m = SET_TTL
      then (case cd_parse cd (m_value m) of
          None \<Rightarrow> (Inl (Runtime_error ''Invalid TTL log record''), cache)
        | Some item \<Rightarrow>
            if cv_expires item = 0 then (Inl (Runtime_error ''Invalid TTL log record''), cache)
            else sharded_put hash now (m_key m) (cv_value item) (cv_expires item) cache)
      else (Inr (), snd (sharded_remove hash (m_key m) cache)))"

definition service_new ::
  "(bytes \<Rightarrow> nat) \<Rightarrow> codec \<Rightarrow> nat \<Rightarrow> nat \<Rightarrow> nat \<Rightarrow> nat \<Rightarrow> nat \<Rightarrow> world \<Rightarrow> service io \<times> world" where
  "service_new hash cd now capacity shards max_aof_bytes max_cache_bytes =
     iobind (of_result (sharded_new capacity shards max_cache_bytes)) (\<lambda>cache.
     iobind (aof_new max_aof_bytes) (\<lambda>a w.
       (case replay (replay_callback hash cd now) a cache w of
           (Halted, c, w') \<Rightarrow> (Halted, w')
         | (Throws e, c, w') \<Rightarrow> (Throws e, w')
         | (Done _, c, w') \<Rightarrow>
             (Done \<lparr>sv_cache = c, sv_aof = aof_start a, sv_failed = False, sv_metrics = None\<rparr>, w'))))"

section \<open>What is assumed of the generated code\<close>

text \<open>
  Protobuf's documented behaviour: parsing what was serialized gives the message back, with
  the fields the schema does not know; the two integers are 64-bit and a message is smaller
  than 2 GiB; and the four known fields take at most 30 bytes beside the value (one tag byte
  each, a varint of at most ten bytes for an integer and of at most five for a length).
\<close>

definition cv_wf :: "cache_value \<Rightarrow> bool" where
  "cv_wf v \<longleftrightarrow> cv_expires v < 2 ^ 64 \<and> cv_ttl v < 2 ^ 64 \<and> length (cv_value v) + length (cv_unknown v) < 2 ^ 31"

definition codec_ok :: "codec \<Rightarrow> bool" where
  "codec_ok cd \<longleftrightarrow>
     (\<forall>v. cv_wf v \<longrightarrow> cd_parse cd (cd_ser cd v) = Some v) \<and>
     (\<forall>bs v. cd_parse cd bs = Some v \<longrightarrow> cv_wf v) \<and>
     (\<forall>v. cv_wf v \<longrightarrow> length (cd_ser cd v) \<le> length (cv_value v) + length (cv_unknown v) + 30)"

lemma codec_roundtrip: "codec_ok cd \<Longrightarrow> cv_wf v \<Longrightarrow> cd_parse cd (cd_ser cd v) = Some v"
  and codec_wf: "codec_ok cd \<Longrightarrow> cd_parse cd bs = Some v \<Longrightarrow> cv_wf v"
  and codec_length: "codec_ok cd \<Longrightarrow> cv_wf v \<Longrightarrow> length (cd_ser cd v) \<le> length (cv_value v) + length (cv_unknown v) + 30"
  by (simp_all add: codec_ok_def)

subsection \<open>A codec that meets the assumptions\<close>

text \<open>
  Used in the examples only: a flag byte, three integers with a length byte and no leading
  zeros, the unknown fields, the value.
\<close>

definition example_ser :: "cache_value \<Rightarrow> bytes" where
  "example_ser v = (if cv_found v then 1 else 0) # ser_nat (cv_expires v) @ ser_nat (cv_ttl v) @
     ser_nat (length (cv_unknown v)) @ cv_unknown v @ cv_value v"

definition example_parse :: "bytes \<Rightarrow> cache_value option" where
  "example_parse bs =
     (case bs of [] \<Rightarrow> None | f # r \<Rightarrow>
      case parse_nat r of None \<Rightarrow> None | Some (x, r1) \<Rightarrow>
      case parse_nat r1 of None \<Rightarrow> None | Some (t, r2) \<Rightarrow>
      case parse_nat r2 of None \<Rightarrow> None | Some (n, r3) \<Rightarrow>
      if length r3 < n \<or> 2 ^ 31 \<le> length r3 then None
      else Some \<lparr>cv_found = (f = 1), cv_value = drop n r3, cv_expires = x, cv_ttl = t, cv_unknown = take n r3\<rparr>)"

definition example_codec :: codec where
  "example_codec = \<lparr>cd_parse = example_parse, cd_ser = example_ser\<rparr>"

lemma example_codec_ok: "codec_ok example_codec"
  unfolding codec_ok_def
proof (intro conjI allI impI)
  fix v
  assume "cv_wf v"
  then show "cd_parse example_codec (cd_ser example_codec v) = Some v"
    by (simp add: example_codec_def example_parse_def example_ser_def cv_wf_def parse_ser_nat)
next
  fix bs v
  assume "cd_parse example_codec bs = Some v"
  then show "cv_wf v"
    by (auto simp: example_codec_def example_parse_def cv_wf_def split: list.splits option.splits if_splits)
      (insert parse_nat_less, fastforce)+
next
  fix v
  assume "cv_wf v"
  then have "nlen (cv_expires v) \<le> 8" "nlen (cv_ttl v) \<le> 8" "nlen (length (cv_unknown v)) \<le> 8"
    by (simp_all add: cv_wf_def nlen_64)
  then show "length (cd_ser example_codec v) \<le> length (cv_value v) + length (cv_unknown v) + 30"
    by (simp add: example_codec_def example_ser_def ser_nat_def)
qed

section \<open>What validation lets through\<close>

definition request_ok :: "(bytes \<Rightarrow> nat) \<Rightarrow> sharded \<Rightarrow> request \<Rightarrow> bool" where
  "request_ok hash cache q \<longleftrightarrow>
     rq_command q \<noteq> UNKNOWN \<and> length (rq_key q) \<le> MAX_KEY_SIZE \<and> rq_expires q < sz_mod \<and>
     (rq_command q \<in> {SET, SET_TTL} \<longrightarrow>
        length (rq_value q) \<le> MAX_VALUE_SIZE \<and> sharded_canStore hash (rq_key q) (rq_value q) cache)"

text \<open>The mutations a request contributes to the batch.\<close>

definition logged_as :: "codec \<Rightarrow> nat \<Rightarrow> request \<Rightarrow> mutation list \<Rightarrow> bool" where
  "logged_as cd now q ms \<longleftrightarrow>
     (rq_command q = SET \<and> rq_expires q = 0 \<and>
        ms = [\<lparr>m_command = SET, m_key = rq_key q, m_value = rq_value q\<rparr>]) \<or>
     (rq_command q = SET_TTL \<and>
        (\<exists>item. cv_wf item \<and> cv_value item = rq_value q \<and> 0 < cv_ttl item \<and> cv_ttl item \<le> MAX_TTL \<and>
           rq_expires q = sz_add now (cv_ttl item) \<and>
           ms = [\<lparr>m_command = SET_TTL, m_key = rq_key q,
                  m_value = cd_ser cd (item\<lparr>cv_ttl := 0, cv_expires := rq_expires q\<rparr>)\<rparr>])) \<or>
     (rq_command q = DEL \<and> ms = [\<lparr>m_command = DEL, m_key = rq_key q, m_value = []\<rparr>]) \<or>
     (rq_command q \<notin> {SET, SET_TTL, DEL} \<and> ms = [])"

lemma check_request_runtime: "check_request hash cd now cache data = Inl e \<Longrightarrow> is_runtime_error e"
  by (auto simp: check_request_def Let_def validate_def throw_if_def rbind_def split: if_splits option.splits sum.splits)

lemma frame_key_length: "length (frame_key h bs) \<le> unat (h_key_len h)"
  by (simp add: frame_key_def)

lemma check_request_Valid:
  assumes "codec_ok cd" and "check_request hash cd now cache data = Inr (Valid q n ms)"
  shows "request_ok hash cache q \<and> logged_as cd now q ms \<and> 0 < n \<and> n \<le> length data \<and>
    n = frame_total (decodeHeader data) \<and> rq_key q = frame_key (decodeHeader data) data \<and>
    rq_command q = command_of (h_command (decodeHeader data))"
proof -
  define h where "h = decodeHeader data"
  define c where "c = command_of (h_command h)"
  define k where "k = frame_key h data"
  define v where "v = frame_value h data"
  note chk = assms(2) [unfolded check_request_def Let_def, folded h_def, folded c_def k_def v_def]
  have len: "\<not> length data < HEADER_SIZE"
    using chk by (simp split: if_splits)
  have val: "validate h = Inr ()"
    using chk len by simp
  have body: "\<not> ((c \<noteq> SET \<and> c \<noteq> SET_TTL \<and> h_value_len h \<noteq> 0) \<or> (c = STATS \<and> h_key_len h \<noteq> 0))"
    and tot: "\<not> length data < frame_total h"
    using chk len val by (simp_all split: if_splits)
  have pos: "0 < frame_total h"
    by (simp add: frame_total_def HEADER_SIZE_def)
  have key: "length k \<le> MAX_KEY_SIZE"
    using frame_key_length [of h data] validate_okD(5) [OF val] by (simp add: k_def)
  have c: "c \<noteq> UNKNOWN"
    unfolding c_def by (rule command_of_valid [OF val])
  have nov: "h_value_len h = 0 \<Longrightarrow> v = []"
    by (simp add: v_def frame_value_def)
  have "request_ok hash cache q \<and> logged_as cd now q ms \<and> n = frame_total h \<and> rq_key q = k \<and> rq_command q = c"
  proof (cases "c = SET_TTL")
    case True
    with chk len val body tot obtain item where item: "cd_parse cd v = Some item"
      by (cases "cd_parse cd v") simp_all
    moreover from this chk len val tot True have ttl: "\<not> (cv_ttl item = 0 \<or> cv_ttl item > MAX_TTL)"
      by (simp split: if_splits)
    moreover from this calculation chk len val tot True
    have fits: "\<not> (length (cv_value item) > MAX_VALUE_SIZE \<or> \<not> sharded_canStore hash k (cv_value item) cache)"
      by (simp split: if_splits)
    ultimately have "q = \<lparr>rq_command = SET_TTL, rq_key = k, rq_value = cv_value item, rq_expires = sz_add now (cv_ttl item)\<rparr>"
      "n = frame_total h" "ms = [\<lparr>m_command = SET_TTL, m_key = k,
         m_value = cd_ser cd (item\<lparr>cv_ttl := 0, cv_expires := sz_add now (cv_ttl item)\<rparr>)\<rparr>]"
      using chk len val tot True by simp_all
    with ttl fits True key codec_wf [OF assms(1) item] show ?thesis
      by (auto simp: request_ok_def logged_as_def)
  next
    case False
    with chk len val body tot have "\<not> (c = SET \<and> (length v > MAX_VALUE_SIZE \<or> \<not> sharded_canStore hash k v cache))"
      and "q = \<lparr>rq_command = c, rq_key = k, rq_value = v, rq_expires = 0\<rparr>" and "n = frame_total h"
      and "ms = (if c = SET \<or> c = DEL then [\<lparr>m_command = c, m_key = k, m_value = v\<rparr>] else [])"
      by (auto split: if_splits)
    with False body nov c key show ?thesis
      by (auto simp: request_ok_def logged_as_def)
  qed
  with tot pos show ?thesis
    by (simp add: h_def c_def k_def)
qed

text \<open>Validation accounts for every input.\<close>

abbreviation accepted :: "reply \<Rightarrow> bool" where
  "accepted rep \<equiv> rp_consumed rep \<noteq> 0 \<and> \<not> rp_close rep"

fun validated :: "(bytes \<Rightarrow> nat) \<Rightarrow> codec \<Rightarrow> (nat \<Rightarrow> nat) \<Rightarrow> sharded \<Rightarrow> nat \<Rightarrow> (request \<times> reply) list \<Rightarrow> mutation list \<Rightarrow> bool" where
  "validated hash cd tv cache i [] ms \<longleftrightarrow> ms = []"
| "validated hash cd tv cache i ((q, rep) # rs) ms \<longleftrightarrow>
     (if accepted rep
      then \<exists>ms1 ms2. ms = ms1 @ ms2 \<and> request_ok hash cache q \<and> logged_as cd (tv i) q ms1 \<and>
             validated hash cd tv cache (Suc i) rs ms2
      else validated hash cd tv cache (Suc i) rs ms)"

lemma validate_inputs_total:
  assumes "codec_ok cd"
  shows "\<exists>rs ms. validate_inputs hash cd tv cache i inputs = Inr (rs, ms) \<and> length rs = length inputs \<and>
    validated hash cd tv cache i rs ms"
proof (induction inputs arbitrary: i)
  case Nil
  show ?case
    by simp
next
  case (Cons data inputs)
  obtain rs ms where IH: "validate_inputs hash cd tv cache (Suc i) inputs = Inr (rs, ms)" "length rs = length inputs"
    "validated hash cd tv cache (Suc i) rs ms"
    using Cons.IH [of "Suc i"] by blast
  show ?case
  proof (cases "check_request hash cd (tv i) cache data")
    case (Inl e)
    with IH check_request_runtime [OF Inl] show ?thesis
      by (simp add: default_reply_def)
  next
    case (Inr v)
    show ?thesis
    proof (cases v)
      case Incomplete
      with IH Inr show ?thesis
        by (simp add: default_reply_def)
    next
      case (Valid q n ms1)
      with IH Inr check_request_Valid [OF assms, of hash "tv i" cache data q n ms1] show ?thesis
        by (auto simp: default_reply_def)
    qed
  qed
qed

section \<open>Serving a validated batch\<close>

text \<open>What a request does to an unbounded store, and which response the store allows.\<close>

fun req_step :: "request \<Rightarrow> store \<Rightarrow> store" where
  "req_step q m =
     (if rq_command q \<in> {SET, SET_TTL} then m(rq_key q \<mapsto> (rq_value q, rq_expires q))
      else if rq_command q = DEL then m(rq_key q := None) else m)"

definition allowed_response :: "codec \<Rightarrow> nat \<Rightarrow> store \<Rightarrow> request \<Rightarrow> bytes \<Rightarrow> bool" where
  "allowed_response cd now m q text =
     (case rq_command q of
        GET \<Rightarrow> text = [] \<or> (\<exists>x. live_at now (m (rq_key q)) = Some (text, x))
      | LOOKUP \<Rightarrow> text = cd_ser cd cv_empty \<or>
          (\<exists>v x. live_at now (m (rq_key q)) = Some (v, x) \<and> text = cd_ser cd (cv_empty\<lparr>cv_found := True, cv_value := v\<rparr>))
      | STATS \<Rightarrow> True
      | _ \<Rightarrow> text = [])"

definition store_small :: "store \<Rightarrow> bool" where
  "store_small m \<longleftrightarrow> (\<forall>k v x. m k = Some (v, x) \<longrightarrow> length v \<le> MAX_VALUE_SIZE \<and> x < sz_mod)"

lemma store_small_step: "store_small m \<Longrightarrow> request_ok hash c q \<Longrightarrow> store_small (req_step q m)"
  by (auto simp: store_small_def request_ok_def)

text \<open>A statistics text is short: at most twenty digits for each 64-bit counter.\<close>

lemma dec_length: "n < 10 ^ Suc d \<Longrightarrow> length (dec n) \<le> Suc d"
proof (induction d arbitrary: n)
  case 0
  then show ?case
    by (simp add: dec.simps [of n])
next
  case (Suc d)
  then have "n div 10 < 10 ^ Suc d"
    by (simp add: less_mult_imp_div_less ac_simps)
  from Suc.IH [OF this] show ?case
    by (simp add: dec.simps [of n])
qed

lemma dec_length_64: "n < sz_mod \<Longrightarrow> length (dec n) \<le> 20"
  using dec_length [of n 19] by (simp add: sz_mod_def)

definition stats_small :: "aof_stats \<Rightarrow> bool" where
  "stats_small disk \<longleftrightarrow> as_records disk < sz_mod \<and> as_syncs disk < sz_mod \<and> as_bytes disk < sz_mod \<and>
     as_rewrites disk < sz_mod \<and> as_sync_us disk < sz_mod"

lemma add_stats_less [simp]:
  "s_hits (add_stats a b) < sz_mod" "s_misses (add_stats a b) < sz_mod" "s_bytes (add_stats a b) < sz_mod"
  "s_evictions (add_stats a b) < sz_mod"
  by (simp_all add: add_stats_def)

lemma getStats_less:
  "s_hits (sharded_getStats c) < sz_mod" "s_misses (sharded_getStats c) < sz_mod" "s_bytes (sharded_getStats c) < sz_mod"
  "s_evictions (sharded_getStats c) < sz_mod"
  by (cases "sh_shards c" rule: rev_cases; simp add: sharded_getStats_def)+

lemma stats_text_length: "stats_small disk \<Longrightarrow> length (stats_text (sharded_getStats c) disk) \<le> 400"
  using getStats_less [of c, THEN dec_length_64]
  by (auto simp: stats_text_def stats_small_def chars_def dest!: dec_length_64)

text \<open>The metrics callback returns a text of at most 1 MiB.\<close>

definition metrics_small :: "bytes option \<Rightarrow> bool" where
  "metrics_small met \<longleftrightarrow> (\<forall>text. met = Some text \<longrightarrow> length text \<le> MAX_VALUE_SIZE - 400)"

definition metrics_ok :: "(nat \<Rightarrow> bytes) option \<Rightarrow> bool" where
  "metrics_ok metrics \<longleftrightarrow> (\<forall>i. metrics_small (map_option (\<lambda>f. f i) metrics))"

lemma serve_spec:
  assumes "codec_ok cd" and cov: "sc.covered hash now c m" and "now \<le> t" and small: "store_small m"
    and "request_ok hash c q" and "stats_small disk" and "metrics_small met"
  shows "\<exists>text bs c'. serve hash cd t disk met q c = (Inr bs, c') \<and>
      encode (rq_command q) (rq_key q) text = Inr bs \<and> allowed_response cd t m q text \<and>
      sc.covered hash t c' (req_step q m) \<and> (\<forall>k v. sharded_canStore hash k v c' = sharded_canStore hash k v c)"
proof -
  have cov': "sc.covered hash t c m"
    using cov assms(3) by (rule sc.covered_later)
  have inv: "sharded_inv hash c"
    using cov by (rule sc.covered_inv)
  have key: "length (rq_key q) \<le> MAX_KEY_SIZE" and cmd: "rq_command q \<noteq> UNKNOWN"
    using assms(5) by (simp_all add: request_ok_def)
  have enc: "\<exists>bs. encode (rq_command q) (rq_key q) tx = Inr bs" if "length tx \<le> MAX_WIRE_VALUE_SIZE" for tx
    using that key cmd by (simp add: encode_ok_iff)
  have view: "live_at t (m k) = Some (v, x)" "length v \<le> MAX_VALUE_SIZE"
    if "sharded_view hash t c k = Some (v, x)" for k v x
  proof -
    have "m k = Some (v, x)"
      using sc.coveredD [OF cov' order_refl that] .
    moreover have "live_at t (Some (v, x)) = Some (v, x)"
      using sc.view_later [of t t hash c k] that by simp
    ultimately show "live_at t (m k) = Some (v, x)" "length v \<le> MAX_VALUE_SIZE"
      using small by (auto simp: store_small_def)
  qed
  note reply = sc.get_reply [OF inv, of t "rq_key q"]
  have read: "sc.covered hash t (snd (sharded_get hash t (rq_key q) c)) m"
      "\<forall>k v. sharded_canStore hash k v (snd (sharded_get hash t (rq_key q) c)) = sharded_canStore hash k v c"
    using sc.covered_step [OF cov', of "Op_get (rq_key q)"] sc.canStore_get [OF inv] by auto
  consider (put) "rq_command q \<in> {SET, SET_TTL}" | (del) "rq_command q = DEL" | (get) "rq_command q = GET"
    | (lookup) "rq_command q = LOOKUP" | (stats) "rq_command q = STATS"
    using cmd by (cases "rq_command q") auto
  then show ?thesis
  proof cases
    case put
    then have can: "sharded_canStore hash (rq_key q) (rq_value q) c"
      using assms(5) by (simp add: request_ok_def)
    let ?p = "sharded_put hash t (rq_key q) (rq_value q) (rq_expires q) c"
    obtain bs where "encode (rq_command q) (rq_key q) [] = Inr bs"
      using enc [of "[]"] by auto
    moreover have "fst ?p = Inr ()"
      using sc.put_ok [OF inv can] .
    moreover have "sc.covered hash t (snd ?p) (req_step q m)"
      using sc.covered_step [OF cov', of "Op_put (rq_key q) (rq_value q) (rq_expires q)"] can put by auto
    moreover have "\<forall>k v. sharded_canStore hash k v (snd ?p) = sharded_canStore hash k v c"
      using sc.canStore_put [OF inv] by blast
    ultimately show ?thesis
      using put by (auto simp: serve_def allowed_response_def split_beta Let_def split: option.splits)
  next
    case del
    let ?p = "sharded_remove hash (rq_key q) c"
    obtain bs where "encode (rq_command q) (rq_key q) [] = Inr bs"
      using enc [of "[]"] by auto
    moreover have "sc.covered hash t (snd ?p) (req_step q m)"
      using sc.covered_step [OF cov', of "Op_remove (rq_key q)"] del by auto
    moreover have "\<forall>k v. sharded_canStore hash k v (snd ?p) = sharded_canStore hash k v c"
      using sc.canStore_remove [OF inv] by blast
    ultimately show ?thesis
      using del by (auto simp: serve_def allowed_response_def split_beta Let_def split: option.splits)
  next
    case get
    let ?g = "sharded_get hash t (rq_key q) c"
    let ?text = "case fst ?g of None \<Rightarrow> [] | Some x \<Rightarrow> x"
    have len: "length ?text \<le> MAX_WIRE_VALUE_SIZE" and ok: "allowed_response cd t m q ?text"
      using reply view [of "rq_key q"] get
      by (cases "sharded_view hash t c (rq_key q)"; auto simp: allowed_response_def limit_defs)+
    obtain bs where "encode (rq_command q) (rq_key q) ?text = Inr bs"
      using enc [OF len] by blast
    with ok read get show ?thesis
      by (intro exI [of _ ?text] exI [of _ bs] exI [of _ "snd ?g"])
        (auto simp: serve_def split_beta Let_def split: option.splits)
  next
    case lookup
    let ?g = "sharded_get hash t (rq_key q) c"
    let ?text = "cd_ser cd (case fst ?g of None \<Rightarrow> cv_empty\<lparr>cv_found := False\<rparr>
                              | Some x \<Rightarrow> cv_empty\<lparr>cv_found := True, cv_value := x\<rparr>)"
    have len: "length ?text \<le> MAX_WIRE_VALUE_SIZE"
      using reply view(2) [of "rq_key q"]
      by (cases "sharded_view hash t c (rq_key q)")
        (auto simp: cv_empty_def cv_wf_def limit_defs intro!: order_trans [OF codec_length [OF assms(1)]])
    have ok: "allowed_response cd t m q ?text"
      using reply view(1) [of "rq_key q"] lookup
      by (cases "sharded_view hash t c (rq_key q)") (auto simp: allowed_response_def cv_empty_def)
    obtain bs where "encode (rq_command q) (rq_key q) ?text = Inr bs"
      using enc [OF len] by blast
    with ok read lookup show ?thesis
      by (intro exI [of _ ?text] exI [of _ bs] exI [of _ "snd ?g"])
        (auto simp: serve_def split_beta Let_def split: option.splits)
  next
    case stats
    let ?text = "stats_text (sharded_getStats c) disk @ (case met of None \<Rightarrow> [] | Some x \<Rightarrow> x)"
    have "length ?text \<le> MAX_WIRE_VALUE_SIZE"
      using stats_text_length [OF assms(6), of c] assms(7)
      by (cases met) (auto simp: metrics_small_def limit_defs)
    then obtain bs where "encode (rq_command q) (rq_key q) ?text = Inr bs"
      using enc by blast
    with cov' stats show ?thesis
      by (intro exI [of _ ?text] exI [of _ bs] exI [of _ c])
        (auto simp: serve_def allowed_response_def Let_def split: option.splits)
  qed
qed

text \<open>The replies to a batch, compared with the unbounded store.\<close>

fun run_store :: "(request \<times> reply) list \<Rightarrow> store \<Rightarrow> store" where
  "run_store [] m = m"
| "run_store ((q, rep) # rs) m = run_store rs (if accepted rep then req_step q m else m)"

fun served :: "codec \<Rightarrow> (nat \<Rightarrow> nat) \<Rightarrow> nat \<Rightarrow> store \<Rightarrow> (request \<times> reply) list \<Rightarrow> reply list \<Rightarrow> bool" where
  "served cd ta i m [] replies \<longleftrightarrow> replies = []"
| "served cd ta i m ((q, rep) # rs) replies \<longleftrightarrow>
     (case replies of
         [] \<Rightarrow> False
       | rep' # replies' \<Rightarrow>
           if accepted rep
           then (\<exists>text bs. encode (rq_command q) (rq_key q) text = Inr bs \<and> allowed_response cd (ta i) m q text \<and>
                   rep' = rep\<lparr>rp_bytes := bs\<rparr>) \<and> served cd ta (Suc i) (req_step q m) rs replies'
           else rep' = rep \<and> served cd ta (Suc i) m rs replies')"

lemma request_ok_cong:
  "(\<forall>k v. sharded_canStore hash k v c' = sharded_canStore hash k v c) \<Longrightarrow> request_ok hash c' q = request_ok hash c q"
  by (simp add: request_ok_def)

lemma serve_all_spec:
  assumes "codec_ok cd" and "stats_small disk" and "mono ta"
    and "metrics_ok metrics"
    and "sc.covered hash now c m" and "now \<le> ta i" and "store_small m"
    and "\<forall>(q, rep) \<in> set rs. accepted rep \<longrightarrow> request_ok hash c q"
  shows "\<exists>replies c'. serve_all hash cd ta disk metrics i rs c = (Inr replies, c') \<and>
      served cd ta i m rs replies \<and> sc.covered hash (ta (i + length rs)) c' (run_store rs m) \<and>
      store_small (run_store rs m) \<and> (\<forall>k v. sharded_canStore hash k v c' = sharded_canStore hash k v c)"
  using assms(5-8)
proof (induction rs arbitrary: now c m i)
  case Nil
  then show ?case
    using sc.covered_later by fastforce
next
  case (Cons p rs)
  obtain q rep where p: "p = (q, rep)"
    by fastforce
  have step: "ta i \<le> ta (Suc i)"
    using assms(3) by (simp add: monoD)
  show ?case
  proof (cases "accepted rep")
    case True
    have "metrics_small (map_option (\<lambda>f. f i) metrics)"
      using assms(4) by (simp add: metrics_ok_def)
    then obtain tx bs c1 where s1: "serve hash cd (ta i) disk (map_option (\<lambda>f. f i) metrics) q c = (Inr bs, c1)"
      "encode (rq_command q) (rq_key q) tx = Inr bs" "allowed_response cd (ta i) m q tx"
      and cov1: "sc.covered hash (ta i) c1 (req_step q m)"
      and can1: "\<forall>k v. sharded_canStore hash k v c1 = sharded_canStore hash k v c"
      using serve_spec [OF assms(1) Cons.prems(1-3), of q disk] assms(2) Cons.prems(4) True p by force
    have "store_small (req_step q m)"
      using store_small_step Cons.prems(3,4) True p by fastforce
    moreover have "\<forall>(q, rep) \<in> set rs. accepted rep \<longrightarrow> request_ok hash c1 q"
      using Cons.prems(4) request_ok_cong [OF can1] by auto
    ultimately obtain replies c' where "serve_all hash cd ta disk metrics (Suc i) rs c1 = (Inr replies, c')"
      "served cd ta (Suc i) (req_step q m) rs replies" "sc.covered hash (ta (Suc i + length rs)) c' (run_store rs (req_step q m))"
      "store_small (run_store rs (req_step q m))" "\<forall>k v. sharded_canStore hash k v c' = sharded_canStore hash k v c1"
      using Cons.IH [OF cov1 step] by blast
    with True p s1 can1 show ?thesis
      by (intro exI [of _ "rep\<lparr>rp_bytes := bs\<rparr> # replies"] exI [of _ c']) auto
  next
    case False
    have "\<forall>(q, rep) \<in> set rs. accepted rep \<longrightarrow> request_ok hash c q"
      using Cons.prems(4) by auto
    then obtain replies c' where "serve_all hash cd ta disk metrics (Suc i) rs c = (Inr replies, c')"
      "served cd ta (Suc i) m rs replies" "sc.covered hash (ta (Suc i + length rs)) c' (run_store rs m)"
      "store_small (run_store rs m)" "\<forall>k v. sharded_canStore hash k v c' = sharded_canStore hash k v c"
      using Cons.IH [OF Cons.prems(1) order_trans [OF Cons.prems(2) step] Cons.prems(3)] by blast
    with False p show ?thesis
      by (intro exI [of _ "rep # replies"] exI [of _ c']) auto
  qed
qed

lemma validated_requests:
  "validated hash cd tv cache i rs ms \<Longrightarrow> \<forall>(q, rep) \<in> set rs. accepted rep \<longrightarrow> request_ok hash cache q"
proof (induction hash cd tv cache i rs ms rule: validated.induct)
  case (2 hash cd tv cache i q rep rs ms)
  then show ?case
    by (cases "accepted rep") auto
qed simp

end
