(* ===== verification/Service_Durability.thy ===== *)
theory Service_Durability
  imports Cache_Service
begin

text \<open>
  The contract of \<open>CacheService\<close>: replies agree with an unbounded store that executes the
  accepted requests in order, an acknowledged mutation is on disk before it is visible, a
  crash at any point leaves a log from which a restart rebuilds no more and no less than the
  service had promised, and errors never leave the cache ahead of the log.
\<close>

section \<open>The store a log describes\<close>

fun mut_step :: "codec \<Rightarrow> mutation \<Rightarrow> store \<Rightarrow> store" where
  "mut_step cd m st =
     (if m_command m = SET then st(m_key m \<mapsto> (m_value m, 0))
      else if m_command m = SET_TTL
      then (case cd_parse cd (m_value m) of None \<Rightarrow> st | Some item \<Rightarrow> st(m_key m \<mapsto> (cv_value item, cv_expires item)))
      else st(m_key m := None))"

declare mut_step.simps [simp del]

definition log_store :: "codec \<Rightarrow> mutation list \<Rightarrow> store \<Rightarrow> store" where
  "log_store cd ms st = foldl (\<lambda>s m. mut_step cd m s) st ms"

lemma log_store_simps [simp]:
  "log_store cd [] st = st"
  "log_store cd (m # ms) st = log_store cd ms (mut_step cd m st)"
  "log_store cd (ms @ ms') st = log_store cd ms' (log_store cd ms st)"
  by (simp_all add: log_store_def)

text \<open>Records the service writes: they fit the cache they came from.\<close>

definition wrote :: "(bytes \<Rightarrow> nat) \<Rightarrow> codec \<Rightarrow> sharded \<Rightarrow> mutation \<Rightarrow> bool" where
  "wrote hash cd c m \<longleftrightarrow>
     (m_command m = SET \<and> length (m_value m) \<le> MAX_VALUE_SIZE \<and> sharded_canStore hash (m_key m) (m_value m) c) \<or>
     (m_command m = SET_TTL \<and>
        (\<exists>item. cd_parse cd (m_value m) = Some item \<and> cv_expires item \<noteq> 0 \<and> cv_expires item < sz_mod \<and>
           length (cv_value item) \<le> MAX_VALUE_SIZE \<and> sharded_canStore hash (m_key m) (cv_value item) c)) \<or>
     m_command m = DEL"

lemma wrote_small: "wrote hash cd c m \<Longrightarrow> store_small st \<Longrightarrow> store_small (mut_step cd m st)"
  by (auto simp: wrote_def store_small_def mut_step.simps split: if_splits)

lemma log_store_small:
  "\<forall>m \<in> set ms. wrote hash cd c m \<Longrightarrow> store_small st \<Longrightarrow> store_small (log_store cd ms st)"
  by (induction ms arbitrary: st) (auto simp: wrote_small)

lemma store_small_empty [simp]: "store_small Map.empty"
  by (simp add: store_small_def)

lemma mut_step_mono: "map_le st st' \<Longrightarrow> map_le (mut_step cd m st) (mut_step cd m st')"
  by (auto simp: mut_step.simps map_le_def split: option.splits)

lemma log_store_mono: "map_le st st' \<Longrightarrow> map_le (log_store cd ms st) (log_store cd ms st')"
  by (induction ms arbitrary: st st') (simp_all add: mut_step_mono)

lemma map_le_Some: "map_le m m' \<longleftrightarrow> (\<forall>k y. m k = Some y \<longrightarrow> m' k = Some y)"
  by (auto simp: map_le_def) (metis domI)

lemma wrote_cong:
  "(\<forall>k v. sharded_canStore hash k v c' = sharded_canStore hash k v c) \<Longrightarrow> wrote hash cd c' m = wrote hash cd c m"
  by (simp add: wrote_def)

section \<open>The mutations of a batch describe its requests\<close>

text \<open>The clock shows a time before the year 292 million.\<close>

definition clock_ok :: "nat \<Rightarrow> bool" where
  "clock_ok t \<longleftrightarrow> t < 2 ^ 63"

lemma expires_exact: "clock_ok now \<Longrightarrow> ttl \<le> MAX_TTL \<Longrightarrow> sz_add now ttl = now + ttl"
  by (intro sz_add_exact) (simp add: clock_ok_def MAX_TTL_def sz_mod_def)

lemma logged_item_wf: "cv_wf item \<Longrightarrow> x < sz_mod \<Longrightarrow> cv_wf (item\<lparr>cv_ttl := 0, cv_expires := x\<rparr>)"
  by (simp add: cv_wf_def sz_mod_def)

lemma logged_as_step:
  assumes "codec_ok cd" and "logged_as cd now q ms"
  shows "log_store cd ms st = req_step q st"
proof -
  have "cv_wf item \<Longrightarrow> cd_parse cd (cd_ser cd (item\<lparr>cv_ttl := 0, cv_expires := sz_add now (cv_ttl item)\<rparr>)) =
      Some (item\<lparr>cv_ttl := 0, cv_expires := sz_add now (cv_ttl item)\<rparr>)" for item
    by (rule codec_roundtrip [OF assms(1) logged_item_wf]) simp_all
  with assms(2) show ?thesis
    by (auto simp: logged_as_def mut_step.simps)
qed

lemma logged_as_wrote:
  assumes "codec_ok cd" and "logged_as cd now q ms" and "request_ok hash c q" and "clock_ok now" and "m \<in> set ms"
  shows "wrote hash cd c m"
proof -
  have "cv_wf item \<Longrightarrow> cd_parse cd (cd_ser cd (item\<lparr>cv_ttl := 0, cv_expires := sz_add now (cv_ttl item)\<rparr>)) =
      Some (item\<lparr>cv_ttl := 0, cv_expires := sz_add now (cv_ttl item)\<rparr>)" for item
    by (rule codec_roundtrip [OF assms(1) logged_item_wf]) simp_all
  moreover have "0 < ttl \<Longrightarrow> ttl \<le> MAX_TTL \<Longrightarrow> sz_add now ttl \<noteq> 0" for ttl
    by (simp add: expires_exact [OF assms(4)])
  ultimately show ?thesis
    using assms(2,3,5) by (auto simp: logged_as_def request_ok_def wrote_def)
qed

lemma validated_log:
  assumes "codec_ok cd" and "validated hash cd tv c i rs ms" and "\<forall>j. clock_ok (tv j)"
  shows "log_store cd ms st = run_store rs st \<and> (\<forall>m \<in> set ms. wrote hash cd c m)"
  using assms(2)
proof (induction rs arbitrary: i ms st)
  case (Cons p rs)
  obtain q rep where p: "p = (q, rep)"
    by fastforce
  show ?case
  proof (cases "accepted rep")
    case True
    then obtain ms1 ms2 where ms: "ms = ms1 @ ms2" and q: "request_ok hash c q" and l: "logged_as cd (tv i) q ms1"
      and v: "validated hash cd tv c (Suc i) rs ms2"
      using Cons.prems p by auto
    have "log_store cd ms st = log_store cd ms2 (req_step q st)"
      using logged_as_step [OF assms(1) l] ms by simp
    with Cons.IH [OF v] True p ms logged_as_wrote [OF assms(1) l q] assms(3) show ?thesis
      by (auto simp del: req_step.simps)
  next
    case False
    with Cons.IH [of "Suc i" ms st] Cons.prems p show ?thesis
      by auto
  qed
qed simp

lemma validated_length: "validated hash cd tv c i rs ms \<Longrightarrow> length ms \<le> length rs"
proof (induction rs arbitrary: i ms)
  case (Cons p rs)
  obtain q rep where p: "p = (q, rep)"
    by fastforce
  show ?case
  proof (cases "accepted rep")
    case True
    then obtain ms1 ms2 where "ms = ms1 @ ms2" "logged_as cd (tv i) q ms1" "validated hash cd tv c (Suc i) rs ms2"
      using Cons.prems p by auto
    moreover from this have "length ms1 \<le> 1"
      by (auto simp: logged_as_def)
    ultimately show ?thesis
      using Cons.IH [of "Suc i" ms2] by simp
  next
    case False
    then show ?thesis
      using Cons.IH [of "Suc i" ms] Cons.prems p by auto
  qed
qed simp

section \<open>A snapshot describes the live entries\<close>

lemma snapshot_entry:
  assumes "sharded_inv hash c" and "e \<in> set (sharded_snapshot now c)"
  shows "sharded_view hash now c (e_key e) = Some (e_value e, e_expires e) \<and>
    sharded_canStore hash (e_key e) (e_value e) c"
proof -
  obtain i where i: "i < length (sh_shards c)" and e: "e \<in> set (elems (sh_shards c ! i))" "\<not> Expired now e"
    using assms(2) by (auto simp: sharded_snapshot_def snapshot_rev in_set_conv_nth [of _ "sh_shards c"])
  have "shard_index hash (e_key e) c = i"
    using assms(1) i e by (simp add: sharded_inv_def shard_index_def)
  moreover have inv: "lru_inv (sh_shards c ! i)"
    using assms(1) i by (simp add: sharded_inv_def)
  moreover have "entry_of (e_key e) (elems (sh_shards c ! i)) = Some e"
    using inv e(1) by (intro entry_of_mem) (auto simp: lru_inv_def lru_wf_def)
  moreover have "e_bytes e = entry_cost (e_key e) (e_value e)" "e_bytes e \<le> total_bytes (elems (sh_shards c ! i))"
    using inv e(1) by (auto simp: lru_inv_def lru_wf_def total_bytes_def intro: member_le_sum_list)
  ultimately show ?thesis
    using e(2) by (simp add: sharded_view_def getShard_def lru_view_def live_at_Expired sharded_canStore_def
        lru_canStore_def lru_inv_def)
qed

lemma snapshot_complete:
  assumes "sharded_inv hash c" and "sharded_view hash now c k = Some (v, x)"
  shows "\<exists>e \<in> set (sharded_snapshot now c). e_key e = k"
proof -
  let ?i = "shard_index hash k c"
  obtain e where "entry_of k (elems (sh_shards c ! ?i)) = Some e" and "\<not> Expired now e"
    using assms(2) by (cases "entry_of k (elems (sh_shards c ! ?i))")
      (auto simp: sharded_view_def getShard_def lru_view_def live_at_Expired split: if_splits)
  then have "e \<in> set (lru_snapshot now (sh_shards c ! ?i))" and "e_key e = k"
    by (auto simp: snapshot_rev dest: entry_of_Some)
  moreover have "?i < length (sh_shards c)"
    using assms(1) by (rule shard_index_less)
  ultimately show ?thesis
    by (auto simp: sharded_snapshot_def)
qed

definition entry_small :: "entry \<Rightarrow> bool" where
  "entry_small e \<longleftrightarrow> length (e_value e) \<le> MAX_VALUE_SIZE \<and> e_expires e < sz_mod"

lemma snapshot_mutation_step:
  assumes "codec_ok cd" and "entry_small e"
  shows "mut_step cd (snapshot_mutation cd e) st = st(e_key e \<mapsto> (e_value e, e_expires e))"
proof -
  have "cv_wf (cv_empty\<lparr>cv_value := e_value e, cv_expires := e_expires e\<rparr>)"
    using assms(2) by (simp add: cv_wf_def cv_empty_def entry_small_def sz_mod_def limit_defs)
  from codec_roundtrip [OF assms(1) this] show ?thesis
    by (simp add: snapshot_mutation_def mut_step.simps)
qed

lemma snapshot_mutation_wrote:
  assumes "codec_ok cd" and "entry_small e" and "sharded_canStore hash (e_key e) (e_value e) c"
  shows "wrote hash cd c (snapshot_mutation cd e)"
proof -
  have "cv_wf (cv_empty\<lparr>cv_value := e_value e, cv_expires := e_expires e\<rparr>)"
    using assms(2) by (simp add: cv_wf_def cv_empty_def entry_small_def sz_mod_def limit_defs)
  from codec_roundtrip [OF assms(1) this] assms(2,3) show ?thesis
    by (simp add: snapshot_mutation_def wrote_def entry_small_def)
qed

lemma snapshot_log_store:
  assumes "codec_ok cd" and "\<forall>e \<in> set es. entry_small e"
  shows "log_store cd (map (snapshot_mutation cd) es) Map.empty k =
    map_option (\<lambda>e. (e_value e, e_expires e)) (find (\<lambda>e. e_key e = k) (rev es))"
  using assms(2) by (induction es rule: rev_induct) (auto simp: snapshot_mutation_step [OF assms(1)])

lemma snapshot_log_view:
  assumes "codec_ok cd" and "sharded_inv hash c" and "\<forall>e \<in> set (sharded_snapshot now c). entry_small e"
  shows "log_store cd (map (snapshot_mutation cd) (sharded_snapshot now c)) Map.empty = sharded_view hash now c"
proof
  fix k
  show "log_store cd (map (snapshot_mutation cd) (sharded_snapshot now c)) Map.empty k = sharded_view hash now c k"
  proof (cases "find (\<lambda>e. e_key e = k) (rev (sharded_snapshot now c))")
    case None
    then have "\<not> (\<exists>e \<in> set (sharded_snapshot now c). e_key e = k)"
      by (simp add: find_None_iff)
    then have "sharded_view hash now c k = None"
      using snapshot_complete [OF assms(2), of now k] by (cases "sharded_view hash now c k") auto
    with None show ?thesis
      by (simp add: snapshot_log_store [OF assms(1,3)])
  next
    case (Some e)
    then have "e \<in> set (sharded_snapshot now c)" and "e_key e = k"
      by (auto simp: find_Some_iff in_set_conv_nth) (metis in_set_conv_nth nth_mem set_rev length_rev)
    with snapshot_entry [OF assms(2) this(1)] Some show ?thesis
      by (simp add: snapshot_log_store [OF assms(1,3)])
  qed
qed

section \<open>The log and the cache agree\<close>

text \<open>
  \<open>describes ms d\<close>: the bytes \<open>d\<close> start with the records of \<open>ms\<close>, all of them records the
  service writes; every live entry of the cache is in the store they describe, and that store
  holds nothing that is not in \<open>st\<close>, the store of all acknowledged requests.
\<close>

definition describes ::
  "(bytes \<Rightarrow> nat) \<Rightarrow> codec \<Rightarrow> nat \<Rightarrow> sharded \<Rightarrow> store \<Rightarrow> mutation list \<Rightarrow> bytes \<Rightarrow> bool" where
  "describes hash cd now c st ms d \<longleftrightarrow>
     (\<exists>bss. list_all2 is_record ms bss \<and> prefix (concat bss) d) \<and> (\<forall>m \<in> set ms. wrote hash cd c m) \<and>
     sc.covered hash now c (log_store cd ms Map.empty) \<and> map_le (log_store cd ms Map.empty) st"

definition log_inv :: "(bytes \<Rightarrow> nat) \<Rightarrow> codec \<Rightarrow> nat \<Rightarrow> sharded \<Rightarrow> store \<Rightarrow> aof \<Rightarrow> world \<Rightarrow> bool" where
  "log_inv hash cd now c st a w \<longleftrightarrow>
     aof_inv a w \<and> a_started a \<and> \<not> a_failed a \<and> stats_small (a_stats a) \<and>
     durable (w_files w (a_fd a)) = log_data a w \<and>
     (\<exists>ms bss. list_all2 is_record ms bss \<and> log_data a w = concat bss \<and> describes hash cd now c st ms (log_data a w))"

lemma describes_prefix: "describes hash cd now c st ms d \<Longrightarrow> prefix d d' \<Longrightarrow> describes hash cd now c st ms d'"
  unfolding describes_def by (meson prefix_order.trans)

lemma describes_later: "describes hash cd now c st ms d \<Longrightarrow> now \<le> now' \<Longrightarrow> describes hash cd now' c st ms d"
  unfolding describes_def by (meson sc.covered_later)

lemma describes_small: "describes hash cd now c st ms d \<Longrightarrow> store_small (log_store cd ms Map.empty)"
  by (rule log_store_small [of ms hash cd c]) (simp_all add: describes_def)

lemma log_invD:
  assumes "log_inv hash cd now c st a w"
  obtains ms bss where "list_all2 is_record ms bss" and "log_data a w = concat bss"
    and "describes hash cd now c st ms (concat bss)" and "store_small (log_store cd ms Map.empty)"
proof -
  from assms obtain ms bss where ms: "list_all2 is_record ms bss" "log_data a w = concat bss"
    "describes hash cd now c st ms (concat bss)"
    by (auto simp: log_inv_def)
  then show thesis
    using describes_small [OF ms(3)] by (rule that)
qed

lemma log_inv_later: "log_inv hash cd now c st a w \<Longrightarrow> now \<le> now' \<Longrightarrow> log_inv hash cd now' c st a w"
  unfolding log_inv_def by (meson describes_later)

lemma log_inv_crash:
  assumes "log_inv hash cd now c st a w" and "crash_image w d"
  shows "\<exists>ms. describes hash cd now c st ms d"
proof -
  have "w_name w = Some (a_fd a)" "w_name_synced w = Some (a_fd a)"
    using assms(1) by (simp_all add: log_inv_def aof_inv_def)
  then have "prefix (log_data a w) d"
    using crash_imageD [OF assms(2)] assms(1) by (simp add: log_inv_def)
  then show ?thesis
    using assms(1) unfolding log_inv_def by (meson describes_prefix)
qed

section \<open>Compaction keeps the agreement\<close>

definition cache_fits :: "sharded \<Rightarrow> bool" where
  "cache_fits c \<longleftrightarrow> sum_list (map l_capacity (sh_shards c)) \<le> BATCH_LIMIT"

lemma snapshot_length:
  assumes "sharded_inv hash c"
  shows "length (sharded_snapshot now c) \<le> sum_list (map l_capacity (sh_shards c))"
proof -
  have "length (lru_snapshot now d) \<le> l_capacity d" if "d \<in> set (sh_shards c)" for d
  proof -
    have "length (elems d) \<le> l_capacity d"
      using assms that by (simp add: sharded_inv_def lru_inv_def)
    then show ?thesis
      by (simp add: snapshot_rev order_trans [OF length_filter_le])
  qed
  then show ?thesis
    by (simp add: sharded_snapshot_def length_concat comp_def sum_list_mono)
qed

lemma snapshot_describes:
  assumes "codec_ok cd" and "sc.covered hash now c m" and "store_small m" and "map_le m st" and "now \<le> t"
    and "list_all2 is_record (map (snapshot_mutation cd) (sharded_snapshot t c)) bss" and "prefix (concat bss) d"
  shows "describes hash cd t c st (map (snapshot_mutation cd) (sharded_snapshot t c)) d"
proof -
  have inv: "sharded_inv hash c"
    using assms(2) by (rule sc.covered_inv)
  have view: "m k = Some y" if "sharded_view hash t c k = Some y" for k y
    using assms(2,5) that by (rule sc.coveredD)
  have small: "\<forall>e \<in> set (sharded_snapshot t c). entry_small e"
    using snapshot_entry [OF inv] view assms(3) unfolding store_small_def entry_small_def by blast
  note ls = snapshot_log_view [OF assms(1) inv small]
  have "sc.covered hash t c (sharded_view hash t c)"
  proof (rule sc.coveredI [OF inv])
    fix now' k y
    assume "t \<le> now'" and "sharded_view hash now' c k = Some y"
    then have "live_at now' (sharded_view hash t c k) = Some y"
      using sc.view_later [of t now' hash c k] by simp
    then show "sharded_view hash t c k = Some y"
      by (rule live_at_SomeD)
  qed
  moreover have "map_le (sharded_view hash t c) st"
    using view assms(4) by (auto simp: map_le_Some)
  moreover have "\<forall>x \<in> set (map (snapshot_mutation cd) (sharded_snapshot t c)). wrote hash cd c x"
    using snapshot_mutation_wrote [OF assms(1)] small snapshot_entry [OF inv] by auto
  ultimately show ?thesis
    using assms(6,7) unfolding describes_def ls by blast
qed

lemma rewrite_log_inv:
  assumes "codec_ok cd" and "log_inv hash cd now c st a w" and "now \<le> t" and "cache_fits c"
    and rw: "rewrite (map (snapshot_mutation cd) (sharded_snapshot t c)) a w = (r, a', w')"
  shows "(\<forall>d. crash_image w' d \<longrightarrow> (\<exists>ms. describes hash cd t c st ms d)) \<and>
    (r \<noteq> Halted \<and> \<not> a_failed a' \<longrightarrow> log_inv hash cd t c st a' w') \<and>
    (\<forall>e. r = Throws (Aof_capacity_error e) \<longrightarrow> \<not> a_failed a') \<and> (r = Done () \<longrightarrow> \<not> a_failed a')"
proof -
  let ?snap = "map (snapshot_mutation cd) (sharded_snapshot t c)"
  obtain ms bss where ms: "log_data a w = concat bss" "describes hash cd now c st ms (concat bss)"
    and small: "store_small (log_store cd ms Map.empty)"
    using assms(2) by (rule log_invD)
  have inv: "aof_inv a w" "\<not> a_failed a" "a_started a" "stats_small (a_stats a)" "durable (w_files w (a_fd a)) = log_data a w"
    using assms(2) by (simp_all add: log_inv_def)
  have cov: "sc.covered hash now c (log_store cd ms Map.empty)" and le: "map_le (log_store cd ms Map.empty) st"
    using ms(2) by (simp_all add: describes_def)
  have len: "length ?snap \<le> BATCH_LIMIT"
    using snapshot_length [OF sc.covered_inv [OF cov], of t] assms(4) by (simp add: cache_fits_def)
  have nm: "w_name w = Some (a_fd a)" "w_name_synced w = Some (a_fd a)" "a_fd a < w_next w"
    using inv(1,2) by (simp_all add: aof_inv_def)
  from rw inv(1) len show ?thesis
  proof (cases rule: rewrite_cases)
    case intact
    have same: "w_files w' (a_fd a) = w_files w (a_fd a)"
      using intact(6) nm(3) by simp
    then have "log_inv hash cd now c st a w'"
      using assms(2) intact nm unfolding log_inv_def aof_inv_def log_data_def by auto
    then have "log_inv hash cd t c st a w'"
      using assms(3) by (rule log_inv_later)
    with intact(1) inv(2) log_inv_crash [of hash cd t c st a w'] show ?thesis
      by auto
  next
    case (published bss')
    have desc: "describes hash cd t c st ?snap (concat bss')"
      using snapshot_describes [OF assms(1) cov small le assms(3) encoded_records [OF published(1)] prefix_order.refl] .
    have disk: "f_data (w_files w' (w_next w)) = concat bss'" "durable (w_files w' (w_next w)) = concat bss'"
      using published(7) by (simp_all add: durable_def)
    have crash: "\<exists>ms. describes hash cd t c st ms d" if d: "crash_image w' d" for d
    proof -
      have "prefix (concat bss') d \<or> prefix (durable (w_files w (a_fd a))) d"
        using d published(4,6,9) nm disk(2) by (auto simp: crash_image_def)
      then show ?thesis
      proof
        assume "prefix (concat bss') d"
        with desc show ?thesis
          by (meson describes_prefix)
      next
        assume "prefix (durable (w_files w (a_fd a))) d"
        then have "describes hash cd now c st ms d"
          using describes_prefix [OF ms(2)] inv(5) ms(1) by simp
        with assms(3) show ?thesis
          by (meson describes_later)
      qed
    qed
    have a': "a_fd a' = w_next w" "a_started a'" "stats_small (a_stats a')"
      using inv(1,3,4) published(3) by (subst published(8), simp add: stats_small_def aof_inv_def)+
    have "log_inv hash cd t c st a' w'" if "r \<noteq> Halted" "\<not> a_failed a'"
      using rewrite_inv [OF rw inv(1) len that(1)] that(2) a' disk desc encoded_records [OF published(1)]
      unfolding log_inv_def log_data_def by auto
    with crash published(9) show ?thesis
      by auto
  qed
qed

section \<open>Logging a batch\<close>

lemma logBatch_log_inv:
  assumes "log_inv hash cd now c st a w" and "length ms \<le> BATCH_LIMIT" and lb: "logBatch ms a w = (r, a', w')"
  shows "(\<forall>d. crash_image w' d \<longrightarrow> (\<exists>ms0. describes hash cd now c st ms0 d)) \<and>
    (\<forall>e. r = Throws (Aof_capacity_error e) \<longrightarrow> log_inv hash cd now c st a' w') \<and>
    (r = Done () \<longrightarrow> aof_inv a' w' \<and> a_started a' \<and> \<not> a_failed a' \<and> stats_small (a_stats a') \<and>
       durable (w_files w' (a_fd a')) = log_data a' w' \<and>
       (\<exists>ms0 bss. describes hash cd now c st ms0 (log_data a' w') \<and> list_all2 is_record (ms0 @ ms) bss \<and>
          log_data a' w' = concat bss))"
proof -
  obtain ms0 bss0 where ms0: "list_all2 is_record ms0 bss0" "log_data a w = concat bss0" "describes hash cd now c st ms0 (concat bss0)"
    using assms(1) by (rule log_invD)
  have inv: "aof_inv a w" "\<not> a_failed a" "a_started a" "stats_small (a_stats a)" "durable (w_files w (a_fd a)) = log_data a w"
    using assms(1) by (simp_all add: log_inv_def)
  have nm: "w_name w = Some (a_fd a)" "w_name_synced w = Some (a_fd a)"
    using inv(1,2) by (simp_all add: aof_inv_def)
  from lb inv(1) assms(2) show ?thesis
  proof (cases rule: logBatch_cases)
    case unchanged
    have "\<exists>ms1 bss. describes hash cd now c st ms1 (log_data a w) \<and> list_all2 is_record (ms1 @ []) bss \<and>
        log_data a w = concat bss"
      using ms0 by (intro exI [of _ ms0] exI [of _ bss0]) simp
    with unchanged inv assms(1) log_inv_crash [OF assms(1)] show ?thesis
      by (elim disjE exE conjE) (simp, blast, simp)
  next
    case (acked bss us rs)
    have d: "log_data a' w' = concat (bss0 @ bss)" "durable (w_files w' (a_fd a')) = log_data a' w'"
      using acked(6,7) ms0(2) by (simp_all add: log_data_def durable_def)
    have desc: "describes hash cd now c st ms0 (log_data a' w')"
      by (rule describes_prefix [OF ms0(3)]) (simp add: d)
    have rec: "list_all2 is_record (ms0 @ ms) (bss0 @ bss)"
      using ms0(1) encoded_records [OF acked(1)] by (simp add: list_all2_appendI)
    have crash: "describes hash cd now c st ms0 e" if "crash_image w' e" for e
    proof -
      have "prefix (durable (w_files w' (a_fd a'))) e"
        using crash_imageD [OF that] nm acked(6,7) by simp
      then show ?thesis
        using describes_prefix [OF desc] d(2) by simp
    qed
    have "aof_inv a' w'"
      using logBatch_inv [OF lb inv(1) assms(2)] acked(4) by simp
    moreover from this have "stats_small (a_stats a')"
      using inv(4) acked(7) by (auto simp: stats_small_def aof_inv_def)
    moreover have "a_started a'" "\<not> a_failed a'"
      using acked(7) inv(2,3) by simp_all
    moreover have "\<exists>ms0 bss. describes hash cd now c st ms0 (log_data a' w') \<and> list_all2 is_record (ms0 @ ms) bss \<and>
        log_data a' w' = concat bss"
      using desc rec d(1) by blast
    ultimately show ?thesis
      using acked(4) d(2) crash by blast
  next
    case (torn bss bs rs)
    have "describes hash cd now c st ms0 d" if "crash_image w' d" for d
    proof -
      have "prefix (durable (w_files w' (a_fd a))) d"
        using crash_imageD [OF that] nm torn(5) by simp
      moreover have "prefix (concat bss0) (durable (w_files w' (a_fd a)))"
        using durable_append [of "w_files w (a_fd a)" bs] inv(5) ms0(2) torn(5) by simp
      ultimately show ?thesis
        using ms0(3) by (meson describes_prefix prefix_order.trans)
    qed
    with torn(6) show ?thesis
      by auto
  qed
qed

section \<open>The service's contract\<close>

lemma cache_fits_budgets: "cache_fits c \<longleftrightarrow> sum_list (map fst (budgets c)) \<le> BATCH_LIMIT"
  by (simp add: cache_fits_def budgets_def comp_def)

lemma serve_budgets: "sharded_inv hash c \<Longrightarrow> budgets (snd (serve hash cd t disk met q c)) = budgets c"
  by (simp add: serve_def Let_def split_beta)

lemma serve_inv: "sharded_inv hash c \<Longrightarrow> sharded_inv hash (snd (serve hash cd t disk met q c))"
  by (simp add: serve_def Let_def split_beta sharded_put_inv sharded_get_inv sharded_remove_inv)

lemma serve_all_budgets:
  "sharded_inv hash c \<Longrightarrow> budgets (snd (serve_all hash cd ta disk metrics i rs c)) = budgets c"
proof (induction rs arbitrary: i c)
  case (Cons p rs)
  obtain q rep where p: "p = (q, rep)"
    by fastforce
  let ?s = "serve hash cd (ta i) disk (map_option (\<lambda>f. f i) metrics) q c"
  have "sharded_inv hash (snd ?s)" "budgets (snd ?s) = budgets c"
    using Cons.prems by (simp_all add: serve_inv serve_budgets)
  then show ?case
    using Cons.IH [of c "Suc i"] Cons.IH [of "snd ?s" "Suc i"] Cons.prems
    by (cases "fst ?s") (auto simp: p split_beta split: sum.splits)
qed simp

lemma allowed_mono: "map_le m st \<Longrightarrow> allowed_response cd now m q tx \<Longrightarrow> allowed_response cd now st q tx"
  unfolding allowed_response_def map_le_Some
  by (cases "rq_command q") (auto simp: live_at_def split: option.splits if_splits)

lemma req_step_mono: "map_le m st \<Longrightarrow> map_le (req_step q m) (req_step q st)"
  by (auto simp: map_le_def)

lemma served_mono: "map_le m st \<Longrightarrow> served cd ta i m rs replies \<Longrightarrow> served cd ta i st rs replies"
proof (induction rs arbitrary: i m st replies)
  case (Cons p rs)
  obtain q rep where p: "p = (q, rep)"
    by fastforce
  show ?case
  proof (cases replies)
    case (Cons rep' replies')
    then show ?thesis
      using Cons.prems p Cons.IH [OF req_step_mono [OF \<open>map_le m st\<close>, of q], of "Suc i" replies']
        Cons.IH [OF \<open>map_le m st\<close>, of "Suc i" replies'] allowed_mono [OF \<open>map_le m st\<close>]
      by (cases "accepted rep") (simp del: req_step.simps, blast, auto)
  qed (use Cons.prems p in simp)
qed simp

definition service_inv :: "(bytes \<Rightarrow> nat) \<Rightarrow> codec \<Rightarrow> nat \<Rightarrow> service \<Rightarrow> world \<Rightarrow> store \<Rightarrow> bool" where
  "service_inv hash cd now sv w st \<longleftrightarrow>
     \<not> sv_failed sv \<and> log_inv hash cd now (sv_cache sv) st (sv_aof sv) w \<and> cache_fits (sv_cache sv) \<and>
     metrics_ok (sv_metrics sv)"

text \<open>The clock does not run backwards while a batch is handled.\<close>

definition times_ok :: "nat \<Rightarrow> (nat \<Rightarrow> nat) \<Rightarrow> nat \<Rightarrow> (nat \<Rightarrow> nat) \<Rightarrow> bool" where
  "times_ok now tv tc ta \<longleftrightarrow> now \<le> tc \<and> tc \<le> ta 0 \<and> mono ta \<and> (\<forall>j. clock_ok (tv j))"

lemma compact_phase:
  assumes "codec_ok cd" and li: "log_inv hash cd now (sv_cache sv) st (sv_aof sv) w" and "now \<le> tc"
    and "cache_fits (sv_cache sv)" and c1: "(if needed then CompactLocked cd tc sv w else (Done (), sv, w)) = (r1, sv1, w1)"
  shows "sv1 = sv\<lparr>sv_aof := sv_aof sv1\<rparr> \<and>
    (\<forall>d. crash_image w1 d \<longrightarrow> (\<exists>ms0. describes hash cd tc (sv_cache sv) st ms0 d)) \<and>
    (r1 = Done () \<or> (\<exists>e. r1 = Throws (Aof_capacity_error e)) \<longrightarrow> log_inv hash cd tc (sv_cache sv) st (sv_aof sv1) w1)"
proof (cases needed)
  case True
  obtain r a w2 where rw: "rewrite (map (snapshot_mutation cd) (sharded_snapshot tc (sv_cache sv))) (sv_aof sv) w = (r, a, w2)"
    by (metis prod.collapse)
  then have "r1 = r" "sv1 = sv\<lparr>sv_aof := a\<rparr>" "w1 = w2"
    using c1 True by (simp_all add: CompactLocked_def)
  then show ?thesis
    using rewrite_log_inv [OF assms(1) li assms(3,4) rw] by auto
next
  case False
  have li': "log_inv hash cd tc (sv_cache sv) st (sv_aof sv) w"
    using li assms(3) by (rule log_inv_later)
  with False c1 log_inv_crash [OF li'] show ?thesis
    by auto
qed

text \<open>After the batch is on disk, applying it cannot fail.\<close>

lemma serve_phase:
  assumes "codec_ok cd" and t: "times_ok now tv tc ta" and v: "validated hash cd tv c 0 rs ms" and "cache_fits c"
    and met: "metrics_ok metrics"
    and a: "aof_inv a w" "a_started a" "\<not> a_failed a" "stats_small (a_stats a)" "durable (w_files w (a_fd a)) = log_data a w"
    and d: "describes hash cd tc c st ms0 (log_data a w)" "list_all2 is_record (ms0 @ ms) bss" "log_data a w = concat bss"
  shows "\<exists>replies c'. serve_all hash cd ta (a_stats a) metrics 0 rs c = (Inr replies, c') \<and>
    served cd ta 0 st rs replies \<and> log_inv hash cd (ta (length rs)) c' (run_store rs st) a w \<and> cache_fits c'"
proof -
  let ?m = "log_store cd ms0 Map.empty"
  have tc: "tc \<le> ta 0" "mono ta" "\<forall>j. clock_ok (tv j)"
    using t by (simp_all add: times_ok_def)
  have m: "sc.covered hash tc c ?m" "map_le ?m st" "\<forall>m \<in> set ms0. wrote hash cd c m"
    using d(1) by (simp_all add: describes_def)
  note vl = validated_log [OF assms(1) v tc(3)]
  obtain replies c' where s: "serve_all hash cd ta (a_stats a) metrics 0 rs c = (Inr replies, c')" "served cd ta 0 ?m rs replies"
    and cov: "sc.covered hash (ta (length rs)) c' (run_store rs ?m)"
    and can: "\<forall>k v. sharded_canStore hash k v c' = sharded_canStore hash k v c"
    using serve_all_spec [OF assms(1) a(4) tc(2) met m(1) tc(1) describes_small [OF d(1)] validated_requests [OF v]] by auto
  have eq: "log_store cd (ms0 @ ms) Map.empty = run_store rs ?m"
    using vl [of ?m] by simp
  have "\<forall>m \<in> set (ms0 @ ms). wrote hash cd c' m"
    using m(3) vl [of ?m] wrote_cong [OF can] by auto
  moreover have "map_le (run_store rs ?m) (run_store rs st)"
    using log_store_mono [OF m(2), of cd ms] vl by simp
  ultimately have "describes hash cd (ta (length rs)) c' (run_store rs st) (ms0 @ ms) (log_data a w)"
    using cov d(2,3) unfolding describes_def eq by auto
  then have "log_inv hash cd (ta (length rs)) c' (run_store rs st) a w"
    using a d(2,3) unfolding log_inv_def by blast
  moreover have "budgets c' = budgets c"
    using serve_all_budgets [OF sc.covered_inv [OF m(1)], of cd ta "a_stats a" metrics 0 rs] s(1) by simp
  ultimately show ?thesis
    using s served_mono [OF m(2) s(2)] assms(4) by (auto simp: cache_fits_budgets)
qed

lemma commit_spec:
  assumes "codec_ok cd" and inv: "service_inv hash cd now sv w st" and t: "times_ok now tv tc ta"
    and v: "validated hash cd tv (sv_cache sv) 0 rs ms" and len: "length rs \<le> BATCH_LIMIT"
    and cb: "commit_batch hash cd tc ta rs ms sv w = (r, sv', w')"
  shows "(\<exists>replies. r = Done replies \<and> served cd ta 0 st rs replies \<and>
            service_inv hash cd (ta (length rs)) sv' w' (run_store rs st)) \<or>
    (r = Halted \<or> (\<exists>e. r = Throws e)) \<and> sv_cache sv' = sv_cache sv \<and>
      (\<forall>d. crash_image w' d \<longrightarrow> (\<exists>ms0. describes hash cd tc (sv_cache sv) st ms0 d)) \<and>
      (\<forall>e. r = Throws (Aof_capacity_error e) \<longrightarrow> service_inv hash cd tc sv' w' st)"
proof -
  let ?c = "sv_cache sv"
  have li: "log_inv hash cd now ?c st (sv_aof sv) w" and fits: "cache_fits ?c" and nf: "\<not> sv_failed sv"
    and met: "metrics_ok (sv_metrics sv)"
    using inv by (simp_all add: service_inv_def)
  have tc: "now \<le> tc"
    using t by (simp_all add: times_ok_def)
  have msl: "length ms \<le> BATCH_LIMIT"
    using validated_length [OF v] len by simp
  have li': "log_inv hash cd tc ?c st (sv_aof sv) w"
    using li tc by (rule log_inv_later)
  have sinv: "service_inv hash cd tc (sv\<lparr>sv_aof := a\<rparr>) u st" if "log_inv hash cd tc ?c st a u" for a u
    using that fits nf met by (simp add: service_inv_def)
  show ?thesis
  proof (cases "needsRewrite ms (sv_aof sv)")
    case (Inl e)
    with cb log_inv_crash [OF li'] sinv [OF li'] show ?thesis
      by (auto simp: commit_batch_def)
  next
    case (Inr needed)
    obtain r1 sv1 w1 where c1: "(if needed then CompactLocked cd tc sv w else (Done (), sv, w)) = (r1, sv1, w1)"
      by (metis prod.collapse)
    note p1 = compact_phase [OF assms(1) li tc fits c1]
    obtain a1 where sv1: "sv1 = sv\<lparr>sv_aof := a1\<rparr>"
      using p1 by blast
    show ?thesis
    proof (cases r1)
      case (Done u)
      obtain r2 a2 w2 where lb: "logBatch ms a1 w1 = (r2, a2, w2)"
        by (metis prod.collapse)
      have "log_inv hash cd tc ?c st a1 w1"
        using p1 Done sv1 by simp
      note p2 = logBatch_log_inv [OF this msl lb]
      show ?thesis
      proof (cases r2)
        case (Done u2)
        with p2 obtain ms0 bss where "aof_inv a2 w2" "a_started a2" "\<not> a_failed a2" "stats_small (a_stats a2)"
          "durable (w_files w2 (a_fd a2)) = log_data a2 w2" "describes hash cd tc ?c st ms0 (log_data a2 w2)"
          "list_all2 is_record (ms0 @ ms) bss" "log_data a2 w2 = concat bss"
          by auto
        from serve_phase [OF assms(1) t v fits met this] obtain replies c' where
          "serve_all hash cd ta (a_stats a2) (sv_metrics sv) 0 rs ?c = (Inr replies, c')" "served cd ta 0 st rs replies"
          "log_inv hash cd (ta (length rs)) c' (run_store rs st) a2 w2" "cache_fits c'"
          by blast
        with cb Inr c1 \<open>r1 = Done u\<close> sv1 lb Done nf met show ?thesis
          by (auto simp: commit_batch_def aof_getStats_def service_inv_def)
      qed (use cb Inr c1 Done sv1 lb p2 sinv in \<open>auto simp: commit_batch_def\<close>)
    qed (use cb Inr c1 sv1 p1 sinv in \<open>auto simp: commit_batch_def\<close>)
  qed
qed

lemma HandleBatch_spec:
  assumes "codec_ok cd" and inv: "service_inv hash cd now sv w st" and t: "times_ok now tv tc ta"
    and len: "length inputs \<le> BATCH_LIMIT" and hb: "HandleBatch hash cd tv tc ta inputs sv w = (r, sv', w')"
  obtains (ok) rs ms replies where "validate_inputs hash cd tv (sv_cache sv) 0 inputs = Inr (rs, ms)" "length rs = length inputs"
      "validated hash cd tv (sv_cache sv) 0 rs ms" "r = Done replies" "served cd ta 0 st rs replies"
      "service_inv hash cd (ta (length inputs)) sv' w' (run_store rs st)"
    | (bad) "r = Halted \<or> (\<exists>e. r = Throws e)" "sv_cache sv' = sv_cache sv"
      "\<And>d. crash_image w' d \<Longrightarrow> \<exists>ms0. describes hash cd tc (sv_cache sv) st ms0 d"
      "\<And>e. r = Throws (Aof_capacity_error e) \<Longrightarrow> service_inv hash cd tc sv' w' st"
      "\<And>e. r = Throws e \<Longrightarrow> \<not> is_capacity_error e \<Longrightarrow> sv_failed sv'"
proof -
  obtain rs ms where v: "validate_inputs hash cd tv (sv_cache sv) 0 inputs = Inr (rs, ms)" "length rs = length inputs"
    "validated hash cd tv (sv_cache sv) 0 rs ms"
    using validate_inputs_total [OF assms(1)] by blast
  obtain r1 sv1 where cb: "commit_batch hash cd tc ta rs ms sv w = (r1, sv1, w')" and r1: "r = r1"
    and sv': "sv' = (case r1 of Throws e \<Rightarrow> if is_capacity_error e then sv1 else sv1\<lparr>sv_failed := True\<rparr> | _ \<Rightarrow> sv1)"
    using hb v inv by (auto simp: HandleBatch_def service_inv_def split: prod.splits io.splits)
  have "length rs \<le> BATCH_LIMIT"
    using len v(2) by simp
  from commit_spec [OF assms(1) inv t v(3) this cb] show thesis
  proof (elim disjE exE conjE)
    fix replies
    assume "r1 = Done replies" "served cd ta 0 st rs replies" "service_inv hash cd (ta (length rs)) sv1 w' (run_store rs st)"
    then show thesis
      using v r1 sv' by (intro ok) simp_all
  qed (use r1 sv' bad in auto)
qed

lemma served_length: "served cd ta i m rs replies \<Longrightarrow> length replies = length rs"
proof (induction rs arbitrary: i m replies)
  case (Cons p rs)
  then show ?case
    by (cases p; cases replies) (auto simp del: req_step.simps split: if_splits)
qed simp



end
