(* ===== verification/Service_Recovery.thy ===== *)
theory Service_Recovery
  imports Service_Durability
begin

text \<open>
  Starting \<open>CacheService\<close> on what a crash left: replay rebuilds nothing that the log does not
  describe, and on an undamaged log it succeeds. The last section shows on concrete states
  that the hypotheses of the service's theorems can be met, and records a request that makes
  the service refuse all further work.
\<close>

section \<open>Restart\<close>

text \<open>Replaying records into a cache keeps it within the store they describe.\<close>

lemma callback_covered:
  assumes "sc.covered hash t c m" and "replay_callback hash cd t x c = (Inr (), c')"
  shows "sc.covered hash t c' (mut_step cd x m)"
proof -
  have inv: "sharded_inv hash c"
    using assms(1) by (rule sc.covered_inv)
  have put: "sc.covered hash t d (m(k \<mapsto> (v, e)))" if "sharded_put hash t k v e c = (Inr (), d)" for k v e d
  proof (cases "sharded_canStore hash k v c")
    case True
    then show ?thesis
      using sc.covered_step [OF assms(1), of "Op_put k v e"] that by simp
  next
    case False
    then show ?thesis
      using sc.put_full [OF inv False, of t e] that by auto
  qed
  have "sc.covered hash t (snd (sharded_remove hash k c)) (m(k := None))" for k
    using sc.covered_step [OF assms(1), of "Op_remove k"] by simp
  with put assms(2) show ?thesis
    by (auto simp: replay_callback_def mut_step.simps split: if_splits option.splits)
qed

lemma replay_all_covered:
  "sc.covered hash t c m \<Longrightarrow> replay_all (replay_callback hash cd t) ms c = (Inr (), c') \<Longrightarrow>
     sc.covered hash t c' (log_store cd ms m)"
proof (induction ms arbitrary: c m)
  case (Cons x ms)
  then obtain d where d: "replay_callback hash cd t x c = (Inr (), d)"
    by (auto split: prod.splits sum.splits)
  then have "replay_all (replay_callback hash cd t) ms d = (Inr (), c')"
    using Cons.prems(2) by simp
  with Cons.IH callback_covered [OF Cons.prems(1) d] show ?case
    by simp
qed simp

lemma service_newD:
  assumes "service_new hash cd t cap n ma mc w = (Done sv, w')"
  obtains c0 a w1 c where "sharded_new cap n mc = Inr c0" and "aof_new ma w = (Done a, w1)"
    and "replay (replay_callback hash cd t) a c0 w1 = (Done (), c, w')"
    and "sv = \<lparr>sv_cache = c, sv_aof = aof_start a, sv_failed = False, sv_metrics = None\<rparr>"
proof -
  from assms obtain c0 a w1 where n: "sharded_new cap n mc = Inr c0" "aof_new ma w = (Done a, w1)"
    and r: "(case replay (replay_callback hash cd t) a c0 w1 of
           (Halted, c, w') \<Rightarrow> (Halted, w') | (Throws e, c, w') \<Rightarrow> (Throws e, w')
         | (Done _, c, w') \<Rightarrow>
             (Done \<lparr>sv_cache = c, sv_aof = aof_start a, sv_failed = False, sv_metrics = None\<rparr>, w')) = (Done sv, w')"
    by (auto simp: service_new_def iobind_Done)
  obtain x c w2 where "replay (replay_callback hash cd t) a c0 w1 = (x, c, w2)"
    by (metis prod.collapse)
  with r n that show thesis
    by (cases x) auto
qed


section \<open>A restart on an undamaged log succeeds\<close>

lemma budgets_canStore:
  assumes "sharded_inv hash c" and "sharded_inv hash d" and "budgets c = budgets d"
  shows "sharded_canStore hash k v c = sharded_canStore hash k v d"
proof -
  have len: "length (sh_shards c) = length (sh_shards d)"
    using arg_cong [OF assms(3), of length] by (simp add: budgets_def)
  then have i: "shard_index hash k c = shard_index hash k d"
    using assms(1,2) by (simp add: shard_index_def sharded_inv_def)
  have "shard_index hash k d < length (sh_shards d)"
    using assms(2) by (rule shard_index_less)
  then have "l_max_bytes (getShard hash k c) = l_max_bytes (getShard hash k d)"
    using arg_cong [OF assms(3), of "\<lambda>xs. xs ! shard_index hash k d"] len i by (simp add: budgets_def getShard_def)
  then show ?thesis
    by (simp add: sharded_canStore_def lru_canStore_def)
qed

lemma callback_ok:
  assumes "sharded_inv hash c" and "wrote hash cd c x"
  shows "\<exists>c'. replay_callback hash cd t x c = (Inr (), c') \<and> sharded_inv hash c' \<and> budgets c' = budgets c"
proof -
  have put: "\<exists>d. sharded_put hash t k v e c = (Inr (), d) \<and> sharded_inv hash d \<and> budgets d = budgets c"
    if "sharded_canStore hash k v c" for k v e
    using sc.put_ok [OF assms(1) that, of t e] sharded_put_inv [OF assms(1), of t k v e]
      sharded_budgets(1) [OF assms(1), of t k v e]
    by (cases "sharded_put hash t k v e c") auto
  show ?thesis
    using assms put sharded_remove_inv [OF assms(1)] by (auto simp: wrote_def replay_callback_def)
qed

lemma replay_all_ok:
  "sharded_inv hash c \<Longrightarrow> \<forall>m \<in> set ms. wrote hash cd c m \<Longrightarrow>
     \<exists>c'. replay_all (replay_callback hash cd t) ms c = (Inr (), c') \<and> sharded_inv hash c' \<and> budgets c' = budgets c"
proof (induction ms arbitrary: c)
  case (Cons x ms)
  obtain d where d: "replay_callback hash cd t x c = (Inr (), d)" "sharded_inv hash d" "budgets d = budgets c"
    using callback_ok [OF Cons.prems(1)] Cons.prems(2) by force
  have "\<forall>m \<in> set ms. wrote hash cd d m"
    using Cons.prems budgets_canStore [OF d(2) Cons.prems(1) d(3)] wrote_cong [of hash d c] by auto
  from Cons.IH [OF d(2) this] d show ?case
    by simp
qed simp

lemma aof_new_progress:
  assumes "w_name w = Some i" and "w_script w = replicate 7 (Sys_ok 1) @ rs" and "length (f_data (w_files w i)) \<le> m"
  shows "aof_new m w = (Done \<lparr>a_fd = i, a_bytes = length (f_data (w_files w i)), a_rewritten_at = 0, a_max_bytes = m,
      a_failed = False, a_started = False,
      a_stats = \<lparr>as_records = 0, as_syncs = 0, as_bytes = length (f_data (w_files w i)), as_rewrites = 0, as_sync_us = 0\<rparr>\<rparr>,
    w\<lparr>w_script := rs, w_name_synced := Some i\<rparr>)"
  using assms
  by (simp add: aof_new_def open_log_def SyncDirectory_def iobind_def sys_call_def Sync.simps Let_def numeral_eq_Suc)

lemma restart_progress:
  assumes "service_inv hash cd now sv w st" and "sharded_new cap n mc = Inr c0" and "2 * mc < sz_mod"
    and "budgets (sv_cache sv) = budgets c0" and "w_name w2 = Some i" and "i < w_next w2"
    and "w_files w2 i = w_files w (a_fd (sv_aof sv))" and "w_script w2 = replicate 8 (Sys_ok 1) @ rs"
    and "healthy (length (log_data (sv_aof sv) w)) rs" and "a_max_bytes (sv_aof sv) \<le> ma" and "ma < sz_mod"
  shows "\<exists>sv2 w3. service_new hash cd t cap n ma mc w2 = (Done sv2, w3) \<and> service_inv hash cd t sv2 w3 st"
proof -
  let ?d = "log_data (sv_aof sv) w"
  have li: "log_inv hash cd now (sv_cache sv) st (sv_aof sv) w" and fits: "cache_fits (sv_cache sv)"
    using assms(1) by (simp_all add: service_inv_def)
  obtain ms bss where ms: "list_all2 is_record ms bss" "?d = concat bss" "describes hash cd now (sv_cache sv) st ms (concat bss)"
    using li by (rule log_invD)
  have f: "f_data (w_files w2 i) = ?d" "durable (w_files w2 i) = ?d" "length ?d \<le> ma"
    using li assms(7,10) by (auto simp: log_inv_def log_data_def aof_inv_def)
  have c0: "sharded_inv hash c0"
    using assms(2,3) by (rule sharded_new_inv)
  have "sharded_inv hash (sv_cache sv)"
    using ms(3) sc.covered_inv by (auto simp: describes_def)
  then have wr: "\<forall>m \<in> set ms. wrote hash cd c0 m"
    using ms(3) wrote_cong budgets_canStore [OF _ c0 assms(4)] unfolding describes_def by blast
  then obtain c where c: "replay_all (replay_callback hash cd t) ms c0 = (Inr (), c)" "sharded_inv hash c" "budgets c = budgets c0"
    using replay_all_ok [OF c0] by blast
  define a where "a = \<lparr>a_fd = i, a_bytes = length ?d, a_rewritten_at = 0, a_max_bytes = ma, a_failed = False, a_started = False,
      a_stats = \<lparr>as_records = 0, as_syncs = 0, as_bytes = length ?d, as_rewrites = 0, as_sync_us = 0\<rparr>\<rparr>"
  define w1 where "w1 = w2\<lparr>w_script := Sys_ok 1 # rs, w_name_synced := Some i\<rparr>"
  have new: "aof_new ma w2 = (Done a, w1)"
    using aof_new_progress [OF assms(5), of "Sys_ok 1 # rs" ma] assms(8) f by (simp add: a_def w1_def numeral_eq_Suc)
  obtain w3 where rep: "replay (replay_callback hash cd t) a c0 w1 = (Done (), c, w3)" and same: "same_disk w1 w3"
    using replay_records [OF ms(1), of w1 a 1 rs "replay_callback hash cd t" c0] f ms(2) c(1) assms(9)
    by (auto simp: a_def w1_def)
  define sv2 where "sv2 = \<lparr>sv_cache = c, sv_aof = aof_start a, sv_failed = False, sv_metrics = None\<rparr>"
  have "service_new hash cd t cap n ma mc w2 = (Done sv2, w3)"
    using assms(2) new rep by (simp add: service_new_def iobind_def sv2_def)
  moreover have "service_inv hash cd t sv2 w3 st"
  proof -
    have w3: "w_files w3 = w_files w2" "w_name w3 = Some i" "w_name_synced w3 = Some i" "w_next w3 = w_next w2"
      using same assms(5) by (auto simp: w1_def dest: same_diskD)
    have data: "log_data (aof_start a) w3 = concat bss"
      using f(1) ms(2) w3(1) by (simp add: log_data_def aof_start_def a_def)
    have "sc.covered hash t c (log_store cd ms Map.empty)"
      using fresh_covered [OF assms(2,3)] c(1) by (rule replay_all_covered)
    moreover have "\<forall>m \<in> set ms. wrote hash cd c m"
      using wr wrote_cong [of hash c c0] budgets_canStore [OF c(2) c0 c(3)] by blast
    ultimately have "describes hash cd t c st ms (concat bss)"
      using ms(1,3) unfolding describes_def by blast
    moreover have "aof_inv (aof_start a) w3"
      using w3 f assms(6,11) by (simp add: aof_inv_def log_data_def a_def aof_start_def)
    moreover have "stats_small (a_stats (aof_start a))" "a_started (aof_start a)" "\<not> a_failed (aof_start a)"
      "durable (w_files w3 (a_fd (aof_start a))) = log_data (aof_start a) w3"
      using f w3 assms(11) data ms(2) by (auto simp: stats_small_def a_def aof_start_def)
    ultimately have "log_inv hash cd t c st (aof_start a) w3"
      using ms(1) data unfolding log_inv_def by (intro conjI exI [of _ ms] exI [of _ bss]) simp_all
    then show ?thesis
      using fits c(3) assms(4) by (simp add: service_inv_def sv2_def cache_fits_budgets metrics_ok_def metrics_small_def)
  qed
  ultimately show ?thesis
    by blast
qed


section \<open>Progress\<close>

lemma needsRewrite_False:
  assumes "aof_inv a w" and "encoded ms bss" and "length ms \<le> BATCH_LIMIT" and "a_bytes a + length (concat bss) \<le> a_max_bytes a"
    and "\<not> (a_bytes a > a_max_bytes a div 2 \<and> a_bytes a - a_rewritten_at a > a_max_bytes a div 4)"
  shows "needsRewrite ms a = Inr False"
proof -
  obtain k where k: "Size ms = Inr k"
    using SizeFrom_encoded [OF assms(2), of 0] by (simp add: Size_def)
  then obtain bss' where "encoded ms bss'" "k = length (concat bss')"
    using assms(3) by (elim Size_exact)
  then have "k = length (concat bss)"
    using encoded_unique [OF assms(2)] by blast
  with assms(4) have "\<not> k > a_max_bytes a - a_bytes a"
    by linarith
  with k assms(5) show ?thesis
    by (simp add: needsRewrite_def aof_inv_room [OF assms(1)] aof_inv_growth [OF assms(1)])
qed

lemma HandleBatch_progress:
  assumes "codec_ok cd" and inv: "service_inv hash cd now sv w st" and t: "times_ok now tv tc ta"
    and len: "length inputs \<le> BATCH_LIMIT" and v: "validate_inputs hash cd tv (sv_cache sv) 0 inputs = Inr (rs, ms)"
    and e: "encoded ms bss" and room: "a_bytes (sv_aof sv) + length (concat bss) \<le> a_max_bytes (sv_aof sv)"
    and small: "\<not> (a_bytes (sv_aof sv) > a_max_bytes (sv_aof sv) div 2 \<and>
      a_bytes (sv_aof sv) - a_rewritten_at (sv_aof sv) > a_max_bytes (sv_aof sv) div 4)"
    and h: "healthy (length (concat bss) + 1) (w_script w)"
  shows "\<exists>replies sv' w'. HandleBatch hash cd tv tc ta inputs sv w = (Done replies, sv', w')"
proof -
  have li: "log_inv hash cd now (sv_cache sv) st (sv_aof sv) w" and nf: "\<not> sv_failed sv" and fits: "cache_fits (sv_cache sv)"
    and met: "metrics_ok (sv_metrics sv)"
    using inv by (simp_all add: service_inv_def)
  then have a: "aof_inv (sv_aof sv) w" "a_started (sv_aof sv)" "\<not> a_failed (sv_aof sv)"
    by (simp_all add: log_inv_def)
  have li': "log_inv hash cd tc (sv_cache sv) st (sv_aof sv) w"
    using li t by (auto simp: times_ok_def intro: log_inv_later)
  have vd: "validated hash cd tv (sv_cache sv) 0 rs ms" and "length rs = length inputs"
    using validate_inputs_total [OF assms(1), of hash tv "sv_cache sv" 0 inputs] v by auto
  then have msl: "length ms \<le> BATCH_LIMIT"
    using validated_length [OF vd] len by simp
  have "fst (logBatch ms (sv_aof sv) w) = Done ()"
    using logBatch_progress [OF a e msl room h] .
  then obtain a2 w2 where lb: "logBatch ms (sv_aof sv) w = (Done (), a2, w2)"
    by (metis prod.collapse)
  obtain ms0 bss0 where "aof_inv a2 w2" "a_started a2" "\<not> a_failed a2" "stats_small (a_stats a2)"
    "durable (w_files w2 (a_fd a2)) = log_data a2 w2" "describes hash cd tc (sv_cache sv) st ms0 (log_data a2 w2)"
    "list_all2 is_record (ms0 @ ms) bss0" "log_data a2 w2 = concat bss0"
    using logBatch_log_inv [OF li' msl lb] by auto
  from serve_phase [OF assms(1) t vd fits met this] obtain replies c' where
    "serve_all hash cd ta (a_stats a2) (sv_metrics sv) 0 rs (sv_cache sv) = (Inr replies, c')"
    by blast
  with nf v lb needsRewrite_False [OF a(1) e msl room small] show ?thesis
    by (simp add: HandleBatch_def commit_batch_def aof_getStats_def)
qed


section \<open>Examples\<close>

definition sv_example :: "sharded \<Rightarrow> service" where
  "sv_example c = \<lparr>sv_cache = c, sv_aof = aof_example 0 1000 True, sv_failed = False, sv_metrics = None\<rparr>"

lemma service_example:
  obtains c where "sharded_new 4 2 400 = Inr c"
    and "\<forall>rs. service_inv length example_codec 0 (sv_example c) (world_example [] rs) Map.empty"
    and "\<forall>k v. length k + length v \<le> 100 \<longrightarrow> sharded_canStore length k v c"
proof -
  obtain c where c: "sharded_new 4 2 400 = Inr c"
    using sharded_new_ok [of 4 2 400] by auto
  have m: "2 * 400 < sz_mod"
    by (simp add: sz_mod_def)
  have inv: "sharded_inv length c"
    using c m by (rule sharded_new_inv)
  have cov: "sc.covered length 0 c Map.empty"
    using c m by (rule fresh_covered)
  have "cache_fits c"
    using sharded_new_totals(1) [OF c] by (simp add: cache_fits_def BATCH_LIMIT_def)
  moreover have "log_inv length example_codec 0 c Map.empty (aof_example 0 1000 True) (world_example [] rs)" for rs
    using cov aof_example_inv [of "[]" True rs]
    by (auto simp: log_inv_def describes_def stats_small_def aof_example_def world_example_def durable_def log_data_def
        intro!: exI [of _ "[]"])
  ultimately have "service_inv length example_codec 0 (sv_example c) (world_example [] rs) Map.empty" for rs
    by (simp add: service_inv_def sv_example_def metrics_ok_def metrics_small_def)
  moreover have "sharded_canStore length k v c" if "length k + length v \<le> 100" for k v
    using sharded_new_shard(4) [OF c m, of "shard_index length k c"] shard_index_less [OF inv, of k] inv that
    by (simp add: sharded_canStore_def lru_canStore_def getShard_def sharded_inv_def sharded_newD(2) [OF c] entry_cost_def
        SIZEOF_ENTRY_def sz_add_def sz_mod_def)
  ultimately show thesis
    using c that by blast
qed

lemma check_request_set:
  assumes "encode SET k v = Inr f" and "length v \<le> MAX_VALUE_SIZE" and "sharded_canStore hash k v c"
  shows "check_request hash cd now c f = Inr (Valid \<lparr>rq_command = SET, rq_key = k, rq_value = v, rq_expires = 0\<rparr> (length f)
    [\<lparr>m_command = SET, m_key = k, m_value = v\<rparr>])"
proof -
  note p = parse_encoded [OF assms(1), of "[]", simplified]
  have "\<not> length f < HEADER_SIZE"
    using length_encode [OF assms(1)] by simp
  moreover from this p have "frame_total (decodeHeader f) = length f"
    by (auto simp: kv_frame_size_def Let_def)
  ultimately show ?thesis
    using p assms(2,3) by (simp add: check_request_def Let_def)
qed

text \<open>A service with an empty log stores \<open>k = 1\<close>.\<close>

lemma set_example:
  obtains c f replies sv' w' where "sharded_new 4 2 400 = Inr c" and "encode SET [107] [1] = Inr f"
    and "\<forall>rs. service_inv length example_codec 0 (sv_example c) (world_example [] rs) Map.empty"
    and "validate_inputs length example_codec (\<lambda>_. 5) c 0 [f] =
      Inr ([(\<lparr>rq_command = SET, rq_key = [107], rq_value = [1], rq_expires = 0\<rparr>, default_reply\<lparr>rp_consumed := length f\<rparr>)],
        [\<lparr>m_command = SET, m_key = [107], m_value = [1]\<rparr>])"
    and "HandleBatch length example_codec (\<lambda>_. 5) 5 (\<lambda>_. 6) [f] (sv_example c) (world_example [] (replicate 30 (Sys_ok 4))) =
      (Done replies, sv', w')"
proof -
  obtain c where c: "sharded_new 4 2 400 = Inr c"
    and inv: "\<forall>rs. service_inv length example_codec 0 (sv_example c) (world_example [] rs) Map.empty"
    and can: "\<forall>k v. length k + length v \<le> 100 \<longrightarrow> sharded_canStore length k v c"
    by (rule service_example)
  obtain f where f: "encode SET [107] [1] = Inr f"
    using encode_ok_iff [of SET "[107]" "[1]"] by (auto simp: limit_defs)
  let ?m = "\<lparr>m_command = SET, m_key = [107], m_value = [1]\<rparr>"
  have v: "validate_inputs length example_codec (\<lambda>_. 5) c 0 [f] =
      Inr ([(\<lparr>rq_command = SET, rq_key = [107], rq_value = [1], rq_expires = 0\<rparr>, default_reply\<lparr>rp_consumed := length f\<rparr>)], [?m])"
    using check_request_set [OF f] can by (simp add: limit_defs)
  obtain b where b: "Encode ?m = Inr b" "length b = 26"
    using Encode_ok_iff [of ?m] length_Encode [of ?m] by (auto simp: loggable_def limit_defs)
  have "\<exists>replies sv' w'. HandleBatch length example_codec (\<lambda>_. 5) 5 (\<lambda>_. 6) [f] (sv_example c)
      (world_example [] (replicate 30 (Sys_ok 4))) = (Done replies, sv', w')"
    using b v by (intro HandleBatch_progress [OF example_codec_ok inv [rule_format], where bss = "[b]"])
      (auto simp: times_ok_def clock_ok_def mono_def BATCH_LIMIT_def sv_example_def aof_example_def world_example_def healthy_def)
  with c f inv v show thesis
    using that by blast
qed

lemma times_example: "times_ok 0 (\<lambda>_. 5) 5 (\<lambda>_. 6)"
  by (simp add: times_ok_def clock_ok_def mono_def)



text \<open>The machine stops while the first byte of the batch is written.\<close>

lemma halted_example:
  obtains c f where "sharded_new 4 2 400 = Inr c" and "encode SET [107] [1] = Inr f"
    and "\<forall>rs. service_inv length example_codec 0 (sv_example c) (world_example [] rs) Map.empty"
    and "HandleBatch length example_codec (\<lambda>_. 5) 5 (\<lambda>_. 6) [f] (sv_example c) (world_example [] []) =
      (Halted, sv_example c, world_example [] [])"
proof (rule set_example)
  fix c f replies sv' w'
  let ?m = "\<lparr>m_command = SET, m_key = [107], m_value = [1]\<rparr>"
  assume c: "sharded_new 4 2 400 = Inr c" "encode SET [107] [1] = Inr f"
    and inv: "\<forall>rs. service_inv length example_codec 0 (sv_example c) (world_example [] rs) Map.empty"
    and v: "validate_inputs length example_codec (\<lambda>_. 5) c 0 [f] =
      Inr ([(\<lparr>rq_command = SET, rq_key = [107], rq_value = [1], rq_expires = 0\<rparr>, default_reply\<lparr>rp_consumed := length f\<rparr>)], [?m])"
  obtain b where b: "Encode ?m = Inr b" "length b = 26"
    using Encode_ok_iff [of ?m] length_Encode [of ?m] by (auto simp: loggable_def limit_defs)
  have "Size [?m] = Inr 26"
    using b by (simp add: Size_def sz_add_exact sz_mod_def)
  moreover have "WriteExact 0 b (world_example [] []) = (Halted, world_example [] [])"
    using b(2) by (simp add: WriteExact_def WriteLoop_steps world_example_def)
  ultimately have "logBatch [?m] (aof_example 0 1000 True) (world_example [] []) =
      (Halted, aof_example 0 1000 True, world_example [] [])"
    using b(1) by (simp add: logBatch_def aof_example_def sz_sub_exact sz_mod_def iobind_def)
  moreover have "needsRewrite [?m] (aof_example 0 1000 True) = Inr False"
    using \<open>Size [?m] = Inr 26\<close> by (simp add: needsRewrite_def aof_example_def sz_sub_exact sz_mod_def)
  ultimately have "HandleBatch length example_codec (\<lambda>_. 5) 5 (\<lambda>_. 6) [f] (sv_example c) (world_example [] []) =
      (Halted, sv_example c, world_example [] [])"
    using v by (simp add: HandleBatch_def commit_batch_def sv_example_def)
  with c inv show thesis
    using that by blast
qed


lemma restart_example:
  assumes "sharded_new 4 2 400 = Inr c" and "service_inv length example_codec 0 (sv_example c) (world_example [] []) Map.empty"
  shows "\<exists>sv2 w3. service_new length example_codec 9 4 2 1000 400 (world_example [] (replicate 8 (Sys_ok 1))) = (Done sv2, w3)"
  using restart_progress [OF assms(2,1), where ?w2.0 = "world_example [] (replicate 8 (Sys_ok 1))" and i = 0 and ma = 1000
      and t = 9 and rs = "[]"]
  by (auto simp: sv_example_def aof_example_def world_example_def sz_mod_def healthy_def log_data_def)



end
