(* ===== verification/Kv_Client.thy ===== *)
theory Kv_Client
  imports Service_Recovery
begin

text \<open>
  The cache client of \<open>include/kvrpc/kvcache_client.h\<close>: the request each method sends and the
  completion that checks the response and settles the promise. The composition with
  \<open>CacheService\<close> shows what the caller of a method gets for a frame that is served in a batch.
\<close>

section \<open>The client\<close>

record kv_client =
  kc_max_frame_bytes :: nat
  kc_next :: "64 word"

text \<open>The frame handed to the transport with its identifier.\<close>

definition kv_Request :: "command \<Rightarrow> bytes \<Rightarrow> bytes \<Rightarrow> kv_client \<Rightarrow> (64 word \<times> bytes) result \<times> kv_client" where
  "kv_Request command key value cl =
     (if length key > MAX_KEY_SIZE \<or>
         length value > (if command = SET_TTL then MAX_WIRE_VALUE_SIZE else MAX_VALUE_SIZE) \<or>
         HEADER_SIZE + length key + length value > kc_max_frame_bytes cl
      then (Inl (Rpc_error EC_invalid_argument ''KVCache request exceeds frame limit''), cl)
      else case encode command key value of
          Inl e \<Rightarrow> (Inl e, cl)
        | Inr request \<Rightarrow> (Inr (kc_next cl, request), cl\<lparr>kc_next := kc_next cl + 1\<rparr>))"

definition kv_Set :: "bytes \<Rightarrow> bytes \<Rightarrow> kv_client \<Rightarrow> (64 word \<times> bytes) result \<times> kv_client" where
  "kv_Set key value = kv_Request SET key value"

definition kv_Get :: "bytes \<Rightarrow> kv_client \<Rightarrow> (64 word \<times> bytes) result \<times> kv_client" where
  "kv_Get key = kv_Request GET key []"

definition kv_Delete :: "bytes \<Rightarrow> kv_client \<Rightarrow> (64 word \<times> bytes) result \<times> kv_client" where
  "kv_Delete key = kv_Request DEL key []"

definition kv_Stats :: "kv_client \<Rightarrow> (64 word \<times> bytes) result \<times> kv_client" where
  "kv_Stats = kv_Request STATS [] []"

definition kv_Lookup :: "bytes \<Rightarrow> kv_client \<Rightarrow> (64 word \<times> bytes) result \<times> kv_client" where
  "kv_Lookup key = kv_Request LOOKUP key []"

definition kv_SetWithTTL :: "codec \<Rightarrow> bytes \<Rightarrow> bytes \<Rightarrow> int \<Rightarrow> kv_client \<Rightarrow> (64 word \<times> bytes) result \<times> kv_client" where
  "kv_SetWithTTL cd key value ttl cl =
     (if ttl \<le> 0 \<or> length value > MAX_VALUE_SIZE
      then (Inl (Rpc_error EC_invalid_argument ''TTL must be positive''), cl)
      else kv_Request SET_TTL key (cd_ser cd (cv_empty\<lparr>cv_value := value, cv_ttl := nat ttl\<rparr>)) cl)"

text \<open>The type argument of \<open>Request\<close>, and what its promise holds.\<close>

datatype kv_type = KT_bool | KT_string | KT_optional

datatype kv_value = KV_bool bool | KV_string bytes | KV_optional "bytes option"

definition kv_read :: "codec \<Rightarrow> nat \<Rightarrow> kv_type \<Rightarrow> command \<Rightarrow> bytes \<Rightarrow> bytes \<Rightarrow> kv_value result" where
  "kv_read cd limit t command key response =
     (let h = decodeHeader response in
      rbind (throw_if (h_command h \<noteq> command_code command \<or> unat (h_key_len h) \<noteq> length key \<or> length response > limit \<or>
               (command \<in> {SET, SET_TTL, DEL} \<and> h_value_len h \<noteq> 0))
              (Rpc_error EC_protocol ''Unexpected KVCache response'')) (\<lambda>_.
      rbind (throw_if (frame_key h response \<noteq> key) (Rpc_error EC_protocol ''KVCache response key mismatch'')) (\<lambda>_.
      case t of
        KT_bool \<Rightarrow> Inr (KV_bool True)
      | KT_optional \<Rightarrow>
          (case cd_parse cd (frame_value h response) of
             None \<Rightarrow> Inl (Rpc_error EC_protocol ''Invalid lookup result'')
           | Some item \<Rightarrow> Inr (KV_optional (if cv_found item then Some (cv_value item) else None)))
      | KT_string \<Rightarrow> Inr (KV_string (frame_value h response)))))"

definition kv_complete ::
  "codec \<Rightarrow> nat \<Rightarrow> kv_type \<Rightarrow> command \<Rightarrow> bytes \<Rightarrow> bytes \<Rightarrow> exn option \<Rightarrow> kv_value result \<times> bool" where
  "kv_complete cd limit t command key response error =
     (case error of
        Some e \<Rightarrow> (Inl e, True)
      | None \<Rightarrow>
          (case kv_read cd limit t command key response of
             Inr v \<Rightarrow> (Inr v, True)
           | Inl e \<Rightarrow> (Inl e, (case e of Rpc_error c _ \<Rightarrow> c \<noteq> EC_protocol | Remote_error _ _ \<Rightarrow> True | _ \<Rightarrow> False))))"

section \<open>The methods as operations\<close>

datatype kv_op = Do_set bytes bytes | Do_get bytes | Do_delete bytes | Do_stats | Do_lookup bytes | Do_set_ttl bytes bytes int

fun kv_issue :: "codec \<Rightarrow> kv_op \<Rightarrow> kv_client \<Rightarrow> (64 word \<times> bytes) result \<times> kv_client" where
  "kv_issue cd (Do_set k v) = kv_Set k v"
| "kv_issue cd (Do_get k) = kv_Get k"
| "kv_issue cd (Do_delete k) = kv_Delete k"
| "kv_issue cd Do_stats = kv_Stats"
| "kv_issue cd (Do_lookup k) = kv_Lookup k"
| "kv_issue cd (Do_set_ttl k v ttl) = kv_SetWithTTL cd k v ttl"

fun op_command :: "kv_op \<Rightarrow> command" where
  "op_command (Do_set k v) = SET"
| "op_command (Do_get k) = GET"
| "op_command (Do_delete k) = DEL"
| "op_command Do_stats = STATS"
| "op_command (Do_lookup k) = LOOKUP"
| "op_command (Do_set_ttl k v ttl) = SET_TTL"

fun op_key :: "kv_op \<Rightarrow> bytes" where
  "op_key (Do_set k v) = k"
| "op_key (Do_get k) = k"
| "op_key (Do_delete k) = k"
| "op_key Do_stats = []"
| "op_key (Do_lookup k) = k"
| "op_key (Do_set_ttl k v ttl) = k"

fun op_type :: "kv_op \<Rightarrow> kv_type" where
  "op_type (Do_get k) = KT_string"
| "op_type Do_stats = KT_string"
| "op_type (Do_lookup k) = KT_optional"
| "op_type _ = KT_bool"

text \<open>What the caller may see, given the store that the requests before this one built.\<close>

fun op_outcome :: "nat \<Rightarrow> store \<Rightarrow> kv_op \<Rightarrow> kv_value \<Rightarrow> bool" where
  "op_outcome now m (Do_get k) r \<longleftrightarrow> r = KV_string [] \<or> (\<exists>v x. live_at now (m k) = Some (v, x) \<and> r = KV_string v)"
| "op_outcome now m (Do_lookup k) r \<longleftrightarrow>
     r = KV_optional None \<or> (\<exists>v x. live_at now (m k) = Some (v, x) \<and> r = KV_optional (Some v))"
| "op_outcome now m Do_stats r \<longleftrightarrow> (\<exists>s. r = KV_string s)"
| "op_outcome now m _ r \<longleftrightarrow> r = KV_bool True"

text \<open>What the service stores for an operation.\<close>

fun op_store :: "nat \<Rightarrow> kv_op \<Rightarrow> store \<Rightarrow> store" where
  "op_store now (Do_set k v) m = m(k \<mapsto> (v, 0))"
| "op_store now (Do_set_ttl k v ttl) m = m(k \<mapsto> (v, sz_add now (nat ttl)))"
| "op_store now (Do_delete k) m = m(k := None)"
| "op_store now _ m = m"

text \<open>The service refuses an entry that a shard cannot hold and a TTL of more than ten years.\<close>

fun op_refused :: "(bytes \<Rightarrow> nat) \<Rightarrow> sharded \<Rightarrow> kv_op \<Rightarrow> bool" where
  "op_refused hash c (Do_set k v) \<longleftrightarrow> \<not> sharded_canStore hash k v c"
| "op_refused hash c (Do_set_ttl k v ttl) \<longleftrightarrow> \<not> sharded_canStore hash k v c \<or> nat ttl > MAX_TTL"
| "op_refused hash c _ \<longleftrightarrow> False"

section \<open>Lemmas\<close>

lemma kv_RequestD:
  assumes "kv_Request c k v cl = (Inr (rid, f), cl')"
  shows "encode c k v = Inr f" "c \<noteq> SET_TTL \<Longrightarrow> length v \<le> MAX_VALUE_SIZE" "rid = kc_next cl" "kc_next cl' = rid + 1"
  using assms by (auto simp: kv_Request_def split: if_splits sum.splits)

lemma check_encoded:
  assumes "encode c k v = Inr f" and "c \<notin> {SET, SET_TTL} \<longrightarrow> v = []" and "c = STATS \<longrightarrow> k = []" and "length v \<le> MAX_VALUE_SIZE"
    and "c \<noteq> SET_TTL"
  shows "check_request hash cd now cache f =
    (if c = SET \<and> \<not> sharded_canStore hash k v cache then Inl (Runtime_error ''Entry exceeds byte limit'')
     else Inr (Valid \<lparr>rq_command = c, rq_key = k, rq_value = v, rq_expires = 0\<rparr> (length f)
            (if c = SET \<or> c = DEL then [\<lparr>m_command = c, m_key = k, m_value = v\<rparr>] else [])))"
proof -
  note p = parse_encoded [OF assms(1), of "[]", simplified]
  have "\<not> length f < HEADER_SIZE"
    using length_encode [OF assms(1)] by simp
  moreover from this p have "frame_total (decodeHeader f) = length f"
    by (auto simp: kv_frame_size_def Let_def)
  moreover have "v = [] \<longrightarrow> h_value_len (decodeHeader f) = 0" "k = [] \<longrightarrow> h_key_len (decodeHeader f) = 0"
    using decodeHeader_encode(1) [OF assms(1), of "[]"] by simp_all
  ultimately show ?thesis
    using p assms(2-5) by (auto simp: check_request_def Let_def)
qed

lemma check_encoded_ttl:
  assumes "encode SET_TTL k v = Inr f" and "cd_parse cd v = Some item" and "0 < cv_ttl item"
    and "length (cv_value item) \<le> MAX_VALUE_SIZE"
  shows "check_request hash cd now cache f =
    (if cv_ttl item > MAX_TTL then Inl (Runtime_error ''Invalid TTL request'')
     else if \<not> sharded_canStore hash k (cv_value item) cache then Inl (Runtime_error ''Entry exceeds byte limit'')
     else Inr (Valid \<lparr>rq_command = SET_TTL, rq_key = k, rq_value = cv_value item, rq_expires = sz_add now (cv_ttl item)\<rparr> (length f)
            [\<lparr>m_command = SET_TTL, m_key = k,
              m_value = cd_ser cd (item\<lparr>cv_ttl := 0, cv_expires := sz_add now (cv_ttl item)\<rparr>)\<rparr>]))"
proof -
  note p = parse_encoded [OF assms(1), of "[]", simplified]
  have "\<not> length f < HEADER_SIZE"
    using length_encode [OF assms(1)] by simp
  moreover from this p have "frame_total (decodeHeader f) = length f"
    by (auto simp: kv_frame_size_def Let_def)
  ultimately show ?thesis
    using p assms(2-4) by (auto simp: check_request_def Let_def)
qed

lemma validate_inputs_nth:
  "validate_inputs hash cd tv cache i inputs = Inr (rs, ms) \<Longrightarrow> j < length inputs \<Longrightarrow>
     j < length rs \<and> rs ! j = (case check_request hash cd (tv (i + j)) cache (inputs ! j) of
        Inl e \<Rightarrow> (default_request, default_reply\<lparr>rp_close := True\<rparr>)
      | Inr Incomplete \<Rightarrow> (default_request, default_reply)
      | Inr (Valid q n _) \<Rightarrow> (q, default_reply\<lparr>rp_consumed := n\<rparr>))"
proof (induction inputs arbitrary: i j rs ms)
  case (Cons data inputs)
  obtain rs' ms' where v: "validate_inputs hash cd tv cache (Suc i) inputs = Inr (rs', ms')"
    using Cons.prems(1) by (auto split: sum.splits verdict.splits if_splits)
  then have "\<exists>p. rs = p # rs' \<and> p = (case check_request hash cd (tv i) cache data of
        Inl e \<Rightarrow> (default_request, default_reply\<lparr>rp_close := True\<rparr>)
      | Inr Incomplete \<Rightarrow> (default_request, default_reply)
      | Inr (Valid q n _) \<Rightarrow> (q, default_reply\<lparr>rp_consumed := n\<rparr>))"
    using Cons.prems(1) by (auto split: sum.splits verdict.splits if_splits)
  with Cons.IH [OF v, of "j - 1"] Cons.prems(2) show ?case
    by (cases j) auto
qed simp

lemma served_nth:
  "served cd ta i m rs replies \<Longrightarrow> j < length rs \<Longrightarrow> j < length replies \<and>
     (if accepted (snd (rs ! j))
      then \<exists>text bs. encode (rq_command (fst (rs ! j))) (rq_key (fst (rs ! j))) text = Inr bs \<and>
             allowed_response cd (ta (i + j)) (run_store (take j rs) m) (fst (rs ! j)) text \<and>
             replies ! j = snd (rs ! j)\<lparr>rp_bytes := bs\<rparr>
      else replies ! j = snd (rs ! j))"
proof (induction rs arbitrary: i j m replies)
  case (Cons p rs)
  obtain q rep where p: "p = (q, rep)"
    by fastforce
  obtain rep' replies' where r: "replies = rep' # replies'"
    using Cons.prems(1) p by (cases replies) auto
  have IH: "served cd ta (Suc i) (if accepted rep then req_step q m else m) rs replies'"
    using Cons.prems(1) p r by (auto simp del: req_step.simps split: if_splits)
  show ?case
  proof (cases j)
    case 0
    with Cons.prems(1) p r show ?thesis
      by (auto simp del: req_step.simps split: if_splits)
  next
    case (Suc j')
    with Cons.IH [OF IH, of j'] Cons.prems(2) p r show ?thesis
      by (cases "accepted rep") (auto simp del: req_step.simps)
  qed
qed simp

lemma run_store_small:
  "\<forall>(q, rep) \<in> set rs. accepted rep \<longrightarrow> request_ok hash c q \<Longrightarrow> store_small m \<Longrightarrow> store_small (run_store rs m)"
proof (induction rs arbitrary: m)
  case (Cons p rs)
  then show ?case
    using store_small_step [of m hash c "fst p"] by (cases p) (auto simp del: req_step.simps)
qed simp

lemma run_store_snoc: "run_store (rs @ [(q, rep)]) m = (if accepted rep then req_step q (run_store rs m) else run_store rs m)"
  by (induction rs arbitrary: m) (auto simp del: req_step.simps)

text \<open>The request that the service reads from an issued frame, or its refusal.\<close>

definition op_request :: "nat \<Rightarrow> kv_op \<Rightarrow> request \<Rightarrow> bool" where
  "op_request now op q \<longleftrightarrow> rq_command q = op_command op \<and> rq_key q = op_key op \<and> (\<forall>m. req_step q m = op_store now op m)"

lemma kv_issue_encode:
  assumes "kv_issue cd op cl = (Inr (rid, f), cl')"
  shows "\<exists>v. encode (op_command op) (op_key op) v = Inr f"
  using assms by (cases op)
    (auto simp: kv_Set_def kv_Get_def kv_Delete_def kv_Stats_def kv_Lookup_def kv_SetWithTTL_def split: if_splits dest: kv_RequestD(1))

lemma check_issued:
  assumes "codec_ok cd" and "kv_issue cd op cl = (Inr (rid, f), cl')" and "\<forall>k v ttl. op = Do_set_ttl k v ttl \<longrightarrow> ttl < 2 ^ 63"
  shows "if op_refused hash c op then \<exists>e. check_request hash cd now c f = Inl e
    else \<exists>q ms. check_request hash cd now c f = Inr (Valid q (length f) ms) \<and> op_request now op q"
proof (cases op)
  case (Do_set_ttl k v ttl)
  let ?item = "cv_empty\<lparr>cv_value := v, cv_ttl := nat ttl\<rparr>"
  have enc: "encode SET_TTL k (cd_ser cd ?item) = Inr f" and v: "length v \<le> MAX_VALUE_SIZE" and ttl: "0 < ttl"
    using assms(2) Do_set_ttl by (auto simp: kv_SetWithTTL_def dest: kv_RequestD(1) split: if_splits)
  have "cv_wf ?item"
    using v ttl assms(3) Do_set_ttl by (auto simp: cv_wf_def cv_empty_def limit_defs nat_less_iff)
  then have "cd_parse cd (cd_ser cd ?item) = Some ?item"
    by (rule codec_roundtrip [OF assms(1)])
  from check_encoded_ttl [OF enc this] v ttl Do_set_ttl show ?thesis
    by (auto simp: op_request_def cv_empty_def)
next
  case (Do_set k v)
  with assms(2) have "kv_Request SET k v cl = (Inr (rid, f), cl')"
    by (simp add: kv_Set_def)
  from check_encoded [OF kv_RequestD(1) [OF this]] kv_RequestD(2) [OF this] Do_set show ?thesis
    by (simp add: op_request_def)
qed (use assms(2) in \<open>auto simp: kv_Get_def kv_Delete_def kv_Stats_def kv_Lookup_def op_request_def
      check_encoded [OF kv_RequestD(1)]\<close>)

lemma kv_read_encoded:
  assumes "encode c k text = Inr bs" and "MAX_FRAME_SIZE \<le> limit" and "c \<in> {SET, SET_TTL, DEL} \<longrightarrow> text = []"
  shows "kv_read cd limit t c k bs = (case t of
        KT_bool \<Rightarrow> Inr (KV_bool True)
      | KT_optional \<Rightarrow>
          (case cd_parse cd text of
             None \<Rightarrow> Inl (Rpc_error EC_protocol ''Invalid lookup result'')
           | Some item \<Rightarrow> Inr (KV_optional (if cv_found item then Some (cv_value item) else None)))
      | KT_string \<Rightarrow> Inr (KV_string text))"
proof -
  note p = parse_encoded [OF assms(1), of "[]", simplified] and h = decodeHeader_encode(1) [OF assms(1), of "[]", simplified]
  have "length bs \<le> MAX_FRAME_SIZE"
    using encodeD(1,2) [OF assms(1)] length_encode [OF assms(1)] by (simp add: MAX_FRAME_SIZE_def)
  moreover have "unat (h_key_len (decodeHeader bs)) = length k"
    using encodeD(1) [OF assms(1)] h by (simp add: unat_of_nat_limits)
  moreover have "\<not> (c \<in> {SET, SET_TTL, DEL} \<and> h_value_len (decodeHeader bs) \<noteq> 0)"
    using assms(3) h by auto
  moreover have "h_command (decodeHeader bs) = command_code c"
    using h by simp
  ultimately show ?thesis
    using p assms(2) unfolding kv_read_def Let_def by (cases t) auto
qed

lemma kv_complete_allowed:
  assumes "codec_ok cd" and "op_request now op q" and "encode (rq_command q) (rq_key q) text = Inr bs"
    and "allowed_response cd t m q text" and "store_small m" and "MAX_FRAME_SIZE \<le> limit"
  shows "\<exists>v. kv_complete cd limit (op_type op) (op_command op) (op_key op) bs None = (Inr v, True) \<and> op_outcome t m op v"
proof -
  have wf: "cv_wf cv_empty" "live_at t (m k) = Some (v, x) \<Longrightarrow> cv_wf (cv_empty\<lparr>cv_found := True, cv_value := v\<rparr>)" for k v x
    using assms(5) by (auto simp: cv_wf_def cv_empty_def store_small_def limit_defs dest!: live_at_SomeD) fastforce
  have q: "rq_command q = op_command op" "rq_key q = op_key op"
    using assms(2) by (simp_all add: op_request_def)
  have none: "op_command op \<in> {SET, SET_TTL, DEL} \<longrightarrow> text = []"
    using assms(4) q by (auto simp: allowed_response_def)
  have rd: "kv_read cd limit (op_type op) (op_command op) (op_key op) bs = (case op_type op of
        KT_bool \<Rightarrow> Inr (KV_bool True)
      | KT_optional \<Rightarrow>
          (case cd_parse cd text of
             None \<Rightarrow> Inl (Rpc_error EC_protocol ''Invalid lookup result'')
           | Some item \<Rightarrow> Inr (KV_optional (if cv_found item then Some (cv_value item) else None)))
      | KT_string \<Rightarrow> Inr (KV_string text))"
    using assms(3,6) q none by (intro kv_read_encoded) simp_all
  show ?thesis
  proof (cases op)
    case (Do_lookup k)
    with assms(4) q have "text = cd_ser cd cv_empty \<or> (\<exists>v x. live_at t (m k) = Some (v, x) \<and>
        text = cd_ser cd (cv_empty\<lparr>cv_found := True, cv_value := v\<rparr>))"
      by (simp add: allowed_response_def)
    then show ?thesis
      using rd Do_lookup codec_roundtrip [OF assms(1)] wf by (auto simp: kv_complete_def cv_empty_def)
  qed (use rd assms(4) q in \<open>auto simp: kv_complete_def allowed_response_def\<close>)
qed

section \<open>Properties\<close>



section \<open>A frame that stops the service\<close>

text \<open>
  C39. Validation does not cover the record that is logged: a \<open>SET_TTL\<close> frame within all limits
  whose message carries fields unknown to the schema is accepted, but the message with the
  expiry time in place of the TTL may be longer than the protocol allows. Encoding it for the
  log then throws outside of the per-request handler, and the whole service refuses all
  further work until it is restarted.
\<close>
theorem oversized_ttl_record_stops_service:
  assumes "\<not> sv_failed sv" and "encode SET_TTL k (cd_ser cd item) = Inr f" and "cd_parse cd (cd_ser cd item) = Some item"
    and "0 < cv_ttl item" and "cv_ttl item \<le> MAX_TTL" and "length (cv_value item) \<le> MAX_VALUE_SIZE"
    and "sharded_canStore hash k (cv_value item) (sv_cache sv)"
    and "length (cd_ser cd (item\<lparr>cv_ttl := 0, cv_expires := sz_add (tv 0) (cv_ttl item)\<rparr>)) > MAX_WIRE_VALUE_SIZE"
  shows "HandleBatch hash cd tv tc ta [f] sv w =
    (Throws (Length_error ''KVCache key or value exceeds protocol limit''), sv\<lparr>sv_failed := True\<rparr>, w)"
proof -
  let ?m = "\<lparr>m_command = SET_TTL, m_key = k, m_value = cd_ser cd (item\<lparr>cv_ttl := 0, cv_expires := sz_add (tv 0) (cv_ttl item)\<rparr>)\<rparr>"
  have "Size [?m] = Inl (Length_error ''KVCache key or value exceeds protocol limit'')"
    using assms(8) by (simp add: Size_def Encode_def encode_def)
  then show ?thesis
    using assms(1,5,7) check_encoded_ttl [OF assms(2-4,6), of hash "tv 0" "sv_cache sv"]
    by (simp add: HandleBatch_def commit_batch_def needsRewrite_def)
qed

lemma canStore_example:
  obtains c where "sharded_new 4 2 4000000 = Inr c" and "\<forall>k v. length k + length v \<le> 1500000 \<longrightarrow> sharded_canStore length k v c"
proof -
  obtain c where c: "sharded_new 4 2 4000000 = Inr c"
    using sharded_new_ok [of 4 2 4000000] by auto
  have m: "2 * 4000000 < sz_mod"
    by (simp add: sz_mod_def)
  have inv: "sharded_inv length c"
    using c m by (rule sharded_new_inv)
  have "sharded_canStore length k v c" if "length k + length v \<le> 1500000" for k v
    using sharded_new_shard(4) [OF c m, of "shard_index length k c"] shard_index_less [OF inv, of k] inv that
    by (simp add: sharded_canStore_def lru_canStore_def getShard_def sharded_inv_def sharded_newD(2) [OF c] entry_cost_def
        SIZEOF_ENTRY_def sz_add_def sz_mod_def)
  with c that show thesis
    by blast
qed

lemma nlen_small: "n < 256 \<Longrightarrow> 0 < n \<Longrightarrow> nlen n = 1"
  by (simp add: nlen.simps)

theorem oversized_ttl_record_stops_service_witness:
  "\<exists>c f. sharded_new 4 2 4000000 = Inr c \<and>
     HandleBatch length example_codec (\<lambda>_. 2 ^ 40) (2 ^ 40) (\<lambda>_. 2 ^ 40) [f] (sv_example c) (world_example [] []) =
       (Throws (Length_error ''KVCache key or value exceeds protocol limit''), (sv_example c)\<lparr>sv_failed := True\<rparr>, world_example [] [])"
proof -
  let ?item = "\<lparr>cv_found = False, cv_value = replicate (1024 * 1024) 0, cv_expires = 0, cv_ttl = 1, cv_unknown = replicate 58 0\<rparr>"
  obtain c where c: "sharded_new 4 2 4000000 = Inr c" "\<forall>k v. length k + length v \<le> 1500000 \<longrightarrow> sharded_canStore length k v c"
    using canStore_example .
  have "length (cd_ser example_codec ?item) \<le> MAX_WIRE_VALUE_SIZE"
    by (simp add: example_codec_def example_ser_def ser_nat_def nlen.simps [of 0] nlen_small limit_defs)
  then obtain f where f: "encode SET_TTL [107] (cd_ser example_codec ?item) = Inr f"
    using encode_ok_iff [of SET_TTL "[107]"] by (auto simp: MAX_KEY_SIZE_def)
  have "cv_wf ?item"
    by (simp add: cv_wf_def)
  then have p: "cd_parse example_codec (cd_ser example_codec ?item) = Some ?item"
    by (rule codec_roundtrip [OF example_codec_ok])
  have "nlen (2 ^ 40 + 1) = 6"
    by code_simp
  then have "length (cd_ser example_codec (?item\<lparr>cv_ttl := 0, cv_expires := sz_add (2 ^ 40) (cv_ttl ?item)\<rparr>)) > MAX_WIRE_VALUE_SIZE"
    by (simp add: example_codec_def example_ser_def ser_nat_def nlen.simps [of 0] nlen_small limit_defs sz_add_def sz_mod_def)
  then have "HandleBatch length example_codec (\<lambda>_. 2 ^ 40) (2 ^ 40) (\<lambda>_. 2 ^ 40) [f] (sv_example c) (world_example [] []) =
       (Throws (Length_error ''KVCache key or value exceeds protocol limit''), (sv_example c)\<lparr>sv_failed := True\<rparr>, world_example [] [])"
    using c(2) by (intro oversized_ttl_record_stops_service [OF _ f p]) (simp_all add: sv_example_def MAX_TTL_def limit_defs)
  with c(1) show ?thesis
    by blast
qed

end
