(* ===== verification/Net_Buffer.thy ===== *)
theory Net_Buffer
  imports Prelude "HOL-Library.Sublist"
begin

text \<open>
  The receive buffer of \<open>include/kvrpc/buffer.h\<close>, shared by the server's peers and by the
  client's connections, and the interface of a frame sizer, the callback that finds the end of
  the first frame in the buffered bytes. The buffer keeps consumed bytes in front of the live
  ones until an append finds them to be at least half of the storage. It implements a queue
  of bytes: the locale \<open>byte_queue\<close> states the contract, and its client lemma says that a run of
  operations sees a plain list. The locale \<open>frame_sizer\<close> has the one law that makes the frames
  of a byte stream independent of how the stream is cut into reads.
\<close>

section \<open>The buffer\<close>

record buffer =
  b_bytes :: bytes
  b_read :: nat

definition buffer_new :: buffer where
  "buffer_new = \<lparr>b_bytes = [], b_read = 0\<rparr>"

definition buf_size :: "buffer \<Rightarrow> nat" where
  "buf_size b = sz_sub (length (b_bytes b)) (b_read b)"

definition buf_data :: "buffer \<Rightarrow> bytes" where
  "buf_data b = drop (b_read b) (b_bytes b)"

definition buf_append :: "bytes \<Rightarrow> buffer \<Rightarrow> buffer" where
  "buf_append d b =
     (let b' = (if b_read b \<noteq> 0 \<and> b_read b \<ge> length (b_bytes b) div 2
                then b\<lparr>b_bytes := drop (b_read b) (b_bytes b), b_read := 0\<rparr> else b)
      in b'\<lparr>b_bytes := b_bytes b' @ d\<rparr>)"

definition consume :: "nat \<Rightarrow> buffer \<Rightarrow> buffer" where
  "consume n b =
     (let r = sz_add (b_read b) n
      in if r = length (b_bytes b) then b\<lparr>b_bytes := [], b_read := 0\<rparr> else b\<lparr>b_read := r\<rparr>)"

text \<open>The callers copy no more than \<^const>\<open>buf_size\<close> bytes.\<close>

definition buf_copy :: "nat \<Rightarrow> buffer \<Rightarrow> bytes" where
  "buf_copy n b = take n (buf_data b)"

text \<open>
  The read position never passes the end, and it stands at the end only of an empty buffer.
\<close>

definition buffer_inv :: "buffer \<Rightarrow> bool" where
  "buffer_inv b \<longleftrightarrow> length (b_bytes b) < sz_mod \<and>
     (b_read b < length (b_bytes b) \<or> b_bytes b = [] \<and> b_read b = 0)"

section \<open>A queue of bytes\<close>

datatype queue_op = Append bytes | Consume nat

fun queue_step :: "(bytes \<Rightarrow> 'b \<Rightarrow> 'b) \<Rightarrow> (nat \<Rightarrow> 'b \<Rightarrow> 'b) \<Rightarrow> queue_op \<Rightarrow> 'b \<Rightarrow> 'b" where
  "queue_step app con (Append d) b = app d b"
| "queue_step app con (Consume n) b = con n b"

abbreviation list_run :: "queue_op list \<Rightarrow> bytes \<Rightarrow> bytes" where
  "list_run \<equiv> fold (queue_step (\<lambda>d q. q @ d) drop)"

definition BUFFER_LIMIT :: nat where
  "BUFFER_LIMIT = 2 ^ 62"

text \<open>
  A run keeps at most \<^const>\<open>BUFFER_LIMIT\<close> bytes buffered and consumes only what is there.
\<close>

fun queue_ok :: "queue_op list \<Rightarrow> bytes \<Rightarrow> bool" where
  "queue_ok [] q \<longleftrightarrow> True"
| "queue_ok (Append d # ops) q \<longleftrightarrow> length q + length d \<le> BUFFER_LIMIT \<and> queue_ok ops (q @ d)"
| "queue_ok (Consume n # ops) q \<longleftrightarrow> n \<le> length q \<and> queue_ok ops (drop n q)"

locale byte_queue =
  fixes new :: 'b
    and size_of :: "'b \<Rightarrow> nat"
    and data_of :: "'b \<Rightarrow> bytes"
    and copy_of :: "nat \<Rightarrow> 'b \<Rightarrow> bytes"
    and append_to :: "bytes \<Rightarrow> 'b \<Rightarrow> 'b"
    and consume_from :: "nat \<Rightarrow> 'b \<Rightarrow> 'b"
    and inv :: "'b \<Rightarrow> bool"
  assumes inv_new: "inv new"
    and data_new: "data_of new = []"
    and size_law: "inv b \<Longrightarrow> size_of b = length (data_of b)"
    and copy_law: "n \<le> length (data_of b) \<Longrightarrow> copy_of n b = take n (data_of b)"
    and append_law: "inv b \<Longrightarrow> length (data_of b) + length d \<le> BUFFER_LIMIT \<Longrightarrow>
          inv (append_to d b) \<and> data_of (append_to d b) = data_of b @ d"
    and consume_law: "inv b \<Longrightarrow> n \<le> length (data_of b) \<Longrightarrow>
          inv (consume_from n b) \<and> data_of (consume_from n b) = drop n (data_of b)"
begin

lemma run_refines:
  "inv b \<Longrightarrow> queue_ok ops (data_of b) \<Longrightarrow>
     inv (fold (queue_step append_to consume_from) ops b) \<and>
     data_of (fold (queue_step append_to consume_from) ops b) = list_run ops (data_of b)"
proof (induction ops arbitrary: b)
  case (Cons x ops)
  then show ?case
    using append_law [of b] consume_law [of b] by (cases x) auto
qed simp

lemma new_refines:
  "queue_ok ops [] \<Longrightarrow>
     size_of (fold (queue_step append_to consume_from) ops new) = length (list_run ops []) \<and>
     data_of (fold (queue_step append_to consume_from) ops new) = list_run ops []"
  using run_refines [of new ops] by (simp add: inv_new data_new size_law)

lemma copy_consume:
  assumes "inv b" and "n \<le> length (data_of b)"
  shows "copy_of n b @ data_of (consume_from n b) = data_of b" and "length (copy_of n b) = n"
    and "inv (consume_from n b)" and "length (data_of (consume_from n b)) = length (data_of b) - n"
  using assms consume_law [of b n] by (auto simp: copy_law)

end

lemma buf_size_exact: "buffer_inv b \<Longrightarrow> buf_size b = length (buf_data b)"
  by (auto simp: buffer_inv_def buf_size_def buf_data_def sz_sub_exact)

text \<open>
  The bytes an append leaves in front of the live ones are fewer than the live ones, so that
  the storage stays within twice the content without a move of the bytes at every call.
\<close>

lemma buf_append_storage:
  "buffer_inv b \<Longrightarrow> length (b_bytes (buf_append d b)) \<le> 2 * length (buf_data b) + length d"
  by (auto simp: buffer_inv_def buf_append_def buf_data_def Let_def)

lemma buf_append_law:
  assumes "buffer_inv b" and "length (buf_data b) + length d \<le> BUFFER_LIMIT"
  shows "buffer_inv (buf_append d b) \<and> buf_data (buf_append d b) = buf_data b @ d"
proof -
  have "length (b_bytes (buf_append d b)) < sz_mod"
    using buf_append_storage [OF assms(1), of d] assms(2) by (simp add: BUFFER_LIMIT_def sz_mod_def)
  then show ?thesis
    using assms(1) by (auto simp: buffer_inv_def buf_append_def buf_data_def Let_def split: if_splits)
qed

lemma buf_consume_law:
  assumes "buffer_inv b" and "n \<le> length (buf_data b)"
  shows "buffer_inv (consume n b) \<and> buf_data (consume n b) = drop n (buf_data b)"
proof -
  have "sz_add (b_read b) n = b_read b + n"
    using assms by (intro sz_add_exact) (auto simp: buffer_inv_def buf_data_def)
  then show ?thesis
    using assms by (auto simp: buffer_inv_def consume_def buf_data_def Let_def ac_simps)
qed

interpretation bq: byte_queue buffer_new buf_size buf_data buf_copy buf_append consume buffer_inv
  by unfold_locales
    (simp_all add: buf_size_exact buf_append_law buf_consume_law buf_copy_def,
     simp_all add: buffer_new_def buffer_inv_def buf_data_def)

section \<open>Frames of a byte stream\<close>

text \<open>
  A sizer returns the size of the first frame, 0 when it needs more bytes, or throws.
  \<open>frames sizer bs\<close> cuts \<open>bs\<close> into the complete frames at its front and the rest.
\<close>

function frames :: "(bytes \<Rightarrow> nat result) \<Rightarrow> bytes \<Rightarrow> bytes list \<times> bytes" where
  "frames sizer bs =
     (case sizer bs of
        Inl _ \<Rightarrow> ([], bs)
      | Inr n \<Rightarrow> if 0 < n \<and> n \<le> length bs
                then let (fs, rest) = frames sizer (drop n bs) in (take n bs # fs, rest)
                else ([], bs))"
  by pat_completeness auto
termination
  by (relation "measure (\<lambda>(_, bs). length bs)") auto

declare frames.simps [simp del]

lemma frames_concat: "concat (fst (frames sizer bs)) @ snd (frames sizer bs) = bs"
proof (induction sizer bs rule: frames.induct)
  case (1 sizer bs)
  then show ?case
    by (subst (1 2) frames.simps) (auto split: sum.splits prod.splits)
qed

locale frame_sizer =
  fixes sizer :: "bytes \<Rightarrow> nat result"
  assumes stable: "sizer bs = Inr n \<Longrightarrow> 0 < n \<Longrightarrow> sizer (bs @ r) = Inr n"
    and stable_error: "sizer bs = Inl e \<Longrightarrow> sizer (bs @ r) = Inl e"
begin

lemma frames_append:
  "frames sizer (bs @ r) =
     (let (fs, rest) = frames sizer bs; (gs, rest') = frames sizer (rest @ r) in (fs @ gs, rest'))"
proof (induction "length bs" arbitrary: bs rule: less_induct)
  case less
  show ?case
  proof (cases "\<exists>n. sizer bs = Inr n \<and> 0 < n \<and> n \<le> length bs")
    case True
    then obtain n where n: "sizer bs = Inr n" "0 < n" "n \<le> length bs"
      by blast
    then show ?thesis
      using less [of "drop n bs"] stable [OF n(1,2), of r]
      by (subst (1 2) frames.simps) (auto split: prod.splits)
  next
    case False
    then have "frames sizer bs = ([], bs)"
      by (subst frames.simps) (auto split: sum.splits)
    then show ?thesis
      by (simp split: prod.splits)
  qed
qed

lemma frames_chunks:
  "foldl (\<lambda>(fs, rest) c. let (gs, rest') = frames sizer (rest @ c) in (fs @ gs, rest')) (frames sizer bs) cs =
     frames sizer (bs @ concat cs)"
proof (induction cs arbitrary: bs)
  case (Cons c cs)
  have "(\<lambda>(fs, rest) c. let (gs, rest') = frames sizer (rest @ c) in (fs @ gs, rest')) (frames sizer bs) c =
      frames sizer (bs @ c)"
    by (simp add: frames_append [of bs c] split: prod.splits)
  with Cons [of "bs @ c"] show ?case
    by simp
qed simp

end

section \<open>Properties\<close>

text \<open>
  C37. The buffer is a queue of bytes: after any run of appends and consumes from the new buffer
  that keeps at most \<open>2 ^ 62\<close> bytes buffered and consumes only what is there, \<open>size()\<close> and
  \<open>data()\<close> are those of the plain list, no subtraction wraps around, and an append leaves the
  storage at most twice the content it found plus what it added.
\<close>
theorem buffer_is_byte_queue:
  assumes "queue_ok ops []"
  shows "buf_size (fold (queue_step buf_append consume) ops buffer_new) = length (list_run ops []) \<and>
    buf_data (fold (queue_step buf_append consume) ops buffer_new) = list_run ops [] \<and>
    length (b_bytes (buf_append d (fold (queue_step buf_append consume) ops buffer_new))) \<le>
      2 * length (list_run ops []) + length d"
  using bq.new_refines [OF assms] bq.run_refines [of buffer_new ops] buf_append_storage assms
  by (simp add: bq.inv_new bq.data_new) metis

theorem buffer_is_byte_queue_witness:
  "buf_data (fold (queue_step buf_append consume) [Append [1, 2, 3], Consume 2, Append [4], Consume 1] buffer_new) = [4]"
  using buffer_is_byte_queue [of "[Append [1, 2, 3], Consume 2, Append [4], Consume 1]"] by (simp add: BUFFER_LIMIT_def)

end
