(* ===== verification/Rpc_Protocol.thy ===== *)
theory Rpc_Protocol
  imports Net_Buffer Example_Encoding
begin

text \<open>
  The RPC protocol of \<open>include/kvrpc/rpc_protocol.h\<close>: the 16-byte frame header with magic,
  payload length and request identifier, the envelope it carries, and the conversion of
  arguments and results to and from the tagged \<open>Value\<close> of \<open>proto/rpc.proto\<close>. The serialization
  of the generated class \<open>Envelope\<close> and of the application's message types is a parameter;
  \<open>env_codec_ok\<close> and \<open>message_codec_ok\<close> state what protocol buffers document about it.
\<close>

section \<open>Messages\<close>

text \<open>
  \<open>Value\<close> is a oneof. \<open>sint64\<close> is an integer and \<open>uint64\<close> a natural number, both within
  64 bits; a \<open>double\<close> is its 64-bit pattern.
\<close>

datatype wire_value =
  V_none
| V_signed int
| V_unsigned nat
| V_real "64 word"
| V_bool bool
| V_string bytes
| V_message bytes

datatype env_type = REQUEST | RESPONSE | OTHER_TYPE nat

record envelope =
  ev_type :: env_type
  ev_method :: bytes
  ev_arguments :: "wire_value list"
  ev_result :: "wire_value option"
  ev_status :: nat
  ev_error :: bytes

definition envelope_new :: envelope where
  "envelope_new = \<lparr>ev_type = REQUEST, ev_method = [], ev_arguments = [], ev_result = None, ev_status = 0, ev_error = []\<rparr>"

record env_codec =
  ec_parse :: "bytes \<Rightarrow> envelope option"
  ec_ser :: "envelope \<Rightarrow> bytes"

section \<open>Frames\<close>

definition RPC_HEADER :: nat where
  [limit_defs]: "RPC_HEADER = 16"

definition KVR2 :: bytes where
  "KVR2 = [0x4B, 0x56, 0x52, 0x32]"

definition RpcFrameSize :: "bytes \<Rightarrow> nat result" where
  "RpcFrameSize bs =
     (if length bs < RPC_HEADER then Inr 0
      else if take 4 bs \<noteq> KVR2 then Inl (Rpc_error EC_protocol ''Invalid RPC version'')
      else Inr (RPC_HEADER + unat (be_val (take 4 (drop 4 bs)) :: 32 word)))"

text \<open>The caller supplies at least \<^const>\<open>RPC_HEADER\<close> bytes.\<close>

definition RpcId :: "bytes \<Rightarrow> (64 word) result" where
  "RpcId bs =
     (let rid = be_val (take 8 (drop 8 bs))
      in if rid = 0 then Inl (Rpc_error EC_protocol ''Zero request identifier'') else Inr rid)"

definition RpcEncode :: "env_codec \<Rightarrow> 64 word \<Rightarrow> envelope \<Rightarrow> nat \<Rightarrow> bytes result" where
  "RpcEncode ec rid message limit =
     (let size = length (ec_ser ec message)
      in if size > limit then Inl (Rpc_error EC_invalid_argument ''RPC payload exceeds limit'')
         else Inr (KVR2 @ be_bytes 4 (of_nat size :: 32 word) @ be_bytes 8 rid @ ec_ser ec message))"

definition RpcDecode :: "env_codec \<Rightarrow> bytes \<Rightarrow> envelope result" where
  "RpcDecode ec bs =
     (let bad = Inl (Rpc_error EC_protocol ''Invalid RPC envelope'')
      in if length bs < RPC_HEADER then bad
         else rbind (RpcFrameSize bs) (\<lambda>size.
           if size \<noteq> length bs then bad
           else case ec_parse ec (drop RPC_HEADER bs) of None \<Rightarrow> bad | Some e \<Rightarrow> Inr e))"

section \<open>Values\<close>

text \<open>
  The C++ types an argument or result may have: integers with their width in bits, \<open>double\<close>,
  strings, and message types, numbered. A \<open>const char*\<close> may be null.
\<close>

datatype ctype = T_bool | T_signed nat | T_unsigned nat | T_double | T_string | T_message nat

datatype 'm cvalue =
  C_bool bool
| C_signed int
| C_unsigned nat
| C_double "64 word"
| C_string bytes
| C_pointer "bytes option"
| C_message nat 'm

record 'm message_codec =
  mc_parse :: "nat \<Rightarrow> bytes \<Rightarrow> 'm option"
  mc_ser :: "nat \<Rightarrow> 'm \<Rightarrow> bytes"

fun ToValue :: "'m message_codec \<Rightarrow> 'm cvalue \<Rightarrow> wire_value result" where
  "ToValue mc (C_bool b) = Inr (V_bool b)"
| "ToValue mc (C_signed i) = Inr (V_signed i)"
| "ToValue mc (C_unsigned n) = Inr (V_unsigned n)"
| "ToValue mc (C_double d) = Inr (V_real d)"
| "ToValue mc (C_message t m) = Inr (V_message (mc_ser mc t m))"
| "ToValue mc (C_pointer None) = Inl (Rpc_error EC_invalid_argument ''Null string argument'')"
| "ToValue mc (C_pointer (Some s)) = Inr (V_string s)"
| "ToValue mc (C_string s) = Inr (V_string s)"

definition type_mismatch :: exn where
  "type_mismatch = Rpc_error EC_protocol ''RPC value type mismatch''"

fun FromValue :: "'m message_codec \<Rightarrow> ctype \<Rightarrow> wire_value \<Rightarrow> 'm cvalue result" where
  "FromValue mc T_bool v = (case v of V_bool b \<Rightarrow> Inr (C_bool b) | _ \<Rightarrow> Inl type_mismatch)"
| "FromValue mc (T_signed w) v =
     (case v of
        V_signed i \<Rightarrow> if - (2 ^ (w - 1)) \<le> i \<and> i \<le> 2 ^ (w - 1) - 1 then Inr (C_signed i) else Inl type_mismatch
      | _ \<Rightarrow> Inl type_mismatch)"
| "FromValue mc (T_unsigned w) v =
     (case v of V_unsigned n \<Rightarrow> if n \<le> 2 ^ w - 1 then Inr (C_unsigned n) else Inl type_mismatch | _ \<Rightarrow> Inl type_mismatch)"
| "FromValue mc T_double v = (case v of V_real d \<Rightarrow> Inr (C_double d) | _ \<Rightarrow> Inl type_mismatch)"
| "FromValue mc (T_message t) v =
     (case v of
        V_message bs \<Rightarrow> (case mc_parse mc t bs of Some m \<Rightarrow> Inr (C_message t m) | None \<Rightarrow> Inl type_mismatch)
      | _ \<Rightarrow> Inl type_mismatch)"
| "FromValue mc T_string v = (case v of V_string s \<Rightarrow> Inr (C_string s) | _ \<Rightarrow> Inl type_mismatch)"

section \<open>What the serialization promises\<close>

text \<open>
  Parsing inverts serialization for messages whose \<open>string\<close> fields are ASCII (protocol buffers
  require UTF-8 there and place no condition on \<open>bytes\<close> fields), whose integers are within the
  width of their fields and whose size is below 2 GiB.
\<close>

definition ascii :: "bytes \<Rightarrow> bool" where
  "ascii s \<longleftrightarrow> (\<forall>b \<in> set s. b < 128)"

fun value_wf :: "wire_value \<Rightarrow> bool" where
  "value_wf (V_signed i) \<longleftrightarrow> - (2 ^ 63) \<le> i \<and> i \<le> 2 ^ 63 - 1"
| "value_wf (V_unsigned n) \<longleftrightarrow> n \<le> 2 ^ 64 - 1"
| "value_wf _ \<longleftrightarrow> True"

fun envelope_wf :: "envelope \<Rightarrow> bool" where
  "envelope_wf e \<longleftrightarrow> ascii (ev_method e) \<and> ascii (ev_error e) \<and> ev_status e < 2 ^ 32 \<and>
     (\<forall>t. ev_type e \<noteq> OTHER_TYPE t) \<and> list_all value_wf (ev_arguments e) \<and> pred_option value_wf (ev_result e)"

declare envelope_wf.simps [simp del]

definition env_codec_ok :: "env_codec \<Rightarrow> bool" where
  "env_codec_ok ec \<longleftrightarrow>
     (\<forall>e. envelope_wf e \<and> length (ec_ser ec e) < 2 ^ 31 \<longrightarrow> ec_parse ec (ec_ser ec e) = Some e)"

definition message_codec_ok :: "'m message_codec \<Rightarrow> bool" where
  "message_codec_ok mc \<longleftrightarrow> (\<forall>t m. mc_parse mc t (mc_ser mc t m) = Some m)"

section \<open>Lemmas\<close>

lemma length_KVR2 [simp]: "length KVR2 = 4"
  by (simp add: KVR2_def)

lemma RpcFrameSize_layout:
  assumes "length n = 4" and "length rid = 8"
  shows "RpcFrameSize (KVR2 @ n @ rid @ r) = Inr (RPC_HEADER + unat (be_val n :: 32 word))"
  using assms by (simp add: RpcFrameSize_def limit_defs)

interpretation rpc: frame_sizer RpcFrameSize
  by unfold_locales (auto simp: RpcFrameSize_def limit_defs split: if_splits)

lemma RpcEncodeD:
  assumes "RpcEncode ec rid e limit = Inr bs"
  shows "length (ec_ser ec e) \<le> limit" "length bs = RPC_HEADER + length (ec_ser ec e)"
    "bs = KVR2 @ be_bytes 4 (of_nat (length (ec_ser ec e)) :: 32 word) @ be_bytes 8 rid @ ec_ser ec e"
  using assms by (auto simp: RpcEncode_def Let_def limit_defs split: if_splits)

lemma RpcEncode_ok: "length (ec_ser ec e) \<le> limit \<Longrightarrow> \<exists>bs. RpcEncode ec rid e limit = Inr bs"
  by (simp add: RpcEncode_def Let_def)

lemma RpcFrameSize_encode:
  assumes "RpcEncode ec rid e limit = Inr bs" and "limit < 2 ^ 31"
  shows "RpcFrameSize (bs @ r) = Inr (length bs)"
  using RpcEncodeD(1,3) [OF assms(1)] assms(2) by (simp add: RpcFrameSize_layout unat_of_nat limit_defs)

lemma RpcId_encode: "RpcEncode ec rid e limit = Inr bs \<Longrightarrow> rid \<noteq> 0 \<Longrightarrow> RpcId (bs @ r) = Inr rid"
  by (drule RpcEncodeD(3)) (simp add: RpcId_def)

lemma RpcDecode_encode:
  assumes "RpcEncode ec rid e limit = Inr bs" and "limit < 2 ^ 31" and "env_codec_ok ec" and "envelope_wf e"
  shows "RpcDecode ec bs = Inr e"
proof -
  note D = RpcEncodeD [OF assms(1)]
  have "drop RPC_HEADER bs = ec_ser ec e"
    using D(3) by (simp add: limit_defs)
  moreover have "ec_parse ec (ec_ser ec e) = Some e"
    using assms(2-4) D(1) by (simp add: env_codec_ok_def)
  ultimately show ?thesis
    using RpcFrameSize_encode [OF assms(1,2), of "[]"] D(2) by (simp add: RpcDecode_def)
qed

section \<open>Typed values\<close>

fun has_type :: "ctype \<Rightarrow> 'm cvalue \<Rightarrow> bool" where
  "has_type T_bool (C_bool b) \<longleftrightarrow> True"
| "has_type (T_signed w) (C_signed i) \<longleftrightarrow> - (2 ^ (w - 1)) \<le> i \<and> i \<le> 2 ^ (w - 1) - 1"
| "has_type (T_unsigned w) (C_unsigned n) \<longleftrightarrow> n \<le> 2 ^ w - 1"
| "has_type T_double (C_double d) \<longleftrightarrow> True"
| "has_type T_string (C_string s) \<longleftrightarrow> True"
| "has_type (T_message t) (C_message t' m) \<longleftrightarrow> t = t'"
| "has_type _ _ \<longleftrightarrow> False"

lemma FromValue_ToValue:
  "message_codec_ok mc \<Longrightarrow> has_type t v \<Longrightarrow> rbind (ToValue mc v) (FromValue mc t) = Inr v"
  by (induction t v rule: has_type.induct) (auto simp: message_codec_ok_def)

lemma FromValue_typed: "FromValue mc t x = Inr v \<Longrightarrow> has_type t v"
  by (cases t) (auto split: wire_value.splits if_splits option.splits)

lemma ToValue_typed: "has_type t v \<Longrightarrow> \<exists>x. ToValue mc v = Inr x"
  by (cases v) (auto elim: has_type.elims)

section \<open>A codec that meets the assumptions\<close>

text \<open>Used in the examples only.\<close>

fun ser_value :: "wire_value \<Rightarrow> bytes" where
  "ser_value V_none = [0]"
| "ser_value (V_signed i) = 1 # ser_nat (nat (i + 2 ^ 63))"
| "ser_value (V_unsigned n) = 2 # ser_nat n"
| "ser_value (V_real d) = 3 # ser_nat (unat d)"
| "ser_value (V_bool b) = [4, if b then 1 else 0]"
| "ser_value (V_string s) = 5 # ser_bytes s"
| "ser_value (V_message s) = 6 # ser_bytes s"

fun parse_value :: "bytes \<Rightarrow> (wire_value \<times> bytes) option" where
  "parse_value [] = None"
| "parse_value (t # r) =
     (if t = 0 then Some (V_none, r)
      else if t = 1 then map_option (\<lambda>(n, r). (V_signed (int n - 2 ^ 63), r)) (parse_nat r)
      else if t = 2 then map_option (\<lambda>(n, r). (V_unsigned n, r)) (parse_nat r)
      else if t = 3 then map_option (\<lambda>(n, r). (V_real (of_nat n), r)) (parse_nat r)
      else if t = 4 then (case r of [] \<Rightarrow> None | b # r' \<Rightarrow> Some (V_bool (b = 1), r'))
      else if t = 5 then map_option (\<lambda>(s, r). (V_string s, r)) (parse_bytes r)
      else if t = 6 then map_option (\<lambda>(s, r). (V_message s, r)) (parse_bytes r)
      else None)"

fun parse_values :: "nat \<Rightarrow> bytes \<Rightarrow> (wire_value list \<times> bytes) option" where
  "parse_values 0 r = Some ([], r)"
| "parse_values (Suc n) r =
     (case parse_value r of None \<Rightarrow> None
      | Some (v, r') \<Rightarrow> map_option (\<lambda>(vs, r). (v # vs, r)) (parse_values n r'))"

definition parse_value_list :: "bytes \<Rightarrow> (wire_value list \<times> bytes) option" where
  "parse_value_list bs = (case parse_nat bs of None \<Rightarrow> None | Some (n, r) \<Rightarrow> parse_values n r)"

definition ser_values :: "wire_value list \<Rightarrow> bytes" where
  "ser_values vs = ser_nat (length vs) @ concat (map ser_value vs)"

definition example_env_ser :: "envelope \<Rightarrow> bytes" where
  "example_env_ser e = (case ev_type e of REQUEST \<Rightarrow> 0 | _ \<Rightarrow> 1) # ser_bytes (ev_method e) @ ser_values (ev_arguments e) @
     ser_values (case ev_result e of None \<Rightarrow> [] | Some v \<Rightarrow> [v]) @ ser_nat (ev_status e) @ ser_bytes (ev_error e)"

definition example_env_parse :: "bytes \<Rightarrow> envelope option" where
  "example_env_parse bs =
     (case bs of [] \<Rightarrow> None | t # r \<Rightarrow>
      case parse_bytes r of None \<Rightarrow> None | Some (m, r) \<Rightarrow>
      case parse_value_list r of None \<Rightarrow> None | Some (args, r) \<Rightarrow>
      case parse_value_list r of None \<Rightarrow> None | Some (res, r) \<Rightarrow>
      case parse_nat r of None \<Rightarrow> None | Some (s, r) \<Rightarrow>
      case parse_bytes r of None \<Rightarrow> None | Some (e, r) \<Rightarrow>
      Some \<lparr>ev_type = (if t = 0 then REQUEST else RESPONSE), ev_method = m, ev_arguments = args,
            ev_result = (case res of [] \<Rightarrow> None | v # _ \<Rightarrow> Some v), ev_status = s, ev_error = e\<rparr>)"

definition example_env_codec :: env_codec where
  "example_env_codec = \<lparr>ec_parse = example_env_parse, ec_ser = example_env_ser\<rparr>"

lemma parse_ser_value:
  assumes "value_wf v" and "length (ser_value v) < 2 ^ 32"
  shows "parse_value (ser_value v @ r) = Some (v, r)"
proof (cases v)
  case (V_signed i)
  with assms(1) have "nat (i + 2 ^ 63) < 2 ^ 64" and "0 \<le> i + 2 ^ 63"
    by auto
  with V_signed show ?thesis
    by (simp add: parse_ser_nat)
next
  case (V_real d)
  have "unat d < 2 ^ 64"
    using unsigned_less [of d] by simp
  with V_real show ?thesis
    by (simp add: parse_ser_nat)
next
  case (V_string s)
  with assms(2) length_ser_bytes [of s] show ?thesis
    by (simp add: parse_ser_bytes)
next
  case (V_message s)
  with assms(2) length_ser_bytes [of s] show ?thesis
    by (simp add: parse_ser_bytes)
qed (use assms in \<open>auto simp: parse_ser_nat\<close>)

lemma parse_concat_values:
  "list_all value_wf vs \<Longrightarrow> length (concat (map ser_value vs)) < 2 ^ 32 \<Longrightarrow>
     parse_values (length vs) (concat (map ser_value vs) @ r) = Some (vs, r)"
  by (induction vs) (simp_all add: parse_ser_value)

lemma ser_value_nonempty: "0 < length (ser_value v)"
  by (cases v) simp_all

lemma length_ser_values: "length vs \<le> length (concat (map ser_value vs))"
proof (induction vs)
  case (Cons v vs)
  with ser_value_nonempty [of v] have "Suc (length vs) \<le> length (ser_value v) + length (concat (map ser_value vs))"
    by linarith
  then show ?case
    by simp
qed simp

lemma parse_ser_values:
  "list_all value_wf vs \<Longrightarrow> length (ser_values vs) < 2 ^ 32 \<Longrightarrow> parse_value_list (ser_values vs @ r) = Some (vs, r)"
  using length_ser_values [of vs] by (simp add: parse_value_list_def ser_values_def parse_ser_nat parse_concat_values)

lemma example_env_codec_ok: "env_codec_ok example_env_codec"
  unfolding env_codec_ok_def
proof (intro allI impI)
  fix e
  assume e: "envelope_wf e \<and> length (ec_ser example_env_codec e) < 2 ^ 31"
  let ?res = "case ev_result e of None \<Rightarrow> [] | Some v \<Rightarrow> [v]"
  have l: "length (ev_method e) < 2 ^ 64" "length (ev_error e) < 2 ^ 64" "ev_status e < 2 ^ 64"
    "length (ser_values (ev_arguments e)) < 2 ^ 32" "length (ser_values ?res) < 2 ^ 32"
    and wf: "list_all value_wf (ev_arguments e)" "list_all value_wf ?res" and t: "ev_type e = REQUEST \<or> ev_type e = RESPONSE"
    using e length_ser_bytes [of "ev_method e"] length_ser_bytes [of "ev_error e"]
    by (auto simp: example_env_codec_def example_env_ser_def envelope_wf.simps split: option.splits)
      (cases "ev_type e"; simp)+
  show "ec_parse example_env_codec (ec_ser example_env_codec e) = Some e"
    using l wf t parse_ser_bytes [of "ev_error e" "[]"]
    by (auto simp: example_env_codec_def example_env_ser_def example_env_parse_def parse_ser_bytes parse_ser_nat
        parse_ser_values split: option.splits)
qed

section \<open>Properties\<close>

text \<open>
  C34. RPC frames survive the wire: a frame that \<^const>\<open>RpcEncode\<close> built under a limit below
  2 GiB is cut out of the receive buffer at exactly its end, whatever follows it, carries the
  request identifier it was built with, and decodes to the envelope.
\<close>
theorem rpc_frame_roundtrip:
  assumes "RpcEncode ec rid e limit = Inr bs" and "limit < 2 ^ 31" and "env_codec_ok ec" and "envelope_wf e" and "rid \<noteq> 0"
  shows "RpcFrameSize (bs @ r) = Inr (length bs) \<and> RpcId bs = Inr rid \<and> RpcDecode ec bs = Inr e"
  using RpcFrameSize_encode [OF assms(1,2)] RpcId_encode [OF assms(1,5), of "[]"] RpcDecode_encode [OF assms(1-4)]
  by simp

theorem rpc_frame_roundtrip_witness:
  "\<exists>bs. RpcEncode example_env_codec 7 (envelope_new\<lparr>ev_method := [104, 105]\<rparr>) 1000 = Inr bs \<and>
     RpcFrameSize (bs @ [1, 2]) = Inr (length bs) \<and> RpcId bs = Inr 7 \<and>
     RpcDecode example_env_codec bs = Inr (envelope_new\<lparr>ev_method := [104, 105]\<rparr>)"
proof -
  let ?e = "envelope_new\<lparr>ev_method := [104, 105]\<rparr>"
  have "length (ec_ser example_env_codec ?e) \<le> 1000"
    by code_simp
  then obtain bs where bs: "RpcEncode example_env_codec 7 ?e 1000 = Inr bs"
    using RpcEncode_ok by blast
  have "envelope_wf ?e"
    by (simp add: envelope_wf.simps envelope_new_def ascii_def)
  then show ?thesis
    using rpc_frame_roundtrip [OF bs _ example_env_codec_ok, of "[1, 2]"] bs by simp
qed



end
