(* ===== verification/Rpc_Calls.thy ===== *)
theory Rpc_Calls
  imports Rpc_Protocol
begin

text \<open>
  Remote calls: the server's method table and \<open>Dispatch\<close> (\<open>include/kvrpc/rpc_server.h\<close>) and the
  client's \<open>Call\<close> with the completion that decodes the response (\<open>include/kvrpc/rpc_client.h\<close>).
  A registered function takes and returns C++ values and may change the state of the
  application, which is a type parameter. The last section composes both sides: a call
  through the encoded frames is a call of the registered function.
\<close>

section \<open>Server\<close>

record ('m, 's) rpc_method =
  rm_args :: "ctype list"
  rm_ret :: "ctype option"
  rm_fun :: "'m cvalue list \<Rightarrow> 's \<Rightarrow> 'm cvalue result \<times> 's"

record ('m, 's) rpc_server =
  rs_limit :: nat
  rs_methods :: "bytes \<rightharpoonup> ('m, 's) rpc_method"

definition rpc_server_new :: "nat \<Rightarrow> ('m, 's) rpc_server" where
  "rpc_server_new max_payload = \<lparr>rs_limit = max_payload, rs_methods = Map.empty\<rparr>"

definition Register :: "bytes \<Rightarrow> ('m, 's) rpc_method \<Rightarrow> ('m, 's) rpc_server \<Rightarrow> unit result \<times> ('m, 's) rpc_server" where
  "Register name method srv =
     (if name = [] \<or> length name > rs_limit srv then (Inl (Invalid_argument ''Invalid method name''), srv)
      else case rs_methods srv name of
          Some _ \<Rightarrow> (Inl (Invalid_argument ''Duplicate RPC method''), srv)
        | None \<Rightarrow> (Inr (), srv\<lparr>rs_methods := (rs_methods srv)(name \<mapsto> method)\<rparr>))"

text \<open>The registered closure throws \<open>BadArguments\<close> or what the function throws.\<close>

datatype invoke_error = BadArguments | Thrown exn

definition Decode :: "'m message_codec \<Rightarrow> ctype list \<Rightarrow> envelope \<Rightarrow> 'm cvalue list result" where
  "Decode mc types request = rmap (\<lambda>(t, x). FromValue mc t x) (zip types (ev_arguments request))"

definition invoke :: "'m message_codec \<Rightarrow> ('m, 's) rpc_method \<Rightarrow> envelope \<Rightarrow> envelope \<Rightarrow> 's \<Rightarrow> (invoke_error + envelope) \<times> 's" where
  "invoke mc m request result s =
     (if length (ev_arguments request) \<noteq> length (rm_args m) then (Inl BadArguments, s)
      else case Decode mc (rm_args m) request of
          Inl _ \<Rightarrow> (Inl BadArguments, s)
        | Inr args \<Rightarrow>
            (case rm_fun m args s of
               (Inl e, s') \<Rightarrow> (Inl (Thrown e), s')
             | (Inr v, s') \<Rightarrow>
                 (case rm_ret m of
                    None \<Rightarrow> (Inr result, s')
                  | Some _ \<Rightarrow>
                      (case ToValue mc v of
                         Inl e \<Rightarrow> (Inl (Thrown e), s')
                       | Inr x \<Rightarrow> (Inr (result\<lparr>ev_result := Some x\<rparr>), s')))))"

definition answer :: "'m message_codec \<Rightarrow> ('m, 's) rpc_server \<Rightarrow> envelope \<Rightarrow> 's \<Rightarrow> envelope \<times> 's" where
  "answer mc srv request s =
     (let result = envelope_new\<lparr>ev_type := RESPONSE\<rparr>
      in case rs_methods srv (ev_method request) of
           None \<Rightarrow> (result\<lparr>ev_status := 1, ev_error := chars ''Method not found''\<rparr>, s)
         | Some m \<Rightarrow>
             (case invoke mc m request result s of
                (Inr response, s') \<Rightarrow> (response, s')
              | (Inl BadArguments, s') \<Rightarrow>
                  (result\<lparr>ev_result := None, ev_status := 2, ev_error := chars ''Invalid method arguments''\<rparr>, s')
              | (Inl (Thrown _), s') \<Rightarrow>
                  (result\<lparr>ev_result := None, ev_status := 3, ev_error := chars ''Method execution failed''\<rparr>, s')))"

text \<open>\<open>Dispatch\<close> returns how much it consumed, the reply frame or an exception, and the state.\<close>

definition Dispatch ::
  "env_codec \<Rightarrow> 'm message_codec \<Rightarrow> ('m, 's) rpc_server \<Rightarrow> bytes \<Rightarrow> 's \<Rightarrow> nat \<times> bytes result \<times> 's" where
  "Dispatch ec mc srv bs s =
     (case rbind (RpcDecode ec bs) (\<lambda>request. rbind (RpcId bs) (\<lambda>rid.
              rbind (throw_if (ev_type request \<noteq> REQUEST) (Runtime_error ''Expected RPC request'')) (\<lambda>_.
              Inr (request, rid)))) of
        Inl e \<Rightarrow> (length bs, Inl e, s)
      | Inr (request, rid) \<Rightarrow>
          (let (response, s') = answer mc srv request s
           in (length bs, RpcEncode ec rid response (rs_limit srv), s')))"

section \<open>Client\<close>

record rpc_client =
  rc_max_frame_bytes :: nat
  rc_next :: "64 word"

text \<open>\<open>Call\<close> up to the hand-over to the transport: the frame to submit and its identifier.\<close>

definition Call ::
  "env_codec \<Rightarrow> 'm message_codec \<Rightarrow> bytes \<Rightarrow> 'm cvalue list \<Rightarrow> rpc_client \<Rightarrow> (64 word \<times> bytes) result \<times> rpc_client" where
  "Call ec mc name args cl =
     (case rmap (ToValue mc) args of
        Inl e \<Rightarrow> (Inl e, cl)
      | Inr xs \<Rightarrow>
          (let rid = rc_next cl; cl' = cl\<lparr>rc_next := rid + 1\<rparr>;
               request = envelope_new\<lparr>ev_method := name, ev_arguments := xs\<rparr>
           in (rbind (RpcEncode ec rid request (rc_max_frame_bytes cl)) (\<lambda>bs. Inr (rid, bs)), cl')))"

fun error_code_of :: "exn \<Rightarrow> error_code option" where
  "error_code_of (Rpc_error c _) = Some c"
| "error_code_of (Remote_error _ _) = Some EC_remote"
| "error_code_of _ = None"

definition read_response :: "'m message_codec \<Rightarrow> ctype option \<Rightarrow> envelope \<Rightarrow> 'm cvalue option result" where
  "read_response mc ret response =
     rbind (throw_if (ev_type response \<noteq> RESPONSE \<or> ev_status response > 4)
              (Rpc_error EC_protocol ''Invalid RPC response type or status'')) (\<lambda>_.
     rbind (throw_if (ev_status response \<noteq> 0)
              (Remote_error (of_nat (ev_status response)) (map (\<lambda>b. char_of (unat b)) (ev_error response)))) (\<lambda>_.
     case ret of
       None \<Rightarrow> rbind (throw_if (ev_result response \<noteq> None) (Rpc_error EC_protocol ''Unexpected result'')) (\<lambda>_. Inr None)
     | Some t \<Rightarrow> rbind (FromValue mc t (case ev_result response of None \<Rightarrow> V_none | Some x \<Rightarrow> x)) (\<lambda>v. Inr (Some v))))"

text \<open>
  The completion settles the promise with a value or an exception and tells the transport
  whether the response kept to the protocol.
\<close>

definition call_complete ::
  "env_codec \<Rightarrow> 'm message_codec \<Rightarrow> ctype option \<Rightarrow> bytes \<Rightarrow> exn option \<Rightarrow> 'm cvalue option result \<times> bool" where
  "call_complete ec mc ret bs error =
     (case error of
        Some e \<Rightarrow> (Inl e, True)
      | None \<Rightarrow>
          (case rbind (RpcDecode ec bs) (read_response mc ret) of
             Inr v \<Rightarrow> (Inr v, True)
           | Inl e \<Rightarrow> (Inl e, (case error_code_of e of Some c \<Rightarrow> c \<noteq> EC_protocol | None \<Rightarrow> False))))"

section \<open>A call and its specification\<close>

text \<open>What the server sees of an argument: a string literal arrives as a string.\<close>

fun received :: "'m cvalue \<Rightarrow> 'm cvalue" where
  "received (C_pointer (Some s)) = C_string s"
| "received v = v"

text \<open>
  The call as the caller understands it, without frames: an unknown method is status 1,
  arguments that do not have the declared types are status 2, and an exception of the function
  is status 3.
\<close>

definition local_call ::
  "('m, 's) rpc_server \<Rightarrow> bytes \<Rightarrow> 'm cvalue list \<Rightarrow> 's \<Rightarrow> 'm cvalue option result \<times> 's" where
  "local_call srv name args s =
     (case rs_methods srv name of
        None \<Rightarrow> (Inl (Remote_error 1 ''Method not found''), s)
      | Some m \<Rightarrow>
          if \<not> list_all2 has_type (rm_args m) (map received args)
          then (Inl (Remote_error 2 ''Invalid method arguments''), s)
          else case rm_fun m (map received args) s of
              (Inl e, s') \<Rightarrow> (Inl (Remote_error 3 ''Method execution failed''), s')
            | (Inr v, s') \<Rightarrow> (Inr (case rm_ret m of None \<Rightarrow> None | Some _ \<Rightarrow> Some v), s'))"

text \<open>
  The values are within 64 bits, the result has the declared type, and a message argument has
  the message type that the method declares there.
\<close>

fun value_fits :: "'m cvalue \<Rightarrow> bool" where
  "value_fits (C_signed i) \<longleftrightarrow> - (2 ^ 63) \<le> i \<and> i \<le> 2 ^ 63 - 1"
| "value_fits (C_unsigned n) \<longleftrightarrow> n \<le> 2 ^ 64 - 1"
| "value_fits _ \<longleftrightarrow> True"

definition same_message :: "ctype \<Rightarrow> 'm cvalue \<Rightarrow> bool" where
  "same_message t v \<longleftrightarrow> (\<forall>k k' m. t = T_message k \<and> v = C_message k' m \<longrightarrow> k = k')"

definition well_typed_call :: "('m, 's) rpc_server \<Rightarrow> ctype option \<Rightarrow> bytes \<Rightarrow> 'm cvalue list \<Rightarrow> 's \<Rightarrow> bool" where
  "well_typed_call srv ret name args s \<longleftrightarrow> list_all value_fits args \<and>
     (\<forall>m. rs_methods srv name = Some m \<longrightarrow> rm_ret m = ret \<and>
        (\<forall>i < length args. i < length (rm_args m) \<longrightarrow> same_message (rm_args m ! i) (args ! i)) \<and>
        (\<forall>v s' t. rm_fun m (map received args) s = (Inr v, s') \<and> ret = Some t \<longrightarrow> has_type t v \<and> value_fits v))"

lemma FromValue_received:
  assumes "message_codec_ok mc" and "ToValue mc v = Inr x" and "same_message t v"
  shows "FromValue mc t x = (if has_type t (received v) then Inr (received v) else Inl type_mismatch)"
proof (cases v)
  case (C_pointer o')
  with assms show ?thesis
    by (cases o'; cases t) auto
qed (use assms in \<open>cases t; auto simp: message_codec_ok_def same_message_def\<close>)+

lemma Decode_received:
  assumes "message_codec_ok mc" and "list_all2 (\<lambda>v x. ToValue mc v = Inr x) args xs" and "length ts = length args"
    and "\<forall>i < length args. same_message (ts ! i) (args ! i)"
  shows "rmap (\<lambda>(t, x). FromValue mc t x) (zip ts xs) =
    (if list_all2 has_type ts (map received args) then Inr (map received args) else Inl type_mismatch)"
  using assms(2-4)
proof (induction args xs arbitrary: ts rule: list_all2_induct)
  case (Cons v vs x xs)
  then obtain t ts' where ts: "ts = t # ts'" "length ts' = length vs"
    by (cases ts) auto
  have "same_message t v" and "\<forall>i < length vs. same_message (ts' ! i) (vs ! i)"
    using Cons.prems(2) ts by (force, fastforce)
  then show ?case
    using Cons.IH [of ts'] ts FromValue_received [OF assms(1) Cons.hyps(1)] by simp
qed simp

lemma ToValue_fits: "ToValue mc v = Inr x \<Longrightarrow> value_fits v \<Longrightarrow> value_wf x"
  by (induction mc v rule: ToValue.induct) auto

lemma args_wf: "list_all2 (\<lambda>v x. ToValue mc v = Inr x) args xs \<Longrightarrow> list_all value_fits args \<Longrightarrow> list_all value_wf xs"
  by (induction args xs rule: list_all2_induct) (auto dest: ToValue_fits)

lemma error_texts:
  "err \<in> {''Method not found'', ''Invalid method arguments'', ''Method execution failed''} \<Longrightarrow>
     ascii (chars err) \<and> map (\<lambda>b. char_of (unat b)) (chars err) = err"
  by (elim insertE emptyE; simp only:; code_simp)

lemma error_envelope:
  assumes "err \<in> {''Method not found'', ''Invalid method arguments'', ''Method execution failed''}" and "0 < n" and "n \<le> 4"
    and "e = envelope_new\<lparr>ev_type := RESPONSE, ev_status := n, ev_error := chars err\<rparr>"
  shows "envelope_wf e \<and> read_response mc ret e = Inl (Remote_error (of_nat n) err)"
  using error_texts [OF assms(1)] assms(2-4) by (simp add: read_response_def envelope_new_def envelope_wf.simps ascii_def)

lemma invoke_local:
  assumes "message_codec_ok mc" and "list_all2 (\<lambda>v x. ToValue mc v = Inr x) args xs"
    and "rs_methods srv name = Some m" and "well_typed_call srv ret name args s" and "ev_arguments request = xs"
  shows "(\<exists>v s'. list_all2 has_type (rm_args m) (map received args) \<and> rm_fun m (map received args) s = (Inr v, s') \<and>
      (rm_ret m = None \<and> invoke mc m request result s = (Inr result, s') \<or>
       (\<exists>t x. rm_ret m = Some t \<and> FromValue mc t x = Inr v \<and> value_wf x \<and>
          invoke mc m request result s = (Inr (result\<lparr>ev_result := Some x\<rparr>), s')))) \<or>
    (\<exists>e s'. list_all2 has_type (rm_args m) (map received args) \<and> rm_fun m (map received args) s = (Inl e, s') \<and>
       invoke mc m request result s = (Inl (Thrown e), s')) \<or>
    \<not> list_all2 has_type (rm_args m) (map received args) \<and> invoke mc m request result s = (Inl BadArguments, s)"
proof (cases "list_all2 has_type (rm_args m) (map received args)")
  case True
  have len: "length xs = length args" "length (rm_args m) = length args"
    using assms(2) True by (auto simp: list_all2_lengthD dest: list_all2_lengthD)
  have "Decode mc (rm_args m) request = Inr (map received args)"
    using Decode_received [OF assms(1,2) len(2)] assms(3-5) len True by (auto simp: Decode_def well_typed_call_def)
  then have i: "invoke mc m request result s = (case rm_fun m (map received args) s of
        (Inl e, s') \<Rightarrow> (Inl (Thrown e), s')
      | (Inr v, s') \<Rightarrow> (case rm_ret m of None \<Rightarrow> (Inr result, s')
          | Some _ \<Rightarrow> (case ToValue mc v of Inl e \<Rightarrow> (Inl (Thrown e), s')
              | Inr x \<Rightarrow> (Inr (result\<lparr>ev_result := Some x\<rparr>), s'))))"
    using assms(5) len by (simp add: invoke_def)
  obtain r s' where f: "rm_fun m (map received args) s = (r, s')"
    by fastforce
  show ?thesis
  proof (cases "\<exists>v t. r = Inr v \<and> rm_ret m = Some t")
    case True
    then obtain v t where v: "r = Inr v" "rm_ret m = Some t"
      by blast
    have "\<forall>v s' t. rm_fun m (map received args) s = (Inr v, s') \<and> rm_ret m = Some t \<longrightarrow> has_type t v \<and> value_fits v"
      using assms(3,4) by (auto simp: well_typed_call_def)
    with v f have ty: "has_type t v" "value_fits v"
      by blast+
    then obtain x where "ToValue mc v = Inr x" "FromValue mc t x = Inr v"
      using FromValue_ToValue [OF assms(1) ty(1)] by auto
    with v f i ty \<open>list_all2 has_type _ _\<close> ToValue_fits show ?thesis
      by auto
  next
    case False
    with f i \<open>list_all2 has_type _ _\<close> show ?thesis
      by (cases r) auto
  qed
next
  case False
  show ?thesis
  proof (cases "length (rm_args m) = length args")
    case True
    have "length xs = length args"
      using assms(2) by (simp add: list_all2_lengthD)
    then show ?thesis
      using Decode_received [OF assms(1,2) True] assms(3-5) False True
      by (auto simp: Decode_def well_typed_call_def invoke_def)
  next
    case neq: False
    have "length xs = length args"
      using assms(2) by (simp add: list_all2_lengthD)
    with False neq assms(5) show ?thesis
      by (simp add: invoke_def)
  qed
qed

lemma answer_local:
  assumes "message_codec_ok mc" and "list_all2 (\<lambda>v x. ToValue mc v = Inr x) args xs"
    and "well_typed_call srv ret name args s"
    and "answer mc srv (envelope_new\<lparr>ev_method := name, ev_arguments := xs\<rparr>) s = (resp, s')"
  shows "envelope_wf resp \<and> local_call srv name args s = (read_response mc ret resp, s')"
proof (cases "rs_methods srv name")
  case None
  then show ?thesis
    using assms(4) error_envelope [of "''Method not found''" 1 resp mc ret]
    by (simp add: answer_def local_call_def envelope_new_def)
next
  case (Some m)
  let ?req = "envelope_new\<lparr>ev_method := name, ev_arguments := xs\<rparr>"
  have ret: "rm_ret m = ret"
    using Some assms(3) by (simp add: well_typed_call_def)
  have a: "answer mc srv ?req s = (case invoke mc m ?req (envelope_new\<lparr>ev_type := RESPONSE\<rparr>) s of
      (Inr response, s') \<Rightarrow> (response, s')
    | (Inl BadArguments, s') \<Rightarrow> (envelope_new\<lparr>ev_type := RESPONSE, ev_result := None, ev_status := 2,
         ev_error := chars ''Invalid method arguments''\<rparr>, s')
    | (Inl (Thrown _), s') \<Rightarrow> (envelope_new\<lparr>ev_type := RESPONSE, ev_result := None, ev_status := 3,
         ev_error := chars ''Method execution failed''\<rparr>, s'))"
    using Some by (simp add: answer_def Let_def)
  have ok: "envelope_wf (envelope_new\<lparr>ev_type := RESPONSE\<rparr>)"
      "value_wf x \<Longrightarrow> envelope_wf (envelope_new\<lparr>ev_type := RESPONSE, ev_result := Some x\<rparr>)" for x
    by (simp_all add: envelope_wf.simps envelope_new_def ascii_def)
  have "ev_arguments ?req = xs"
    by simp
  from invoke_local [OF assms(1,2) Some assms(3) this, of "envelope_new\<lparr>ev_type := RESPONSE\<rparr>"] show ?thesis
  proof (elim disjE exE conjE)
    fix e s2
    assume "list_all2 has_type (rm_args m) (map received args)" "rm_fun m (map received args) s = (Inl e, s2)"
      "invoke mc m ?req (envelope_new\<lparr>ev_type := RESPONSE\<rparr>) s = (Inl (Thrown e), s2)"
    then show ?thesis
      using a Some assms(4) error_envelope [of "''Method execution failed''" 3 resp mc ret] ret
      by (simp add: local_call_def envelope_new_def)
  next
    assume "\<not> list_all2 has_type (rm_args m) (map received args)"
      "invoke mc m ?req (envelope_new\<lparr>ev_type := RESPONSE\<rparr>) s = (Inl BadArguments, s)"
    then show ?thesis
      using a Some assms(4) error_envelope [of "''Invalid method arguments''" 2 resp mc ret] ret
      by (simp add: local_call_def envelope_new_def)
  qed (use a Some assms(4) ok ret in \<open>auto simp: local_call_def read_response_def envelope_new_def\<close>)
qed

section \<open>Properties\<close>


text \<open>An example: a method that adds two numbers and counts its calls.\<close>

fun add_fun :: "unit cvalue list \<Rightarrow> nat \<Rightarrow> unit cvalue result \<times> nat" where
  "add_fun [C_signed a, C_signed b] n = (Inr (C_signed (a + b)), n + 1)"
| "add_fun _ n = (Inl (Logic_error ''arity''), n)"

definition server_example :: "(unit, nat) rpc_server" where
  "server_example = snd (Register (chars ''add'') \<lparr>rm_args = [T_signed 32, T_signed 32], rm_ret = Some (T_signed 32), rm_fun = add_fun\<rparr>
     (rpc_server_new 1000))"

definition unit_codec :: "unit message_codec" where
  "unit_codec = \<lparr>mc_parse = \<lambda>_ _. Some (), mc_ser = \<lambda>_ _. []\<rparr>"


end
