(* ===== verification/Serializer.thy ===== *)
theory Serializer
  imports Prelude
begin

text \<open>
  The scalar and string serializer of \<open>include/kvrpc/serializer.h\<close>. A scalar of \<open>w\<close> bytes is
  its bit pattern; the host keeps it in memory in its own byte order (parameter \<open>le\<close>, the value
  of \<open>LittleEndian()\<close>), and the wire order is little endian on every host. Every operation
  returns the exception it throws and the object as it leaves it.
\<close>

record serializer =
  sr_max_bytes :: nat
  sr_buffer :: bytes
  sr_offset :: nat

definition DEFAULT_MAX_BYTES :: nat where
  "DEFAULT_MAX_BYTES = 64 * 1024 * 1024"

definition serializer_writer :: "nat \<Rightarrow> serializer" where
  "serializer_writer max_bytes = \<lparr>sr_max_bytes = max_bytes, sr_buffer = [], sr_offset = 0\<rparr>"

definition serializer_reader :: "bytes \<Rightarrow> serializer" where
  "serializer_reader buffer = \<lparr>sr_max_bytes = DEFAULT_MAX_BYTES, sr_buffer = buffer, sr_offset = 0\<rparr>"

definition Remaining :: "serializer \<Rightarrow> nat" where
  "Remaining s = sz_sub (length (sr_buffer s)) (sr_offset s)"

definition Reset :: "serializer \<Rightarrow> serializer" where
  "Reset s = s\<lparr>sr_buffer := [], sr_offset := 0\<rparr>"

definition Require :: "nat \<Rightarrow> serializer \<Rightarrow> unit result" where
  "Require n s = throw_if (n > Remaining s) (Out_of_range ''Truncated serialized value'')"

definition ReserveFor :: "nat \<Rightarrow> serializer \<Rightarrow> unit result" where
  "ReserveFor n s =
     throw_if (length (sr_buffer s) > sr_max_bytes s \<or> n > sz_sub (sr_max_bytes s) (length (sr_buffer s)))
       (Length_error ''Serialized payload exceeds configured limit'')"

text \<open>The bytes of a scalar in memory, and the scalar that such bytes are.\<close>

definition object_bytes :: "bool \<Rightarrow> nat \<Rightarrow> 64 word \<Rightarrow> bytes" where
  "object_bytes le w v = (if le then rev (be_bytes w v) else be_bytes w v)"

definition object_value :: "bool \<Rightarrow> bytes \<Rightarrow> 64 word" where
  "object_value le bs = be_val (if le then rev bs else bs)"

section \<open>Writing\<close>

definition Serialize_scalar :: "bool \<Rightarrow> nat \<Rightarrow> 64 word \<Rightarrow> serializer \<Rightarrow> unit result \<times> serializer" where
  "Serialize_scalar le w v s =
     (case ReserveFor w s of
        Inl e \<Rightarrow> (Inl e, s)
      | Inr _ \<Rightarrow>
          (let bytes = object_bytes le w v
           in (Inr (), s\<lparr>sr_buffer := sr_buffer s @ map (\<lambda>i. bytes ! (if le then i else w - 1 - i)) [0..<w]\<rparr>)))"

definition Serialize_bool :: "bool \<Rightarrow> serializer \<Rightarrow> unit result \<times> serializer" where
  "Serialize_bool b s =
     (case ReserveFor 1 s of
        Inl e \<Rightarrow> (Inl e, s)
      | Inr _ \<Rightarrow> (Inr (), s\<lparr>sr_buffer := sr_buffer s @ [if b then 1 else 0]\<rparr>))"

definition Serialize_string :: "bool \<Rightarrow> bytes \<Rightarrow> serializer \<Rightarrow> unit result \<times> serializer" where
  "Serialize_string le v s =
     (if length v > 2 ^ 32 - 1 then (Inl (Length_error ''String exceeds wire length limit''), s)
      else case ReserveFor (sz_add 4 (length v)) s of
          Inl e \<Rightarrow> (Inl e, s)
        | Inr _ \<Rightarrow>
            (case Serialize_scalar le 4 (of_nat (length v)) s of
               (Inl e, s') \<Rightarrow> (Inl e, s')
             | (Inr _, s') \<Rightarrow> (Inr (), s'\<lparr>sr_buffer := sr_buffer s' @ v\<rparr>)))"

definition Serialize_pointer :: "bool \<Rightarrow> bytes option \<Rightarrow> serializer \<Rightarrow> unit result \<times> serializer" where
  "Serialize_pointer le p s =
     (case p of
        None \<Rightarrow> (Inl (Invalid_argument ''Cannot serialize a null string''), s)
      | Some v \<Rightarrow> Serialize_string le v s)"

section \<open>Reading\<close>

definition Deserialize_scalar :: "bool \<Rightarrow> nat \<Rightarrow> serializer \<Rightarrow> (64 word) result \<times> serializer" where
  "Deserialize_scalar le w s =
     (case Require w s of
        Inl e \<Rightarrow> (Inl e, s)
      | Inr _ \<Rightarrow>
          (let bytes = map (\<lambda>i. sr_buffer s ! (sr_offset s + (if le then i else w - 1 - i))) [0..<w]
           in (Inr (object_value le bytes), s\<lparr>sr_offset := sz_add (sr_offset s) w\<rparr>)))"

definition Deserialize_bool :: "serializer \<Rightarrow> bool result \<times> serializer" where
  "Deserialize_bool s =
     (case Require 1 s of
        Inl e \<Rightarrow> (Inl e, s)
      | Inr _ \<Rightarrow>
          (let byte = sr_buffer s ! sr_offset s
           in if byte > 1 then (Inl (Invalid_argument ''Invalid boolean encoding''), s)
              else (Inr (byte = 1), s\<lparr>sr_offset := sz_add (sr_offset s) 1\<rparr>)))"

definition Deserialize_string :: "bool \<Rightarrow> serializer \<Rightarrow> bytes result \<times> serializer" where
  "Deserialize_string le s =
     (case Deserialize_scalar le 4 s of
        (Inl e, s') \<Rightarrow> (Inl e, s')
      | (Inr n, s') \<Rightarrow>
          (case Require (unat n) s' of
             Inl e \<Rightarrow> (Inl e, s')
           | Inr _ \<Rightarrow>
               (Inr (take (unat n) (drop (sr_offset s') (sr_buffer s'))),
                s'\<lparr>sr_offset := sz_add (sr_offset s') (unat n)\<rparr>)))"

section \<open>Several values\<close>

datatype field = F_scalar nat "64 word" | F_bool bool | F_string bytes

datatype field_type = FT_scalar nat | FT_bool | FT_string

fun Serialize_field :: "bool \<Rightarrow> field \<Rightarrow> serializer \<Rightarrow> unit result \<times> serializer" where
  "Serialize_field le (F_scalar w v) s = Serialize_scalar le w v s"
| "Serialize_field le (F_bool b) s = Serialize_bool b s"
| "Serialize_field le (F_string v) s = Serialize_string le v s"

fun Serialize_all :: "bool \<Rightarrow> field list \<Rightarrow> serializer \<Rightarrow> unit result \<times> serializer" where
  "Serialize_all le [] s = (Inr (), s)"
| "Serialize_all le (f # fs) s =
     (case Serialize_field le f s of (Inl e, s') \<Rightarrow> (Inl e, s') | (Inr _, s') \<Rightarrow> Serialize_all le fs s')"

fun Deserialize_field :: "bool \<Rightarrow> field_type \<Rightarrow> serializer \<Rightarrow> field result \<times> serializer" where
  "Deserialize_field le (FT_scalar w) s = (let (r, s') = Deserialize_scalar le w s in (rbind r (\<lambda>v. Inr (F_scalar w v)), s'))"
| "Deserialize_field le FT_bool s = (let (r, s') = Deserialize_bool s in (rbind r (\<lambda>b. Inr (F_bool b)), s'))"
| "Deserialize_field le FT_string s = (let (r, s') = Deserialize_string le s in (rbind r (\<lambda>v. Inr (F_string v)), s'))"

fun Deserialize_all :: "bool \<Rightarrow> field_type list \<Rightarrow> serializer \<Rightarrow> field list result \<times> serializer" where
  "Deserialize_all le [] s = (Inr [], s)"
| "Deserialize_all le (t # ts) s =
     (case Deserialize_field le t s of
        (Inl e, s') \<Rightarrow> (Inl e, s')
      | (Inr f, s') \<Rightarrow> (let (r, s'') = Deserialize_all le ts s' in (rbind r (\<lambda>fs. Inr (f # fs)), s'')))"

section \<open>The wire format\<close>

fun wire :: "field \<Rightarrow> bytes" where
  "wire (F_scalar w v) = rev (be_bytes w v)"
| "wire (F_bool b) = [if b then 1 else 0]"
| "wire (F_string v) = rev (be_bytes 4 (of_nat (length v) :: 64 word)) @ v"

fun type_of :: "field \<Rightarrow> field_type" where
  "type_of (F_scalar w v) = FT_scalar w"
| "type_of (F_bool b) = FT_bool"
| "type_of (F_string v) = FT_string"

text \<open>A scalar has at most eight bytes and a bit pattern of its width.\<close>

fun field_ok :: "field \<Rightarrow> bool" where
  "field_ok (F_scalar w v) \<longleftrightarrow> w \<le> 8 \<and> take_bit (8 * w) v = v"
| "field_ok (F_string v) \<longleftrightarrow> length v \<le> 2 ^ 32 - 1"
| "field_ok _ \<longleftrightarrow> True"

lemma map_nth_rev: "length xs = n \<Longrightarrow> map (\<lambda>i. xs ! (n - Suc i)) [0..<n] = rev xs"
  by (rule nth_equalityI) (simp_all add: rev_nth)

lemma map_nth_upt: "length xs = n \<Longrightarrow> map (\<lambda>i. xs ! i) [0..<n] = xs"
  by (rule nth_equalityI) simp_all

lemma written_bytes:
  "map (\<lambda>i. object_bytes le w v ! (if le then i else w - 1 - i)) [0..<w] = rev (be_bytes w v)"
  by (cases le) (simp_all add: object_bytes_def map_nth_rev map_nth_upt)

lemma read_bytes:
  assumes "drop off buf = bs @ r" and "length bs = w" and "off \<le> length buf"
  shows "map (\<lambda>i. buf ! (off + (if le then i else w - 1 - i))) [0..<w] = (if le then bs else rev bs)"
proof -
  have "buf ! (off + i) = bs ! i" if "i < w" for i
    using assms that nth_drop [OF assms(3), of i] by (simp add: nth_append)
  then have "map (\<lambda>i. buf ! (off + (if le then i else w - 1 - i))) [0..<w] =
      map (\<lambda>i. bs ! (if le then i else w - 1 - i)) [0..<w]"
    by (intro map_cong) auto
  then show ?thesis
    using assms(2) by (cases le) (simp_all add: map_nth_rev map_nth_upt)
qed

lemma ReserveFor_exact:
  "length (sr_buffer s) \<le> sr_max_bytes s \<Longrightarrow> sr_max_bytes s < sz_mod \<Longrightarrow>
     ReserveFor n s = throw_if (length (sr_buffer s) + n > sr_max_bytes s) (Length_error ''Serialized payload exceeds configured limit'')"
  by (auto simp: ReserveFor_def sz_sub_exact throw_if_def)

lemma Require_exact:
  "sr_offset s \<le> length (sr_buffer s) \<Longrightarrow> length (sr_buffer s) < sz_mod \<Longrightarrow>
     Require n s = throw_if (sr_offset s + n > length (sr_buffer s)) (Out_of_range ''Truncated serialized value'')"
  by (auto simp: Require_def Remaining_def sz_sub_exact throw_if_def)

lemma Serialize_field_wire:
  assumes "length (sr_buffer s) \<le> sr_max_bytes s" and "sr_max_bytes s < sz_mod" and "field_ok f"
  shows "Serialize_field le f s =
    (if length (sr_buffer s) + length (wire f) \<le> sr_max_bytes s then (Inr (), s\<lparr>sr_buffer := sr_buffer s @ wire f\<rparr>)
     else (Inl (Length_error ''Serialized payload exceeds configured limit''), s))"
proof (cases f)
  case (F_string v)
  have "sz_add 4 (length v) = 4 + length v"
    using assms(3) F_string by (intro sz_add_exact) (simp add: sz_mod_def)
  with F_string assms show ?thesis
    by (simp add: Serialize_string_def Serialize_scalar_def ReserveFor_exact throw_if_def written_bytes [simplified])
qed (use assms in \<open>simp_all add: Serialize_scalar_def Serialize_bool_def ReserveFor_exact throw_if_def written_bytes [simplified]\<close>)

lemma Serialize_all_wire:
  assumes "length (sr_buffer s) \<le> sr_max_bytes s" and "sr_max_bytes s < sz_mod" and "list_all field_ok fs"
  shows "if length (sr_buffer s) + length (concat (map wire fs)) \<le> sr_max_bytes s
    then Serialize_all le fs s = (Inr (), s\<lparr>sr_buffer := sr_buffer s @ concat (map wire fs)\<rparr>)
    else \<exists>s'. Serialize_all le fs s = (Inl (Length_error ''Serialized payload exceeds configured limit''), s') \<and>
      length (sr_buffer s') \<le> sr_max_bytes s"
  using assms
proof (induction fs arbitrary: s)
  case (Cons f fs)
  show ?case
  proof (cases "length (sr_buffer s) + length (wire f) \<le> sr_max_bytes s")
    case True
    with Cons.prems Cons.IH [of "s\<lparr>sr_buffer := sr_buffer s @ wire f\<rparr>"] show ?thesis
      by (auto simp: Serialize_field_wire ac_simps split: if_splits)
  qed (use Cons.prems in \<open>auto simp: Serialize_field_wire\<close>)
qed simp

lemma scalar_wire:
  assumes "sr_offset s \<le> length (sr_buffer s)" and "length (sr_buffer s) < sz_mod"
    and "drop (sr_offset s) (sr_buffer s) = rev (be_bytes w v) @ r" and "take_bit (8 * w) v = v"
  shows "Deserialize_scalar le w s = (Inr v, s\<lparr>sr_offset := sr_offset s + w\<rparr>)"
proof -
  have "length (sr_buffer s) - sr_offset s = w + length r"
    using arg_cong [OF assms(3), of length] by simp
  then have fits: "sr_offset s + w \<le> length (sr_buffer s)"
    using assms(1) by linarith
  have "object_value le (map (\<lambda>i. sr_buffer s ! (sr_offset s + (if le then i else w - 1 - i))) [0..<w]) = v"
    using read_bytes [OF assms(3) _ assms(1), of w le] assms(4) by (cases le) (simp_all add: object_value_def be_val_be_bytes_take_bit)
  with fits assms(1,2) show ?thesis
    by (simp add: Deserialize_scalar_def Require_exact sz_add_exact)
qed

lemma Deserialize_field_wire:
  assumes "sr_offset s \<le> length (sr_buffer s)" and "length (sr_buffer s) < sz_mod"
    and "drop (sr_offset s) (sr_buffer s) = wire f @ r" and "field_ok f"
  shows "Deserialize_field le (type_of f) s = (Inr f, s\<lparr>sr_offset := sr_offset s + length (wire f)\<rparr>)"
proof (cases f)
  case (F_scalar w v)
  with assms show ?thesis
    by (simp add: scalar_wire)
next
  case (F_bool b)
  have "sr_buffer s ! sr_offset s = (if b then 1 else 0)"
    using assms(3) F_bool nth_drop [OF assms(1), of 0] by simp
  moreover have "sr_offset s + 1 \<le> length (sr_buffer s)"
    using arg_cong [OF assms(3), of length] F_bool assms(1) by simp
  ultimately show ?thesis
    using assms(1,2) F_bool by (simp add: Deserialize_bool_def Require_exact sz_add_exact)
next
  case (F_string v)
  let ?n = "of_nat (length v) :: 64 word" and ?s = "s\<lparr>sr_offset := sr_offset s + 4\<rparr>"
  have n: "take_bit (8 * 4) ?n = ?n" "unat ?n = length v"
    using assms(4) F_string by (simp_all add: unat_of_nat word_unat_eq_iff unsigned_take_bit_eq take_bit_nat_eq_self)
  have 1: "Deserialize_scalar le 4 s = (Inr ?n, ?s)"
    using scalar_wire [OF assms(1,2) _ n(1)] assms(3) F_string by simp
  have len: "sr_offset s + 4 + length v \<le> length (sr_buffer s)"
    using arg_cong [OF assms(3), of length] F_string assms(1) by simp
  have "drop (sr_offset s + 4) (sr_buffer s) = v @ r"
    using assms(3) F_string by (simp only: drop_plus) simp
  with 1 n(2) len assms(1,2) F_string show ?thesis
    by (simp add: Deserialize_string_def Require_exact sz_add_exact)
qed

lemma Deserialize_all_wire:
  assumes "sr_offset s \<le> length (sr_buffer s)" and "length (sr_buffer s) < sz_mod"
    and "drop (sr_offset s) (sr_buffer s) = concat (map wire fs) @ r" and "list_all field_ok fs"
  shows "Deserialize_all le (map type_of fs) s = (Inr fs, s\<lparr>sr_offset := sr_offset s + length (concat (map wire fs))\<rparr>)"
  using assms
proof (induction fs arbitrary: s)
  case (Cons f fs)
  have f: "drop (sr_offset s) (sr_buffer s) = wire f @ concat (map wire fs) @ r"
    using Cons.prems(3) by simp
  then have "drop (sr_offset s + length (wire f)) (sr_buffer s) = concat (map wire fs) @ r"
    by (simp only: drop_plus) simp
  moreover have "sr_offset s + length (wire f) \<le> length (sr_buffer s)"
    using arg_cong [OF f, of length] Cons.prems(1) by simp
  ultimately show ?case
    using Cons.prems Deserialize_field_wire [OF Cons.prems(1,2) f] Cons.IH [of "s\<lparr>sr_offset := sr_offset s + length (wire f)\<rparr>"]
    by (simp add: ac_simps)
qed simp

section \<open>Properties\<close>

text \<open>
  C38. What one host serializes, every host reads back: writing a sequence of values succeeds
  exactly when their wire forms fit in the configured limit, the bytes do not depend on the
  byte order of the host, and a reader of either byte order gets the same values from them
  and stops at the end.
\<close>
theorem serializer_roundtrip:
  assumes "max_bytes < sz_mod" and "list_all field_ok fs"
  shows "if length (concat (map wire fs)) \<le> max_bytes
    then \<exists>s. Serialize_all le fs (serializer_writer max_bytes) = (Inr (), s) \<and> sr_buffer s = concat (map wire fs) \<and>
      Deserialize_all le' (map type_of fs) (serializer_reader (sr_buffer s)) =
        (Inr fs, (serializer_reader (sr_buffer s))\<lparr>sr_offset := length (sr_buffer s)\<rparr>)
    else \<exists>s. Serialize_all le fs (serializer_writer max_bytes) =
      (Inl (Length_error ''Serialized payload exceeds configured limit''), s) \<and> length (sr_buffer s) \<le> max_bytes"
  using Serialize_all_wire [of "serializer_writer max_bytes" fs le] assms
    Deserialize_all_wire [of "serializer_reader (concat (map wire fs))" fs "[]" le']
  by (auto simp: serializer_writer_def serializer_reader_def split: if_splits)

theorem serializer_roundtrip_witness:
  "\<exists>s. Serialize_all False [F_scalar 2 0x1234, F_bool True, F_string [104, 105]] (serializer_writer 9) = (Inr (), s) \<and>
     sr_buffer s = [0x34, 0x12, 1, 2, 0, 0, 0, 104, 105] \<and>
     fst (Deserialize_all True [FT_scalar 2, FT_bool, FT_string] (serializer_reader (sr_buffer s))) =
       Inr [F_scalar 2 0x1234, F_bool True, F_string [104, 105]]"
proof -
  let ?fs = "[F_scalar 2 0x1234, F_bool True, F_string [104, 105]]"
  have pre: "9 < sz_mod" "list_all field_ok ?fs" and ty: "map type_of ?fs = [FT_scalar 2, FT_bool, FT_string]"
    by (simp_all add: sz_mod_def)
  have w: "concat (map wire ?fs) = [0x34, 0x12, 1, 2, 0, 0, 0, 104, 105]"
    by code_simp
  have "length [0x34 :: byte, 0x12, 1, 2, 0, 0, 0, 104, 105] \<le> 9"
    by simp
  from serializer_roundtrip [OF pre, of False True, unfolded w ty, unfolded if_P [OF this]]
  obtain s where "Serialize_all False ?fs (serializer_writer 9) = (Inr (), s)" "sr_buffer s = [0x34, 0x12, 1, 2, 0, 0, 0, 104, 105]"
    "Deserialize_all True [FT_scalar 2, FT_bool, FT_string] (serializer_reader (sr_buffer s)) =
        (Inr ?fs, (serializer_reader (sr_buffer s))\<lparr>sr_offset := length (sr_buffer s)\<rparr>)"
    by (elim exE conjE)
  then show ?thesis
    by (metis fst_conv)
qed

end
