(* ===== verification/Socket_Calls.thy ===== *)
theory Socket_Calls
  imports Prelude
begin

text \<open>
  Results of the socket calls that the server and the client transport make. A call is answered
  by the next result of a script; an exhausted script means that the call would block. A call
  that may transfer \<open>n\<close> bytes transfers at most as many as it asks for.
\<close>

datatype send_result = Sent nat | Send_intr | Send_again | Send_error

datatype recv_result = Got bytes | Recv_eof | Recv_intr | Recv_again | Recv_error

datatype connect_result = Connected | Connect_pending | Connect_failed

definition EPOLLIN :: nat where "EPOLLIN = 1"
definition EPOLLOUT :: nat where "EPOLLOUT = 4"
definition EPOLLERR :: nat where "EPOLLERR = 8"
definition EPOLLRDHUP :: nat where "EPOLLRDHUP = 8192"

end
