(* ===== verification/Event_Loop.thy ===== *)
theory Event_Loop
  imports Prelude
begin

text \<open>
  The reactor of \<open>include/kvrpc/event_loop.h\<close> and \<open>src/event_loop.cpp\<close>: descriptor watches named
  by tokens, timers ordered by deadline, and tasks posted from other threads. Closures are
  data of a type parameter, which the server and the client transport instantiate; the loop
  \<open>Run\<close> takes their interpretation as an argument. The multimap \<open>timers_\<close> is a list sorted by
  deadline; an iterator into it is represented by the identifier that its node holds. Tokens
  and timer identifiers come from one 64-bit counter, which does not run out.
\<close>

section \<open>State\<close>

type_synonym 't timer = "nat \<times> nat \<times> 't"

record ('t, 'c) event_loop =
  el_next :: nat
  el_watches :: "nat \<rightharpoonup> int \<times> 'c"
  el_epoll :: "int \<rightharpoonup> nat \<times> nat"
  el_timers :: "'t timer list"
  el_timer_index :: "nat \<rightharpoonup> nat"
  el_tasks :: "'t list"
  el_wake :: bool
  el_stopping :: bool

text \<open>
  \<open>el_epoll\<close> is the kernel's interest list: for a descriptor the token it reports and the
  event mask (always with \<open>EPOLLET\<close>). \<open>el_wake\<close> says that the eventfd is readable.
\<close>

definition loop_new :: "('t, 'c) event_loop" where
  "loop_new = \<lparr>el_next = 1, el_watches = Map.empty, el_epoll = Map.empty, el_timers = [], el_timer_index = Map.empty,
     el_tasks = [], el_wake = False, el_stopping = False\<rparr>"

section \<open>Operations\<close>

text \<open>
  The flag says whether \<open>epoll_ctl\<close> finds the resources it needs; adding a descriptor that is
  in the interest list fails in any case.
\<close>

definition Add :: "bool \<Rightarrow> int \<Rightarrow> nat \<Rightarrow> 'c \<Rightarrow> ('t, 'c) event_loop \<Rightarrow> nat result \<times> ('t, 'c) event_loop" where
  "Add ok fd events callback l =
     (let tok = el_next l; l1 = l\<lparr>el_next := Suc tok\<rparr>
      in if \<not> ok \<or> el_epoll l fd \<noteq> None then (Inl (System_error ''epoll_ctl add''), l1)
         else (Inr tok, l1\<lparr>el_epoll := (el_epoll l)(fd \<mapsto> (tok, events)), el_watches := (el_watches l)(tok \<mapsto> (fd, callback))\<rparr>))"

definition Modify :: "bool \<Rightarrow> nat \<Rightarrow> nat \<Rightarrow> ('t, 'c) event_loop \<Rightarrow> unit result \<times> ('t, 'c) event_loop" where
  "Modify ok tok events l =
     (case el_watches l tok of
        None \<Rightarrow> (Inr (), l)
      | Some (fd, _) \<Rightarrow>
          if \<not> ok then (Inl (System_error ''epoll_ctl modify''), l)
          else (Inr (), l\<lparr>el_epoll := (el_epoll l)(fd \<mapsto> (tok, events))\<rparr>))"

definition Remove :: "nat \<Rightarrow> ('t, 'c) event_loop \<Rightarrow> ('t, 'c) event_loop" where
  "Remove tok l =
     (case el_watches l tok of
        None \<Rightarrow> l
      | Some (fd, _) \<Rightarrow> l\<lparr>el_epoll := (el_epoll l)(fd := None), el_watches := (el_watches l)(tok := None)\<rparr>)"

text \<open>\<open>multimap::emplace\<close> inserts behind the nodes with an equal key.\<close>

fun emplace :: "'t timer \<Rightarrow> 't timer list \<Rightarrow> 't timer list" where
  "emplace x [] = [x]"
| "emplace x (y # ys) = (if fst x < fst y then x # y # ys else y # emplace x ys)"

definition At :: "nat \<Rightarrow> 't \<Rightarrow> ('t, 'c) event_loop \<Rightarrow> nat \<times> ('t, 'c) event_loop" where
  "At deadline task l =
     (let tid = el_next l
      in (tid, l\<lparr>el_next := Suc tid, el_timers := emplace (deadline, tid, task) (el_timers l),
                 el_timer_index := (el_timer_index l)(tid \<mapsto> tid)\<rparr>))"

definition Cancel :: "nat \<Rightarrow> ('t, 'c) event_loop \<Rightarrow> ('t, 'c) event_loop" where
  "Cancel tid l =
     (case el_timer_index l tid of
        None \<Rightarrow> l
      | Some node \<Rightarrow> l\<lparr>el_timers := filter (\<lambda>(_, n, _). n \<noteq> node) (el_timers l),
                       el_timer_index := (el_timer_index l)(tid := None)\<rparr>)"

definition Post :: "'t \<Rightarrow> ('t, 'c) event_loop \<Rightarrow> ('t, 'c) event_loop" where
  "Post task l = l\<lparr>el_tasks := el_tasks l @ [task], el_wake := True\<rparr>"

definition loop_Stop :: "'t \<Rightarrow> ('t, 'c) event_loop \<Rightarrow> ('t, 'c) event_loop" where
  "loop_Stop nothing l = Post nothing (l\<lparr>el_stopping := True\<rparr>)"

section \<open>One turn of the loop\<close>

text \<open>
  \<open>task\<close> and \<open>callback\<close> interpret a closure on the loop and the state of the application. A
  turn gets the events that \<open>epoll_wait\<close> returned, as tokens with masks, and the clock
  readings of the timer loop; it ends when the readings are used up.
\<close>

type_synonym ('t, 'c, 'a) machine = "('t, 'c) event_loop \<times> 'a"

definition wake_event ::
  "('t \<Rightarrow> ('t, 'c, 'a) machine \<Rightarrow> ('t, 'c, 'a) machine) \<Rightarrow> ('t, 'c, 'a) machine \<Rightarrow> ('t, 'c, 'a) machine" where
  "wake_event task s =
     (let (l, a) = s; tasks = el_tasks l in fold task tasks (l\<lparr>el_wake := False, el_tasks := []\<rparr>, a))"

definition handle_event ::
  "('t \<Rightarrow> ('t, 'c, 'a) machine \<Rightarrow> ('t, 'c, 'a) machine) \<Rightarrow> ('c \<Rightarrow> nat \<Rightarrow> ('t, 'c, 'a) machine \<Rightarrow> ('t, 'c, 'a) machine) \<Rightarrow>
   nat \<times> nat \<Rightarrow> ('t, 'c, 'a) machine \<Rightarrow> ('t, 'c, 'a) machine" where
  "handle_event task callback ev s =
     (if fst ev = 0 then wake_event task s
      else case el_watches (fst s) (fst ev) of None \<Rightarrow> s | Some (_, c) \<Rightarrow> callback c (snd ev) s)"

definition due_timer :: "nat \<Rightarrow> ('t, 'c) event_loop \<Rightarrow> 't option \<times> ('t, 'c) event_loop" where
  "due_timer now l =
     (case el_timers l of
        [] \<Rightarrow> (None, l)
      | (deadline, tid, t) # rest \<Rightarrow>
          if deadline \<le> now
          then (Some t, l\<lparr>el_timer_index := (el_timer_index l)(tid := None), el_timers := rest\<rparr>)
          else (None, l))"

fun fire_timers ::
  "('t \<Rightarrow> ('t, 'c, 'a) machine \<Rightarrow> ('t, 'c, 'a) machine) \<Rightarrow> nat list \<Rightarrow> ('t, 'c, 'a) machine \<Rightarrow> ('t, 'c, 'a) machine" where
  "fire_timers task [] s = s"
| "fire_timers task (now # clock) s =
     (case due_timer now (fst s) of
        (None, l) \<Rightarrow> (l, snd s)
      | (Some t, l) \<Rightarrow> fire_timers task clock (task t (l, snd s)))"

definition run_turn ::
  "('t \<Rightarrow> ('t, 'c, 'a) machine \<Rightarrow> ('t, 'c, 'a) machine) \<Rightarrow> ('c \<Rightarrow> nat \<Rightarrow> ('t, 'c, 'a) machine \<Rightarrow> ('t, 'c, 'a) machine) \<Rightarrow>
   (nat \<times> nat) list \<Rightarrow> nat list \<Rightarrow> ('t, 'c, 'a) machine \<Rightarrow> ('t, 'c, 'a) machine" where
  "run_turn task callback events clock s =
     (if el_stopping (fst s) then s else fire_timers task clock (fold (handle_event task callback) events s))"

text \<open>
  How long \<open>epoll_wait\<close> may sleep, in milliseconds; -1 is without limit. Times are nanoseconds
  of the steady clock, and \<open>duration_cast\<close> truncates toward zero.
\<close>

definition wait_timeout :: "nat \<Rightarrow> ('t, 'c) event_loop \<Rightarrow> int" where
  "wait_timeout now l =
     (case el_timers l of
        [] \<Rightarrow> -1
      | (deadline, _) # _ \<Rightarrow>
          (let ms = (if now \<le> deadline then int ((deadline - now) div 1000000) else - int ((now - deadline) div 1000000))
           in max 0 (min (ms + 1) (2 ^ 31 - 1))))"

section \<open>Invariant\<close>

abbreviation timer_ids :: "'t timer list \<Rightarrow> nat list" where
  "timer_ids ts \<equiv> map (\<lambda>(_, n, _). n) ts"

definition timers_inv :: "nat \<Rightarrow> 't timer list \<Rightarrow> (nat \<rightharpoonup> nat) \<Rightarrow> bool" where
  "timers_inv next ts index \<longleftrightarrow> sorted (map fst ts) \<and> distinct (timer_ids ts) \<and>
     (\<forall>n \<in> set (timer_ids ts). 0 < n \<and> n < next) \<and>
     (\<forall>n. index n = (if n \<in> set (timer_ids ts) then Some n else None))"

definition watches_inv :: "nat \<Rightarrow> (nat \<rightharpoonup> int \<times> 'c) \<Rightarrow> (int \<rightharpoonup> nat \<times> nat) \<Rightarrow> bool" where
  "watches_inv next watches epoll \<longleftrightarrow>
     (\<forall>n fd c. watches n = Some (fd, c) \<longrightarrow> 0 < n \<and> n < next \<and> (\<exists>m. epoll fd = Some (n, m))) \<and>
     (\<forall>fd n m. epoll fd = Some (n, m) \<longrightarrow> (\<exists>c. watches n = Some (fd, c)))"

definition loop_inv :: "('t, 'c) event_loop \<Rightarrow> bool" where
  "loop_inv l \<longleftrightarrow> 0 < el_next l \<and> timers_inv (el_next l) (el_timers l) (el_timer_index l) \<and>
     watches_inv (el_next l) (el_watches l) (el_epoll l) \<and> (el_tasks l \<noteq> [] \<longrightarrow> el_wake l)"

lemma timers_inv_next: "timers_inv n ts ix \<Longrightarrow> timers_inv (Suc n) ts ix"
  by (auto simp: timers_inv_def intro: less_SucI)

lemma watches_inv_next: "watches_inv n ws ep \<Longrightarrow> watches_inv (Suc n) ws ep"
  unfolding watches_inv_def by (meson less_SucI)

lemma set_emplace: "set (emplace x ts) = insert x (set ts)"
  by (induction ts) auto

lemma ids_emplace: "set (timer_ids (emplace (d, n, t) ts)) = insert n (set (timer_ids ts))"
  by (induction ts) auto

lemma sorted_emplace: "sorted (map fst ts) \<Longrightarrow> sorted (map fst (emplace x ts))"
  by (induction ts) (auto simp: set_emplace)

lemma distinct_emplace: "distinct (timer_ids ts) \<Longrightarrow> n \<notin> set (timer_ids ts) \<Longrightarrow> distinct (timer_ids (emplace (d, n, t) ts))"
proof (induction ts)
  case (Cons y ys)
  then show ?case
    using ids_emplace [of d n t ys] by (cases y) auto
qed simp

lemma loop_inv_new: "loop_inv loop_new"
  by (simp add: loop_inv_def loop_new_def timers_inv_def watches_inv_def)

lemma watches_add:
  assumes "watches_inv n ws ep" and "ep fd = None" and "0 < n"
  shows "watches_inv (Suc n) (ws(n \<mapsto> (fd, c))) (ep(fd \<mapsto> (n, m)))"
  unfolding watches_inv_def
proof (intro conjI allI impI)
  fix k fd' c'
  assume k: "(ws(n \<mapsto> (fd, c))) k = Some (fd', c')"
  show "0 < k" and "k < Suc n"
    using k assms by (auto simp: watches_inv_def less_Suc_eq split: if_splits)
  show "\<exists>m'. (ep(fd \<mapsto> (n, m))) fd' = Some (k, m')"
    using k assms by (cases "k = n"; cases "fd' = fd") (force simp: watches_inv_def)+
next
  fix fd' k m'
  assume "(ep(fd \<mapsto> (n, m))) fd' = Some (k, m')"
  then show "\<exists>c'. (ws(n \<mapsto> (fd, c))) k = Some (fd', c')"
    using assms by (cases "fd' = fd"; cases "k = n") (force simp: watches_inv_def)+
qed

lemma watches_invD:
  "watches_inv n ws ep \<Longrightarrow> ws k = Some (fd, c) \<Longrightarrow> \<exists>m. ep fd = Some (k, m)"
  "watches_inv n ws ep \<Longrightarrow> ep fd = Some (k, m) \<Longrightarrow> \<exists>c. ws k = Some (fd, c)"
  unfolding watches_inv_def by blast+

lemma watches_same: "watches_inv n ws ep \<Longrightarrow> ws k = Some (fd, c) \<Longrightarrow> ws k' = Some (fd, c') \<Longrightarrow> k = k'"
  unfolding watches_inv_def by (metis Pair_inject option.inject)

lemma watches_modify:
  assumes "watches_inv n ws ep" and "ws k = Some (fd, c)"
  shows "watches_inv n ws (ep(fd \<mapsto> (k, m)))"
  unfolding watches_inv_def
proof (intro conjI allI impI)
  fix k' fd' c'
  assume k: "ws k' = Some (fd', c')"
  show "0 < k'" and "k' < n"
    using k assms(1) unfolding watches_inv_def by blast+
  show "\<exists>m'. (ep(fd \<mapsto> (k, m))) fd' = Some (k', m')"
  proof (cases "fd' = fd")
    case True
    then show ?thesis
      using watches_same [OF assms] k by simp
  next
    case False
    then show ?thesis
      using watches_invD(1) [OF assms(1) k] by simp
  qed
next
  fix fd' k' m'
  assume "(ep(fd \<mapsto> (k, m))) fd' = Some (k', m')"
  then show "\<exists>c'. ws k' = Some (fd', c')"
    using assms(2) watches_invD(2) [OF assms(1)] by (auto split: if_splits)
qed

lemma watches_remove:
  assumes "watches_inv n ws ep" and "ws k = Some (fd, c)"
  shows "watches_inv n (ws(k := None)) (ep(fd := None))"
  unfolding watches_inv_def
proof (intro conjI allI impI)
  fix k' fd' c'
  assume "(ws(k := None)) k' = Some (fd', c')"
  then have k: "ws k' = Some (fd', c')" "k' \<noteq> k"
    by (auto split: if_splits)
  show "0 < k'" and "k' < n"
    using k assms(1) unfolding watches_inv_def by blast+
  have "fd' \<noteq> fd"
    using k watches_same [OF assms(1,2)] by blast
  then show "\<exists>m'. (ep(fd := None)) fd' = Some (k', m')"
    using watches_invD(1) [OF assms(1) k(1)] by simp
next
  fix fd' k' m'
  assume "(ep(fd := None)) fd' = Some (k', m')"
  then have fd: "fd' \<noteq> fd" "ep fd' = Some (k', m')"
    by (auto split: if_splits)
  then obtain c' where "ws k' = Some (fd', c')"
    using watches_invD(2) [OF assms(1)] by blast
  with fd(1) assms(2) show "\<exists>c'. (ws(k := None)) k' = Some (fd', c')"
    by (cases "k' = k") auto
qed

lemma Add_inv: "loop_inv l \<Longrightarrow> loop_inv (snd (Add ok fd ev c l))"
  using watches_add [of "el_next l" "el_watches l" "el_epoll l" fd c ev]
  by (cases "el_epoll l fd") (simp_all add: loop_inv_def Add_def Let_def timers_inv_next watches_inv_next)

lemma Modify_inv: "loop_inv l \<Longrightarrow> loop_inv (snd (Modify ok tok ev l))"
  by (auto simp: loop_inv_def Modify_def watches_modify split: option.splits)

lemma Remove_inv: "loop_inv l \<Longrightarrow> loop_inv (Remove tok l)"
  by (auto simp: loop_inv_def Remove_def watches_remove split: option.splits)

lemma timers_add:
  assumes "timers_inv n ts ix" and "0 < n"
  shows "timers_inv (Suc n) (emplace (d, n, t) ts) (ix(n \<mapsto> n))"
proof -
  have "n \<notin> set (timer_ids ts)"
    using assms(1) by (fastforce simp: timers_inv_def)
  then show ?thesis
    using assms ids_emplace [of d n t ts]
    by (simp add: timers_inv_def sorted_emplace distinct_emplace less_Suc_eq del: set_map)
qed

lemma At_inv: "loop_inv l \<Longrightarrow> loop_inv (snd (At d t l))"
  by (simp add: loop_inv_def At_def Let_def timers_add watches_inv_next)

lemma timers_drop:
  assumes "timers_inv n ts ix"
  shows "timers_inv n (filter (\<lambda>(_, m, _). m \<noteq> k) ts) (ix(k := None))"
proof -
  have ids: "timer_ids (filter (\<lambda>(_, m, _). m \<noteq> k) ts) = filter (\<lambda>m. m \<noteq> k) (timer_ids ts)" for ts :: "'a timer list"
    by (induction ts) auto
  show ?thesis
    using assms by (simp add: timers_inv_def ids sorted_filter del: set_map)
qed

lemma Cancel_inv: "loop_inv l \<Longrightarrow> loop_inv (Cancel n l)"
proof -
  assume inv: "loop_inv l"
  then have "el_timer_index l n = None \<or> el_timer_index l n = Some n"
    by (simp add: loop_inv_def timers_inv_def)
  then show ?thesis
    using inv timers_drop by (auto simp: loop_inv_def Cancel_def)
qed

lemma timers_pop:
  assumes "timers_inv n ((d, k, t) # ts) ix"
  shows "timers_inv n ts (ix(k := None))"
  using assms by (auto simp: timers_inv_def)

lemma Post_inv: "loop_inv l \<Longrightarrow> loop_inv (Post t l)"
  by (simp add: loop_inv_def Post_def)

lemma Stop_inv: "loop_inv l \<Longrightarrow> loop_inv (loop_Stop t l)"
  by (simp add: loop_inv_def loop_Stop_def Post_def)

lemma due_inv: "loop_inv l \<Longrightarrow> loop_inv (snd (due_timer now l))"
  by (auto simp: loop_inv_def due_timer_def timers_pop split: list.splits)

lemmas loop_invs = Add_inv Modify_inv Remove_inv At_inv Cancel_inv Post_inv Stop_inv due_inv

text \<open>
  The sleep ends behind the earliest deadline, so that the timer is due when the loop looks,
  and less than a millisecond late.
\<close>

lemma wait_timeout_due:
  assumes "el_timers l = (d, x) # ts" and "now \<le> d" and "(d - now) div 1000000 < 2 ^ 31 - 1"
  shows "d < now + 1000000 * nat (wait_timeout now l)" and "now + 1000000 * nat (wait_timeout now l) \<le> d + 1000000"
proof -
  have "nat (wait_timeout now l) = (d - now) div 1000000 + 1"
    using assms by (simp add: wait_timeout_def Let_def nat_add_distrib)
  moreover have "d - now < 1000000 * ((d - now) div 1000000 + 1)" "1000000 * ((d - now) div 1000000) \<le> d - now"
    by (simp_all add: dividend_less_times_div)
  ultimately show "d < now + 1000000 * nat (wait_timeout now l)" "now + 1000000 * nat (wait_timeout now l) \<le> d + 1000000"
    using assms(2) by (simp_all add: algebra_simps)
qed

section \<open>Turns\<close>

text \<open>
  A property of loop and application state holds after a turn when every closure keeps it, a
  closure of a timer also from the state in which its timer is gone, and it does not depend on
  the tasks that the turn takes out.
\<close>

lemma fire_timers_keeps:
  assumes "\<And>now l a t l'. P (l, a) \<Longrightarrow> due_timer now l = (Some t, l') \<Longrightarrow> P (task t (l', a))"
  shows "P s \<Longrightarrow> P (fire_timers task clock s)"
proof (induction clock arbitrary: s)
  case (Cons now clock)
  obtain l a r l' where s: "s = (l, a)" "due_timer now l = (r, l')"
    by (metis surj_pair)
  show ?case
  proof (cases r)
    case None
    with s have "l' = l"
      by (auto simp: due_timer_def split: list.splits if_splits)
    with None s Cons.prems show ?thesis
      by simp
  next
    case (Some t)
    with s Cons assms show ?thesis
      by simp
  qed
qed simp

lemma run_turn_keeps:
  assumes "\<And>t R s. P (t # R) s \<Longrightarrow> P R (task t s)" and "\<And>k fd c ev s. P [] s \<Longrightarrow> el_watches (fst s) k = Some (fd, c) \<Longrightarrow> P [] (callback c ev s)"
    and "\<And>now l a t l'. P [] (l, a) \<Longrightarrow> due_timer now l = (Some t, l') \<Longrightarrow> P [] (task t (l', a))"
    and "\<And>l a. P [] (l, a) \<Longrightarrow> P (el_tasks l) (l\<lparr>el_wake := False, el_tasks := []\<rparr>, a)"
    and "P [] s"
  shows "P [] (run_turn task callback events clock s)"
proof -
  have tasks: "P ts s \<Longrightarrow> P [] (fold task ts s)" for ts s
    by (induction ts arbitrary: s) (use assms(1) in auto)
  have ev: "P [] s \<Longrightarrow> P [] (handle_event task callback e s)" for e s
    using assms(2,4) tasks by (cases s) (auto simp: handle_event_def wake_event_def Let_def split: option.splits)
  have "P [] s \<Longrightarrow> P [] (fold (handle_event task callback) events s)" for s
    by (induction events arbitrary: s) (use ev in auto)
  with assms(5) show ?thesis
    using fire_timers_keeps [of "P []" task, OF assms(3)] by (simp add: run_turn_def)
qed

lemma due_timer_Cancel:
  assumes "loop_inv l" and "due_timer now l = (Some t, l')"
  shows "\<exists>d n. (d, n, t) \<in> set (el_timers l) \<and> d \<le> now \<and> l' = Cancel n l"
proof -
  obtain d n rest where h: "el_timers l = (d, n, t) # rest" "d \<le> now"
    "l' = l\<lparr>el_timer_index := (el_timer_index l)(n := None), el_timers := rest\<rparr>"
    using assms(2) by (auto simp: due_timer_def split: list.splits if_splits)
  have "el_timer_index l n = Some n" "n \<notin> set (timer_ids rest)"
    using assms(1) h(1) by (simp_all add: loop_inv_def timers_inv_def)
  moreover from this(2) have "filter (\<lambda>(_, m, _). m \<noteq> n) rest = rest"
    by (force simp: filter_id_conv)
  ultimately have "l' = Cancel n l"
    using h by (cases l) (simp add: Cancel_def)
  with h show ?thesis
    by (intro exI [of _ d] exI [of _ n]) simp
qed

section \<open>What the loop promises\<close>

text \<open>
  One operation of the loop with what its caller observes: a new identifier, an exception, the
  closure that is run, or nothing.
\<close>

datatype ('t, 'c) loop_op =
  Do_at nat 't
| Do_cancel nat
| Do_timer nat
| Do_add bool int nat 'c
| Do_modify bool nat nat
| Do_remove nat
| Do_event nat

datatype ('t, 'c) obs = Ob_id nat | Ob_throw | Ob_none | Ob_task 't | Ob_call 'c

fun loop_step :: "('t, 'c) loop_op \<Rightarrow> ('t, 'c) event_loop \<Rightarrow> ('t, 'c) obs \<times> ('t, 'c) event_loop" where
  "loop_step (Do_at d t) l = (let (n, l') = At d t l in (Ob_id n, l'))"
| "loop_step (Do_cancel n) l = (Ob_none, Cancel n l)"
| "loop_step (Do_timer now) l = (let (r, l') = due_timer now l in (case r of None \<Rightarrow> Ob_none | Some t \<Rightarrow> Ob_task t, l'))"
| "loop_step (Do_add ok fd ev c) l = (let (r, l') = Add ok fd ev c l in (case r of Inl _ \<Rightarrow> Ob_throw | Inr n \<Rightarrow> Ob_id n, l'))"
| "loop_step (Do_modify ok n ev) l = (let (r, l') = Modify ok n ev l in (case r of Inl _ \<Rightarrow> Ob_throw | Inr _ \<Rightarrow> Ob_none, l'))"
| "loop_step (Do_remove n) l = (Ob_none, Remove n l)"
| "loop_step (Do_event n) l = (case el_watches l n of None \<Rightarrow> Ob_none | Some (_, c) \<Rightarrow> Ob_call c, l)"

fun loop_run :: "('t, 'c) loop_op list \<Rightarrow> ('t, 'c) event_loop \<Rightarrow> ('t, 'c) obs list" where
  "loop_run [] l = []"
| "loop_run (x # xs) l = (let (ob, l') = loop_step x l in ob # loop_run xs l')"

text \<open>
  The specification: a set of identifiers already handed out, the armed timers and the active
  watches. An identifier is always new. A timer runs only when it is armed and due and no
  armed timer has an earlier deadline; when none runs, none is due. An event reaches the
  callback of the watch it belongs to, and nothing once that watch was removed.
\<close>

record ('t, 'c) loop_spec =
  sp_issued :: "nat set"
  sp_armed :: "nat \<rightharpoonup> nat \<times> 't"
  sp_watched :: "nat \<rightharpoonup> 'c"

fun spec_step :: "('t, 'c) loop_op \<Rightarrow> ('t, 'c) obs \<Rightarrow> ('t, 'c) loop_spec \<Rightarrow> ('t, 'c) loop_spec \<Rightarrow> bool" where
  "spec_step (Do_at d t) ob s s' \<longleftrightarrow>
     (\<exists>n. ob = Ob_id n \<and> n \<notin> sp_issued s \<and> s' = s\<lparr>sp_issued := insert n (sp_issued s), sp_armed := (sp_armed s)(n \<mapsto> (d, t))\<rparr>)"
| "spec_step (Do_cancel n) ob s s' \<longleftrightarrow> ob = Ob_none \<and> s' = s\<lparr>sp_armed := (sp_armed s)(n := None)\<rparr>"
| "spec_step (Do_timer now) ob s s' \<longleftrightarrow>
     (ob = Ob_none \<and> s' = s \<and> (\<forall>n d t. sp_armed s n = Some (d, t) \<longrightarrow> now < d)) \<or>
     (\<exists>n d t. ob = Ob_task t \<and> sp_armed s n = Some (d, t) \<and> d \<le> now \<and> (\<forall>m d' t'. sp_armed s m = Some (d', t') \<longrightarrow> d \<le> d') \<and>
        s' = s\<lparr>sp_armed := (sp_armed s)(n := None)\<rparr>)"
| "spec_step (Do_add ok fd ev c) ob s s' \<longleftrightarrow>
     (ob = Ob_throw \<and> s' = s) \<or>
     (\<exists>n. ob = Ob_id n \<and> n \<notin> sp_issued s \<and> s' = s\<lparr>sp_issued := insert n (sp_issued s), sp_watched := (sp_watched s)(n \<mapsto> c)\<rparr>)"
| "spec_step (Do_modify ok n ev) ob s s' \<longleftrightarrow> (ob = Ob_none \<or> ob = Ob_throw \<and> sp_watched s n \<noteq> None) \<and> s' = s"
| "spec_step (Do_remove n) ob s s' \<longleftrightarrow> ob = Ob_none \<and> s' = s\<lparr>sp_watched := (sp_watched s)(n := None)\<rparr>"
| "spec_step (Do_event n) ob s s' \<longleftrightarrow> ob = (case sp_watched s n of None \<Rightarrow> Ob_none | Some c \<Rightarrow> Ob_call c) \<and> s' = s"

inductive spec_run :: "('t, 'c) loop_op list \<Rightarrow> ('t, 'c) obs list \<Rightarrow> ('t, 'c) loop_spec \<Rightarrow> bool" where
  Nil: "spec_run [] [] s"
| Cons: "spec_step x ob s s' \<Longrightarrow> spec_run xs obs s' \<Longrightarrow> spec_run (x # xs) (ob # obs) s"

definition spec_new :: "('t, 'c) loop_spec" where
  "spec_new = \<lparr>sp_issued = {}, sp_armed = Map.empty, sp_watched = Map.empty\<rparr>"

definition loop_refines :: "('t, 'c) event_loop \<Rightarrow> ('t, 'c) loop_spec \<Rightarrow> bool" where
  "loop_refines l s \<longleftrightarrow> loop_inv l \<and> (\<forall>n \<in> sp_issued s. n < el_next l) \<and>
     (\<forall>n d t. sp_armed s n = Some (d, t) \<longleftrightarrow> (d, n, t) \<in> set (el_timers l)) \<and>
     (\<forall>n. sp_watched s n = map_option snd (el_watches l n))"

lemma loop_fields [simp]:
  "el_watches (Remove k l) = (el_watches l)(k := None)" "el_timers (Remove k l) = el_timers l" "el_next (Remove k l) = el_next l"
  "el_watches (Post t l) = el_watches l" "el_timers (Post t l) = el_timers l" "el_next (Post t l) = el_next l"
  "el_watches (loop_Stop t l) = el_watches l" "el_timers (loop_Stop t l) = el_timers l" "el_next (loop_Stop t l) = el_next l"
  by (auto simp: Remove_def Post_def loop_Stop_def fun_eq_iff split: option.splits)

lemma At_fields [simp]:
  "fst (At d t l) = el_next l" "el_watches (snd (At d t l)) = el_watches l" "el_next (snd (At d t l)) = Suc (el_next l)"
  "set (el_timers (snd (At d t l))) = insert (d, el_next l, t) (set (el_timers l))"
  by (simp_all add: At_def Let_def set_emplace)

text \<open>What the operations leave alone.\<close>

lemma loop_frame:
  "el_tasks (Remove k l) = el_tasks l" "el_tasks (Cancel n l) = el_tasks l" "el_next (Cancel n l) = el_next l"
  "el_watches (Cancel n l) = el_watches l" "el_tasks (snd (At d t l)) = el_tasks l"
  "el_tasks (snd (Add ok fd ev c l)) = el_tasks l" "el_timers (snd (Add ok fd ev c l)) = el_timers l"
  "el_next (snd (Add ok fd ev c l)) = Suc (el_next l)"
  "el_tasks (snd (Modify ok k ev l)) = el_tasks l" "el_timers (snd (Modify ok k ev l)) = el_timers l"
  "el_next (snd (Modify ok k ev l)) = el_next l" "el_tasks (Post t l) = el_tasks l @ [t]" "el_tasks (loop_Stop t l) = el_tasks l @ [t]"
  by (auto simp: Remove_def Cancel_def At_def Add_def Modify_def Post_def loop_Stop_def Let_def split: option.splits if_splits)

lemma timer_unique: "loop_inv l \<Longrightarrow> (d, n, t) \<in> set (el_timers l) \<Longrightarrow> (d', n, t') \<in> set (el_timers l) \<Longrightarrow> d = d' \<and> t = t'"
proof -
  have "(d, n, t) \<in> set ts \<Longrightarrow> (d', n, t') \<in> set ts \<Longrightarrow> distinct (timer_ids ts) \<Longrightarrow> d = d' \<and> t = t'" for ts :: "'a timer list"
    by (induction ts) (auto, force+)
  then show "loop_inv l \<Longrightarrow> (d, n, t) \<in> set (el_timers l) \<Longrightarrow> (d', n, t') \<in> set (el_timers l) \<Longrightarrow> d = d' \<and> t = t'"
    by (simp add: loop_inv_def timers_inv_def)
qed

lemma Cancel_timers:
  assumes "loop_inv l"
  shows "set (el_timers (Cancel n l)) = {x \<in> set (el_timers l). fst (snd x) \<noteq> n}" and "el_watches (Cancel n l) = el_watches l"
    and "el_next (Cancel n l) = el_next l"
proof -
  have ix: "el_timer_index l n = (if n \<in> set (timer_ids (el_timers l)) then Some n else None)"
    using assms by (simp add: loop_inv_def timers_inv_def del: set_map)
  show "set (el_timers (Cancel n l)) = {x \<in> set (el_timers l). fst (snd x) \<noteq> n}"
    using ix by (cases "n \<in> set (timer_ids (el_timers l))") (auto simp: Cancel_def, force)
  show "el_watches (Cancel n l) = el_watches l" "el_next (Cancel n l) = el_next l"
    by (simp_all add: Cancel_def split: option.splits)
qed

lemma refines_at:
  assumes "loop_refines l s"
  shows "\<exists>s'. spec_step (Do_at d t) (fst (loop_step (Do_at d t) l)) s s' \<and> loop_refines (snd (loop_step (Do_at d t) l)) s'"
proof -
  let ?s' = "s\<lparr>sp_issued := insert (el_next l) (sp_issued s), sp_armed := (sp_armed s)(el_next l \<mapsto> (d, t))\<rparr>"
  have new: "(d', el_next l, t') \<notin> set (el_timers l)" for d' t'
    using assms by (force simp: loop_refines_def loop_inv_def timers_inv_def)
  have "loop_refines (snd (At d t l)) ?s'"
    using assms At_inv [of l d t] new by (auto simp: loop_refines_def At_def Let_def set_emplace less_Suc_eq)
  then show ?thesis
    using assms by (auto simp: At_def Let_def loop_refines_def intro!: exI [of _ ?s'])
qed

lemma refines_timer:
  assumes "loop_refines l s"
  shows "\<exists>s'. spec_step (Do_timer now) (fst (loop_step (Do_timer now) l)) s s' \<and> loop_refines (snd (loop_step (Do_timer now) l)) s'"
proof (cases "el_timers l")
  case Nil
  with assms show ?thesis
    by (auto simp: due_timer_def loop_refines_def)
next
  case (Cons x rest)
  obtain d n t where x: "x = (d, n, t)"
    by (cases x)
  have inv: "loop_inv l" and armed: "\<forall>n d t. sp_armed s n = Some (d, t) \<longleftrightarrow> (d, n, t) \<in> set (el_timers l)"
    using assms by (simp_all add: loop_refines_def)
  have sorted: "\<forall>(d', n', t') \<in> set (el_timers l). d \<le> d'"
    using inv Cons x by (auto simp: loop_inv_def timers_inv_def)
  show ?thesis
  proof (cases "d \<le> now")
    case True
    let ?s' = "s\<lparr>sp_armed := (sp_armed s)(n := None)\<rparr>"
    have rest: "(d', n', t') \<in> set rest \<longleftrightarrow> n' \<noteq> n \<and> (d', n', t') \<in> set (el_timers l)" for d' n' t'
      using inv Cons x by (force simp: loop_inv_def timers_inv_def)
    have "loop_refines (snd (due_timer now l)) ?s'"
      unfolding loop_refines_def
    proof (intro conjI allI)
      show "sp_armed ?s' n' = Some (d', t') \<longleftrightarrow> (d', n', t') \<in> set (el_timers (snd (due_timer now l)))" for n' d' t'
        using True Cons x rest [of d' n' t'] armed by (cases "n' = n") (simp_all add: due_timer_def)
    qed (use assms due_inv [OF inv, of now] in \<open>simp_all add: loop_refines_def due_timer_def Cons x True\<close>)
    moreover have "sp_armed s n = Some (d, t)" "\<forall>m d' t'. sp_armed s m = Some (d', t') \<longrightarrow> d \<le> d'"
      using armed sorted Cons x by (simp, fastforce)
    with True have "spec_step (Do_timer now) (Ob_task t) s ?s'"
      unfolding spec_step.simps by blast
    ultimately show ?thesis
      using True Cons x by (auto simp: due_timer_def)
  next
    case False
    with sorted armed have "\<forall>n d t. sp_armed s n = Some (d, t) \<longrightarrow> now < d"
      by fastforce
    with False assms Cons x show ?thesis
      by (auto simp: due_timer_def)
  qed
qed

lemma refines_watch:
  assumes "loop_refines l s" and "x \<in> {Do_add ok fd ev c, Do_modify ok n ev, Do_remove n, Do_event n}"
  shows "\<exists>s'. spec_step x (fst (loop_step x l)) s s' \<and> loop_refines (snd (loop_step x l)) s'"
proof -
  have inv: "loop_inv l" and w: "\<forall>n. sp_watched s n = map_option snd (el_watches l n)"
    using assms(1) by (simp_all add: loop_refines_def)
  consider "x = Do_add ok fd ev c" | "x = Do_modify ok n ev" | "x = Do_remove n" | "x = Do_event n"
    using assms(2) by blast
  then show ?thesis
  proof cases
    case 1
    let ?s' = "s\<lparr>sp_issued := insert (el_next l) (sp_issued s), sp_watched := (sp_watched s)(el_next l \<mapsto> c)\<rparr>"
    show ?thesis
    proof (cases "ok \<and> el_epoll l fd = None")
      case True
      then have "loop_refines (snd (Add ok fd ev c l)) ?s'"
        using assms(1) Add_inv [OF inv, of ok fd ev c] by (auto simp: loop_refines_def Add_def Let_def less_Suc_eq)
      with True 1 assms(1) show ?thesis
        by (auto simp: Add_def Let_def loop_refines_def intro!: exI [of _ ?s'])
    next
      case False
      then show ?thesis
        using 1 assms(1) Add_inv [OF inv, of ok fd ev c] by (auto simp: loop_refines_def Add_def Let_def less_Suc_eq intro!: exI [of _ s])
    qed
  next
    case 2
    have "el_timers (snd (Modify ok n ev l)) = el_timers l" "el_watches (snd (Modify ok n ev l)) = el_watches l"
      "el_next (snd (Modify ok n ev l)) = el_next l"
      by (simp_all add: Modify_def split: option.splits)
    then have "loop_refines (snd (Modify ok n ev l)) s"
      using assms(1) Modify_inv [OF inv, of ok n ev] by (simp add: loop_refines_def)
    moreover have "fst (Modify ok n ev l) = Inr () \<or> sp_watched s n \<noteq> None"
      using w by (simp add: Modify_def split: option.splits)
    ultimately show ?thesis
      using 2 by (auto split: prod.splits sum.splits)
  next
    case 3
    have "loop_refines (Remove n l) (s\<lparr>sp_watched := (sp_watched s)(n := None)\<rparr>)"
      using assms(1) Remove_inv [OF inv, of n] w by (auto simp: loop_refines_def Remove_def split: option.splits)
    with 3 show ?thesis
      by auto
  next
    case 4
    with assms(1) w show ?thesis
      by (auto split: option.splits)
  qed
qed

lemma refines_step:
  assumes "loop_refines l s"
  shows "\<exists>s'. spec_step x (fst (loop_step x l)) s s' \<and> loop_refines (snd (loop_step x l)) s'"
proof (cases x)
  case (Do_cancel n)
  have "loop_refines (Cancel n l) (s\<lparr>sp_armed := (sp_armed s)(n := None)\<rparr>)"
    using assms Cancel_inv [of l n] Cancel_timers [of l n] by (auto simp: loop_refines_def)
  with Do_cancel show ?thesis
    by auto
next
  case (Do_at d t)
  show ?thesis
    unfolding Do_at by (rule refines_at [OF assms])
next
  case (Do_timer now)
  show ?thesis
    unfolding Do_timer by (rule refines_timer [OF assms])
next
  case (Do_add ok fd ev c)
  then show ?thesis
    by (intro refines_watch [OF assms, where ok = ok and fd = fd and ev = ev and c = c]) simp
next
  case (Do_modify ok n ev)
  then show ?thesis
    by (intro refines_watch [OF assms, where ok = ok and n = n and ev = ev]) simp
next
  case (Do_remove n)
  then show ?thesis
    by (intro refines_watch [OF assms, where n = n]) simp
next
  case (Do_event n)
  then show ?thesis
    by (intro refines_watch [OF assms, where n = n]) simp
qed

lemma refines_run: "loop_refines l s \<Longrightarrow> spec_run xs (loop_run xs l) s"
proof (induction xs arbitrary: l s)
  case (Cons x xs)
  then show ?case
    using refines_step [of l s x] by (auto simp: Let_def split: prod.splits intro: spec_run.intros)
qed (simp add: spec_run.Nil)

section \<open>Properties\<close>


end
