(* ===== verification/Tcp_Server.thy ===== *)
theory Tcp_Server
  imports Server_Types Net_Buffer Socket_Calls Event_Loop
begin

text \<open>
  The server of \<open>include/kvrpc/tcp_server.h\<close> and \<open>src/tcp_server.cpp\<close>: its configuration, the
  bounded queue between I/O threads and workers, and the I/O threads with their peers. A peer
  is named by the token of its watch; the closures of the source hold a weak pointer to the
  peer, which can be locked exactly while the peer is in the table \<open>peers\<close>, so a closed peer is
  a name that is not in the table. Socket calls, clock readings and \<open>epoll_ctl\<close> failures come
  from an input that every activation of \<open>Pump\<close> takes from \<open>io_env\<close>; when it has no more
  results for a socket, the call would block. A task or callback of an I/O thread is one step.
  \<open>io_log\<close> is the history of a thread; no operation reads it.
\<close>

section \<open>Configuration\<close>

datatype handler_kind = No_handler | One_handler | Batch_handler

record tcp_server =
  ts_port :: int
  ts_max_connections :: nat
  ts_max_frame_bytes :: nat
  ts_options :: server_options
  ts_handler :: handler_kind
  ts_sizer :: "(bytes \<Rightarrow> nat result) option"
  ts_stopping :: bool
  ts_started :: bool

text \<open>\<open>address_ok\<close> says that \<open>inet_pton\<close> accepts the address.\<close>

definition tcp_server_new :: "int \<Rightarrow> bool \<Rightarrow> nat \<Rightarrow> nat \<Rightarrow> tcp_server result" where
  "tcp_server_new port address_ok connections bytes =
     (if port < 0 \<or> port > 65535 \<or> connections = 0 \<or> bytes = 0 \<or> bytes > 64 * 1024 * 1024 + 16 \<or> \<not> address_ok
      then Inl (Invalid_argument ''Invalid server options'')
      else Inr \<lparr>ts_port = port, ts_max_connections = connections, ts_max_frame_bytes = bytes,
                ts_options = default_options\<lparr>so_output_bytes := max (so_output_bytes default_options) (bytes * 2)\<rparr>,
                ts_handler = No_handler, ts_sizer = None, ts_stopping = False, ts_started = False\<rparr>)"

definition configure :: "server_options \<Rightarrow> tcp_server \<Rightarrow> unit result \<times> tcp_server" where
  "configure options srv =
     (if so_io_threads options = 0 \<or> so_io_threads options > 256 \<or> so_workers options = 0 \<or> so_workers options > 256 \<or>
         so_queue_capacity options = 0 \<or> so_queue_bytes options = 0 \<or> so_output_bytes options < ts_max_frame_bytes srv \<or>
         so_pipeline options = 0 \<or> so_idle_timeout options \<le> 0
      then (Inl (Invalid_argument ''Invalid server resource options''), srv)
      else (Inr (), srv\<lparr>ts_options := options\<rparr>))"

definition setFrameSizer :: "(bytes \<Rightarrow> nat result) \<Rightarrow> tcp_server \<Rightarrow> tcp_server" where
  "setFrameSizer sizer srv = srv\<lparr>ts_sizer := Some sizer\<rparr>"

definition setHandler :: "tcp_server \<Rightarrow> tcp_server" where
  "setHandler srv = srv\<lparr>ts_handler := One_handler\<rparr>"

definition setBatchHandler :: "tcp_server \<Rightarrow> tcp_server" where
  "setBatchHandler srv = srv\<lparr>ts_handler := Batch_handler\<rparr>"

text \<open>The checks of \<open>start\<close> before the runtime runs.\<close>

definition server_start :: "tcp_server \<Rightarrow> unit result \<times> tcp_server" where
  "server_start srv =
     (if ts_handler srv = No_handler then (Inl (Logic_error ''Handler required''), srv)
      else if ts_started srv then (Inl (Logic_error ''Server already started''), srv)
      else (Inr (), srv\<lparr>ts_started := True\<rparr>))"

definition server_stop :: "tcp_server \<Rightarrow> tcp_server" where
  "server_stop srv = srv\<lparr>ts_stopping := True\<rparr>"

section \<open>The queue between I/O threads and workers\<close>

text \<open>
  A job carries the bytes for the handler and, in place of its completion closure, the I/O
  thread and peer it answers, the size of the frame and whether it was cut by a sizer.
\<close>

record job =
  jb_input :: bytes
  jb_io :: nat
  jb_peer :: nat
  jb_size :: nat
  jb_framed :: bool

record server_stats =
  ss_accepted :: nat
  ss_active :: nat
  ss_rejected :: nat
  ss_requests :: nat
  ss_timeouts :: nat
  ss_queued_tasks :: nat
  ss_queued_bytes :: nat
  ss_handler_us :: nat
  ss_handler_errors :: nat

record runtime =
  rt_jobs :: "job list"
  rt_queued_bytes :: nat
  rt_closing :: bool
  rt_stats :: server_stats

definition stats_new :: server_stats where
  "stats_new = \<lparr>ss_accepted = 0, ss_active = 0, ss_rejected = 0, ss_requests = 0, ss_timeouts = 0, ss_queued_tasks = 0,
     ss_queued_bytes = 0, ss_handler_us = 0, ss_handler_errors = 0\<rparr>"

definition runtime_new :: runtime where
  "runtime_new = \<lparr>rt_jobs = [], rt_queued_bytes = 0, rt_closing = False, rt_stats = stats_new\<rparr>"

definition Submit :: "tcp_server \<Rightarrow> job \<Rightarrow> runtime \<Rightarrow> bool \<times> runtime" where
  "Submit srv job rt =
     (if rt_closing rt \<or> length (rt_jobs rt) \<ge> so_queue_capacity (ts_options srv) \<or>
         length (jb_input job) > sz_sub (so_queue_bytes (ts_options srv)) (rt_queued_bytes rt)
      then (False, rt)
      else (True, rt\<lparr>rt_queued_bytes := sz_add (rt_queued_bytes rt) (length (jb_input job)),
                     rt_stats := (rt_stats rt)\<lparr>ss_queued_bytes := sz_add (ss_queued_bytes (rt_stats rt)) (length (jb_input job)),
                                               ss_queued_tasks := sz_add (ss_queued_tasks (rt_stats rt)) 1\<rparr>,
                     rt_jobs := rt_jobs rt @ [job]\<rparr>))"

fun take_jobs :: "nat \<Rightarrow> runtime \<Rightarrow> job list \<times> runtime" where
  "take_jobs 0 rt = ([], rt)"
| "take_jobs (Suc count) rt =
     (case rt_jobs rt of
        [] \<Rightarrow> ([], rt)
      | job # jobs \<Rightarrow>
          (let rt1 = rt\<lparr>rt_queued_bytes := sz_sub (rt_queued_bytes rt) (length (jb_input job)),
                        rt_stats := (rt_stats rt)\<lparr>ss_queued_bytes := sz_sub (ss_queued_bytes (rt_stats rt)) (length (jb_input job)),
                                                  ss_queued_tasks := sz_sub (ss_queued_tasks (rt_stats rt)) 1\<rparr>,
                        rt_jobs := jobs\<rparr>;
               (batch, rt2) = take_jobs count rt1
           in (job # batch, rt2)))"

text \<open>What a worker takes when the queue is not empty.\<close>

definition take_batch :: "tcp_server \<Rightarrow> runtime \<Rightarrow> job list \<times> runtime" where
  "take_batch srv rt = take_jobs (if ts_handler srv = Batch_handler then min 64 (length (rt_jobs rt)) else 1) rt"

text \<open>
  Running the handler on a batch. The two handlers are arguments; the application state and
  the microseconds the call took are theirs.
\<close>

definition run_batch ::
  "tcp_server \<Rightarrow> (bytes \<Rightarrow> 's \<Rightarrow> (bytes \<times> nat) result \<times> 's) \<Rightarrow> (bytes list \<Rightarrow> 's \<Rightarrow> reply list result \<times> 's) \<Rightarrow> nat \<Rightarrow>
   job list \<Rightarrow> 's \<Rightarrow> runtime \<Rightarrow> reply list \<times> 's \<times> runtime" where
  "run_batch srv handler batch_handler us batch s rt =
     (let (r, s') =
        (if ts_handler srv = Batch_handler
         then let (r, s') = batch_handler (map jb_input batch) s
              in (rbind r (\<lambda>replies. rbind (throw_if (length replies \<noteq> length batch) (Runtime_error ''Invalid batch reply count''))
                    (\<lambda>_. Inr replies)), s')
         else let (r, s') = handler (jb_input (hd batch)) s
              in (rbind r (\<lambda>(bytes, consumed). Inr [\<lparr>rp_consumed = consumed, rp_bytes = bytes, rp_close = False\<rparr>]), s'));
          st = rt_stats rt;
          (replies, st') =
            (case r of
               Inr replies \<Rightarrow> (replies, st)
             | Inl _ \<Rightarrow> (replicate (length batch) \<lparr>rp_consumed = 0, rp_bytes = [], rp_close = True\<rparr>,
                        st\<lparr>ss_handler_errors := sz_add (ss_handler_errors st) (length batch)\<rparr>))
      in (replies, s', rt\<lparr>rt_stats := st'\<lparr>ss_handler_us := sz_add (ss_handler_us st') us\<rparr>\<rparr>))"

section \<open>I/O threads\<close>

text \<open>The closures an I/O thread posts or arms.\<close>

datatype io_task =
  T_attach int
| T_pump nat
| T_reply nat nat bool reply
| T_idle nat
| T_shutdown
| T_nothing

record peer =
  pr_fd :: int
  pr_timer :: nat
  pr_input :: buffer
  pr_output :: "bytes list"
  pr_sent :: nat
  pr_output_bytes :: nat
  pr_pending :: nat
  pr_eof :: bool
  pr_scheduled :: bool
  pr_incomplete :: bool

record io_input =
  in_now :: nat
  in_send :: "send_result list"
  in_recv :: "recv_result list"
  in_ctl :: bool

datatype io_event = Ev_received nat bytes | Ev_submitted nat bytes | Ev_answered nat reply | Ev_sent nat bytes

record io =
  io_peers :: "nat \<rightharpoonup> peer"
  io_env :: "io_input list"
  io_failed :: bool
  io_log :: "io_event list"
  io_rt :: runtime

type_synonym io_state = "(io_task, nat, io) machine"

definition io_new :: io where
  "io_new = \<lparr>io_peers = Map.empty, io_env = [], io_failed = False, io_log = [], io_rt = runtime_new\<rparr>"

definition peer_new :: "int \<Rightarrow> peer" where
  "peer_new fd = \<lparr>pr_fd = fd, pr_timer = 0, pr_input = buffer_new, pr_output = [], pr_sent = 0, pr_output_bytes = 0, pr_pending = 0,
     pr_eof = False, pr_scheduled = False, pr_incomplete = False\<rparr>"

definition no_input :: io_input where
  "no_input = \<lparr>in_now = 0, in_send = [], in_recv = [], in_ctl = True\<rparr>"

definition put_peer :: "nat \<Rightarrow> peer \<Rightarrow> io_state \<Rightarrow> io_state" where
  "put_peer k p s = (fst s, (snd s)\<lparr>io_peers := (io_peers (snd s))(k \<mapsto> p)\<rparr>)"

definition log_event :: "io_event \<Rightarrow> io_state \<Rightarrow> io_state" where
  "log_event e s = (fst s, (snd s)\<lparr>io_log := io_log (snd s) @ [e]\<rparr>)"

definition count_stat :: "(server_stats \<Rightarrow> server_stats) \<Rightarrow> io_state \<Rightarrow> io_state" where
  "count_stat f s = (fst s, (snd s)\<lparr>io_rt := (io_rt (snd s))\<lparr>rt_stats := f (rt_stats (io_rt (snd s)))\<rparr>\<rparr>)"

definition Close :: "nat \<Rightarrow> io_state \<Rightarrow> io_state" where
  "Close k s =
     (case io_peers (snd s) k of
        None \<Rightarrow> s
      | Some p \<Rightarrow>
          count_stat (\<lambda>st. st\<lparr>ss_active := sz_sub (ss_active st) 1\<rparr>)
            (Remove k (Cancel (pr_timer p) (fst s)), (snd s)\<lparr>io_peers := (io_peers (snd s))(k := None)\<rparr>))"

definition Deadline :: "tcp_server \<Rightarrow> nat \<Rightarrow> nat \<Rightarrow> io_state \<Rightarrow> io_state" where
  "Deadline srv now k s =
     (case io_peers (snd s) k of
        None \<Rightarrow> s
      | Some p \<Rightarrow>
          (let (tid, l) = At (now + nat (so_idle_timeout (ts_options srv)) * 1000000) (T_idle k) (Cancel (pr_timer p) (fst s))
           in put_peer k (p\<lparr>pr_timer := tid\<rparr>) (l, snd s)))"

definition Schedule :: "nat \<Rightarrow> io_state \<Rightarrow> io_state" where
  "Schedule k s =
     (case io_peers (snd s) k of
        None \<Rightarrow> s
      | Some p \<Rightarrow>
          if pr_scheduled p then s else put_peer k (p\<lparr>pr_scheduled := True\<rparr>) (Post (T_pump k) (fst s), snd s))"

text \<open>\<open>Add\<close> throws out of the loop; the new peer is then gone with its descriptor.\<close>

definition Attach :: "tcp_server \<Rightarrow> io_input \<Rightarrow> int \<Rightarrow> io_state \<Rightarrow> io_state" where
  "Attach srv inp fd s =
     (case Add (in_ctl inp) fd (EPOLLIN + EPOLLRDHUP) (el_next (fst s)) (fst s) of
        (Inl _, l) \<Rightarrow> (l, (snd s)\<lparr>io_failed := True\<rparr>)
      | (Inr k, l) \<Rightarrow> Deadline srv (in_now inp) k (put_peer k (peer_new fd) (l, snd s)))"

section \<open>Pump\<close>

definition BUDGET :: nat where
  "BUDGET = 256 * 1024"

definition pipeline_limit :: "tcp_server \<Rightarrow> nat" where
  "pipeline_limit srv = (if ts_handler srv = Batch_handler \<or> ts_sizer srv = None then 1 else so_pipeline (ts_options srv))"

text \<open>The loops return what is left of the budget.\<close>

primrec send_loop :: "tcp_server \<Rightarrow> nat \<Rightarrow> nat \<Rightarrow> nat \<Rightarrow> send_result list \<Rightarrow> io_state \<Rightarrow> nat \<times> io_state" where
  "send_loop srv now k budget [] s = (budget, s)"
| "send_loop srv now k budget (r # rs) s =
     (case io_peers (snd s) k of
        None \<Rightarrow> (budget, s)
      | Some p \<Rightarrow>
          (case pr_output p of
             [] \<Rightarrow> (budget, s)
           | bytes # output \<Rightarrow>
               if budget = 0 then (budget, s)
               else (case r of
                   Sent n \<Rightarrow>
                     (let n = min n (min budget (length bytes - pr_sent p))
                      in if n = 0 then (budget, Close k s)
                         else let s1 = log_event (Ev_sent k (take n (drop (pr_sent p) bytes))) s;
                                  p1 = p\<lparr>pr_sent := sz_add (pr_sent p) n, pr_output_bytes := sz_sub (pr_output_bytes p) n\<rparr>
                              in send_loop srv now k (budget - n) rs
                                   (if pr_sent p1 = length bytes
                                    then Deadline srv now k (put_peer k (p1\<lparr>pr_output := output, pr_sent := 0\<rparr>) s1)
                                    else put_peer k p1 s1))
                 | Send_intr \<Rightarrow> send_loop srv now k budget rs s
                 | Send_again \<Rightarrow> (budget, s)
                 | Send_error \<Rightarrow> (budget, Close k s))))"

primrec recv_loop :: "tcp_server \<Rightarrow> nat \<Rightarrow> nat \<Rightarrow> recv_result list \<Rightarrow> io_state \<Rightarrow> nat \<times> io_state" where
  "recv_loop srv k budget [] s = (budget, s)"
| "recv_loop srv k budget (r # rs) s =
     (case io_peers (snd s) k of
        None \<Rightarrow> (budget, s)
      | Some p \<Rightarrow>
          if pr_eof p \<or> buf_size (pr_input p) \<ge> ts_max_frame_bytes srv \<or> budget = 0 then (budget, s)
          else (case r of
              Got bytes \<Rightarrow>
                (let bytes = take (min 16384 (min budget (ts_max_frame_bytes srv - buf_size (pr_input p)))) bytes
                 in if bytes = [] then (budget, put_peer k (p\<lparr>pr_eof := True\<rparr>) s)
                    else recv_loop srv k (budget - length bytes) rs
                           (put_peer k (p\<lparr>pr_input := buf_append bytes (pr_input p), pr_incomplete := False\<rparr>)
                             (log_event (Ev_received k bytes) s)))
            | Recv_eof \<Rightarrow> (budget, put_peer k (p\<lparr>pr_eof := True\<rparr>) s)
            | Recv_intr \<Rightarrow> recv_loop srv k budget rs s
            | Recv_again \<Rightarrow> (budget, s)
            | Recv_error \<Rightarrow> (budget, Close k s)))"

definition frame_ready :: "tcp_server \<Rightarrow> peer \<Rightarrow> bool" where
  "frame_ready srv p \<longleftrightarrow> buf_size (pr_input p) \<noteq> 0 \<and> \<not> pr_incomplete p \<and> pr_pending p < pipeline_limit srv \<and>
     pr_output_bytes p < so_output_bytes (ts_options srv) div 2"

definition submit_frame :: "tcp_server \<Rightarrow> nat \<Rightarrow> nat \<Rightarrow> nat \<Rightarrow> peer \<Rightarrow> io_state \<Rightarrow> io_state" where
  "submit_frame srv i k n p s =
     (let input = buf_copy n (pr_input p);
          framed = (ts_sizer srv \<noteq> None);
          p1 = p\<lparr>pr_input := (if framed then consume n (pr_input p) else pr_input p), pr_pending := sz_add (pr_pending p) 1\<rparr>;
          s1 = put_peer k p1 s;
          (ok, rt) = Submit srv \<lparr>jb_input = input, jb_io = i, jb_peer = k, jb_size = n, jb_framed = framed\<rparr> (io_rt (snd s1));
          s2 = (fst s1, (snd s1)\<lparr>io_rt := rt\<rparr>)
      in if ok then log_event (Ev_submitted k input) s2
         else Close k (count_stat (\<lambda>st. st\<lparr>ss_rejected := sz_add (ss_rejected st) 1\<rparr>) s2))"

text \<open>
  The first argument is 32 minus the counter \<open>frames\<close>. The result is the counter after the
  loop, which its condition increments last.
\<close>

definition next_size :: "tcp_server \<Rightarrow> peer \<Rightarrow> nat result" where
  "next_size srv p =
     rbind (case ts_sizer srv of None \<Rightarrow> Inr (buf_size (pr_input p)) | Some sizer \<Rightarrow> sizer (buf_data (pr_input p)))
       (\<lambda>n. rbind (throw_if (n > ts_max_frame_bytes srv) (Runtime_error ''Frame exceeds limit'')) (\<lambda>_. Inr n))"

primrec frame_loop :: "nat \<Rightarrow> tcp_server \<Rightarrow> nat \<Rightarrow> nat \<Rightarrow> io_state \<Rightarrow> nat \<times> io_state" where
  "frame_loop 0 srv i k s =
     (case io_peers (snd s) k of None \<Rightarrow> (32, s) | Some p \<Rightarrow> if frame_ready srv p then (33, s) else (32, s))"
| "frame_loop (Suc left) srv i k s =
     (case io_peers (snd s) k of
        None \<Rightarrow> (31 - left, s)
      | Some p \<Rightarrow>
          if \<not> frame_ready srv p then (31 - left, s)
          else (case next_size srv p of
                  Inl _ \<Rightarrow> (32 - left, Close k s)
                | Inr n \<Rightarrow>
                    if n = 0 \<or> n > buf_size (pr_input p) then (32 - left, s)
                    else frame_loop left srv i k (submit_frame srv i k n p s)))"

definition update_interest :: "io_input \<Rightarrow> nat \<Rightarrow> nat \<Rightarrow> io_state \<Rightarrow> io_state" where
  "update_interest inp k events s =
     (case Modify (in_ctl inp) k events (fst s) of
        (Inl _, l) \<Rightarrow> (l, (snd s)\<lparr>io_failed := True\<rparr>)
      | (Inr _, l) \<Rightarrow> (l, snd s))"

definition Pump :: "tcp_server \<Rightarrow> nat \<Rightarrow> nat \<Rightarrow> io_input \<Rightarrow> io_state \<Rightarrow> io_state" where
  "Pump srv i k inp s =
     (let limit = pipeline_limit srv; half = so_output_bytes (ts_options srv) div 2;
          (budget, s1) = send_loop srv (in_now inp) k BUDGET (in_send inp) s
      in case io_peers (snd s1) k of
          None \<Rightarrow> s1
        | Some p1 \<Rightarrow>
            (let s2 = (if budget = 0 \<and> pr_output p1 \<noteq> [] then Schedule k s1 else s1);
                 can_read = (pr_pending p1 < limit \<and> pr_output_bytes p1 < half);
                 (budget, s3) = recv_loop srv k BUDGET (if can_read then in_recv inp else []) s2
             in case io_peers (snd s3) k of
                 None \<Rightarrow> s3
               | Some _ \<Rightarrow>
                   (let s4 = (if budget = 0 then Schedule k s3 else s3);
                        (frames, s5) = frame_loop 32 srv i k s4
                    in case io_peers (snd s5) k of
                        None \<Rightarrow> s5
                      | Some p5 \<Rightarrow>
                          (let s6 = (if frames \<ge> 32 \<and> pr_pending p5 < limit then Schedule k s5 else s5)
                           in if pr_eof p5 \<and> pr_pending p5 = 0 \<and> pr_output p5 = [] then Close k s6
                              else update_interest inp k
                                     (EPOLLRDHUP +
                                      (if \<not> pr_eof p5 \<and> pr_pending p5 < limit \<and> pr_output_bytes p5 < half then EPOLLIN else 0) +
                                      (if pr_output p5 \<noteq> [] then EPOLLOUT else 0)) s6))))"

section \<open>Closures\<close>

definition refuse_reply :: "tcp_server \<Rightarrow> nat \<Rightarrow> bool \<Rightarrow> peer \<Rightarrow> reply \<Rightarrow> bool" where
  "refuse_reply srv n framed p reply \<longleftrightarrow>
     rp_close reply \<or> rp_consumed reply > n \<or> (framed \<and> rp_consumed reply \<noteq> n) \<or>
     length (rp_bytes reply) > ts_max_frame_bytes srv \<or>
     length (rp_bytes reply) > sz_sub (so_output_bytes (ts_options srv)) (pr_output_bytes p) \<or>
     (rp_consumed reply = 0 \<and> (rp_bytes reply \<noteq> [] \<or> n = ts_max_frame_bytes srv))"

definition accept_reply :: "bool \<Rightarrow> reply \<Rightarrow> peer \<Rightarrow> peer" where
  "accept_reply framed reply p =
     (let p1 = (if framed then p else p\<lparr>pr_input := consume (rp_consumed reply) (pr_input p), pr_incomplete := (rp_consumed reply = 0)\<rparr>)
      in if rp_bytes reply = [] then p1
         else p1\<lparr>pr_output_bytes := sz_add (pr_output_bytes p1) (length (rp_bytes reply)), pr_output := pr_output p1 @ [rp_bytes reply]\<rparr>)"

definition on_reply :: "tcp_server \<Rightarrow> nat \<Rightarrow> nat \<Rightarrow> nat \<Rightarrow> bool \<Rightarrow> reply \<Rightarrow> io_input \<Rightarrow> io_state \<Rightarrow> io_state" where
  "on_reply srv i k n framed reply inp s =
     (case io_peers (snd s) k of
        None \<Rightarrow> s
      | Some p \<Rightarrow>
          (let p1 = p\<lparr>pr_pending := sz_sub (pr_pending p) 1\<rparr>
           in if refuse_reply srv n framed p1 reply then Close k (put_peer k p1 s)
              else let s1 = log_event (Ev_answered k reply) (put_peer k (accept_reply framed reply p1) s)
                   in Pump srv i k inp
                        (if rp_consumed reply \<noteq> 0
                         then count_stat (\<lambda>st. st\<lparr>ss_requests := sz_add (ss_requests st) 1\<rparr>) s1 else s1)))"

definition on_pump :: "tcp_server \<Rightarrow> nat \<Rightarrow> nat \<Rightarrow> io_input \<Rightarrow> io_state \<Rightarrow> io_state" where
  "on_pump srv i k inp s =
     (case io_peers (snd s) k of
        None \<Rightarrow> s
      | Some p \<Rightarrow> Pump srv i k inp (put_peer k (p\<lparr>pr_scheduled := False\<rparr>) s))"

definition on_idle :: "nat \<Rightarrow> io_state \<Rightarrow> io_state" where
  "on_idle k s =
     (case io_peers (snd s) k of
        None \<Rightarrow> s
      | Some _ \<Rightarrow> Close k (count_stat (\<lambda>st. st\<lparr>ss_timeouts := sz_add (ss_timeouts st) 1\<rparr>) s))"

definition on_event :: "tcp_server \<Rightarrow> nat \<Rightarrow> nat \<Rightarrow> nat \<Rightarrow> io_input \<Rightarrow> io_state \<Rightarrow> io_state" where
  "on_event srv i k events inp s =
     (case io_peers (snd s) k of
        None \<Rightarrow> s
      | Some _ \<Rightarrow> if bit events 3 then Close k s else Pump srv i k inp s)"

text \<open>The peers that are open when the thread is shut down, by token.\<close>

definition shutdown :: "io_state \<Rightarrow> io_state" where
  "shutdown s =
     (let s1 = fold Close (filter (\<lambda>k. io_peers (snd s) k \<noteq> None) [0..<el_next (fst s)]) s
      in (loop_Stop T_nothing (fst s1), snd s1))"

definition next_input :: "io_state \<Rightarrow> io_input \<times> io_state" where
  "next_input s =
     (case io_env (snd s) of
        [] \<Rightarrow> (no_input, s)
      | inp # rest \<Rightarrow> (inp, (fst s, (snd s)\<lparr>io_env := rest\<rparr>)))"

definition exec_task :: "tcp_server \<Rightarrow> nat \<Rightarrow> io_task \<Rightarrow> io_state \<Rightarrow> io_state" where
  "exec_task srv i t s =
     (let (inp, s) = next_input s
      in if io_failed (snd s) then s
         else case t of
             T_attach fd \<Rightarrow> Attach srv inp fd s
           | T_pump k \<Rightarrow> on_pump srv i k inp s
           | T_reply k n framed reply \<Rightarrow> on_reply srv i k n framed reply inp s
           | T_idle k \<Rightarrow> on_idle k s
           | T_shutdown \<Rightarrow> shutdown s
           | T_nothing \<Rightarrow> s)"

definition exec_callback :: "tcp_server \<Rightarrow> nat \<Rightarrow> nat \<Rightarrow> nat \<Rightarrow> io_state \<Rightarrow> io_state" where
  "exec_callback srv i k events s =
     (let (inp, s) = next_input s in if io_failed (snd s) then s else on_event srv i k events inp s)"

definition io_turn :: "tcp_server \<Rightarrow> nat \<Rightarrow> (nat \<times> nat) list \<Rightarrow> nat list \<Rightarrow> io_state \<Rightarrow> io_state" where
  "io_turn srv i = run_turn (exec_task srv i) (exec_callback srv i)"

section \<open>Configuration and queue invariant\<close>

text \<open>
  What the constructor and \<open>configure\<close> establish; sizes are values of \<open>size_t\<close>.
\<close>

definition server_ok :: "tcp_server \<Rightarrow> bool" where
  "server_ok srv \<longleftrightarrow> 0 < ts_max_frame_bytes srv \<and> ts_max_frame_bytes srv \<le> 64 * 1024 * 1024 + 16 \<and>
     ts_max_frame_bytes srv \<le> so_output_bytes (ts_options srv) \<and> so_output_bytes (ts_options srv) < sz_mod \<and>
     so_queue_bytes (ts_options srv) < sz_mod \<and> so_queue_capacity (ts_options srv) < sz_mod \<and>
     0 < so_pipeline (ts_options srv) \<and> so_pipeline (ts_options srv) < sz_mod"

definition options_size :: "server_options \<Rightarrow> bool" where
  "options_size opts \<longleftrightarrow> so_output_bytes opts < sz_mod \<and> so_queue_bytes opts < sz_mod \<and> so_queue_capacity opts < sz_mod \<and>
     so_pipeline opts < sz_mod"

lemma tcp_server_new_ok: "tcp_server_new port a c b = Inr srv \<Longrightarrow> server_ok srv"
  by (auto simp: tcp_server_new_def server_ok_def default_options_def sz_mod_def split: if_splits)

lemma configure_ok: "server_ok srv \<Longrightarrow> options_size opts \<Longrightarrow> server_ok (snd (configure opts srv))"
  by (simp add: configure_def server_ok_def options_size_def)

abbreviation job_bytes :: "job list \<Rightarrow> nat" where
  "job_bytes jobs \<equiv> sum_list (map (\<lambda>j. length (jb_input j)) jobs)"

definition queue_inv :: "tcp_server \<Rightarrow> runtime \<Rightarrow> bool" where
  "queue_inv srv rt \<longleftrightarrow>
     length (rt_jobs rt) \<le> so_queue_capacity (ts_options srv) \<and> job_bytes (rt_jobs rt) \<le> so_queue_bytes (ts_options srv) \<and>
     rt_queued_bytes rt = job_bytes (rt_jobs rt) \<and> ss_queued_bytes (rt_stats rt) = job_bytes (rt_jobs rt) \<and>
     ss_queued_tasks (rt_stats rt) = length (rt_jobs rt)"

lemma queue_inv_new: "server_ok srv \<Longrightarrow> queue_inv srv runtime_new"
  by (simp add: queue_inv_def runtime_new_def stats_new_def)

lemma Submit_exact:
  assumes "server_ok srv" and "queue_inv srv rt"
  shows "fst (Submit srv j rt) \<longleftrightarrow> \<not> rt_closing rt \<and> length (rt_jobs rt) < so_queue_capacity (ts_options srv) \<and>
      job_bytes (rt_jobs rt) + length (jb_input j) \<le> so_queue_bytes (ts_options srv)"
    and "queue_inv srv (snd (Submit srv j rt))"
    and "rt_jobs (snd (Submit srv j rt)) = (if fst (Submit srv j rt) then rt_jobs rt @ [j] else rt_jobs rt)"
proof -
  have s: "sz_sub (so_queue_bytes (ts_options srv)) (rt_queued_bytes rt) = so_queue_bytes (ts_options srv) - job_bytes (rt_jobs rt)"
    using assms by (simp add: sz_sub_exact server_ok_def queue_inv_def)
  then show 1: "fst (Submit srv j rt) \<longleftrightarrow> \<not> rt_closing rt \<and> length (rt_jobs rt) < so_queue_capacity (ts_options srv) \<and>
      job_bytes (rt_jobs rt) + length (jb_input j) \<le> so_queue_bytes (ts_options srv)"
    using assms(2) by (auto simp: Submit_def queue_inv_def)
  show "rt_jobs (snd (Submit srv j rt)) = (if fst (Submit srv j rt) then rt_jobs rt @ [j] else rt_jobs rt)"
    by (simp add: Submit_def)
  show "queue_inv srv (snd (Submit srv j rt))"
  proof (cases "fst (Submit srv j rt)")
    case True
    with 1 have "length (rt_jobs rt) + 1 < sz_mod" "job_bytes (rt_jobs rt) + length (jb_input j) < sz_mod"
      using assms(1) by (auto simp: server_ok_def)
    with True 1 assms(2) show ?thesis
      by (auto simp: Submit_def queue_inv_def sz_add_exact)
  next
    case False
    then have "snd (Submit srv j rt) = rt"
      by (auto simp: Submit_def split: if_splits)
    with assms(2) show ?thesis
      by simp
  qed
qed

lemma take_jobs_inv:
  "server_ok srv \<Longrightarrow> queue_inv srv rt \<Longrightarrow>
     queue_inv srv (snd (take_jobs n rt)) \<and> fst (take_jobs n rt) = take n (rt_jobs rt) \<and>
     rt_jobs (snd (take_jobs n rt)) = drop n (rt_jobs rt)"
proof (induction n arbitrary: rt)
  case (Suc n)
  show ?case
  proof (cases "rt_jobs rt")
    case (Cons j js)
    have "job_bytes (rt_jobs rt) < sz_mod" and "length (rt_jobs rt) < sz_mod"
      using Suc.prems by (auto simp: queue_inv_def server_ok_def)
    with Cons have "sz_sub (job_bytes (rt_jobs rt)) (length (jb_input j)) = job_bytes js" "sz_sub (length (rt_jobs rt)) 1 = length js"
      by (simp_all add: sz_sub_exact)
    moreover define rt1 where "rt1 = rt\<lparr>rt_queued_bytes := sz_sub (rt_queued_bytes rt) (length (jb_input j)),
        rt_stats := (rt_stats rt)\<lparr>ss_queued_bytes := sz_sub (ss_queued_bytes (rt_stats rt)) (length (jb_input j)),
          ss_queued_tasks := sz_sub (ss_queued_tasks (rt_stats rt)) 1\<rparr>, rt_jobs := js\<rparr>"
    ultimately have "queue_inv srv rt1"
      using Suc.prems Cons by (simp add: queue_inv_def)
    from Suc.IH [OF Suc.prems(1) this] Cons show ?thesis
      by (simp only: take_jobs.simps list.case rt1_def [symmetric] Let_def split_beta) (simp add: rt1_def)
  qed (use Suc.prems in simp)
qed simp

end
