(* ===== verification/Server_Streams.thy ===== *)
theory Server_Streams
  imports Tcp_Server "HOL-Library.Multiset"
begin

text \<open>
  What the I/O threads of the server keep in every turn: the byte streams of a connection and
  the limits of its buffers. The history of a thread is projected to one peer; the invariant
  relates each open peer to its history, its watch and its idle timer, and every operation of
  the thread keeps it.
\<close>

section \<open>Histories\<close>

fun ev_peer :: "io_event \<Rightarrow> nat" where
  "ev_peer (Ev_received k b) = k"
| "ev_peer (Ev_submitted k b) = k"
| "ev_peer (Ev_answered k r) = k"
| "ev_peer (Ev_sent k b) = k"

fun rx_bytes :: "nat \<Rightarrow> io_event list \<Rightarrow> bytes" where
  "rx_bytes k [] = []"
| "rx_bytes k (e # es) = (case e of Ev_received k' b \<Rightarrow> if k' = k then b else [] | _ \<Rightarrow> []) @ rx_bytes k es"

fun rx_frames :: "nat \<Rightarrow> io_event list \<Rightarrow> bytes list" where
  "rx_frames k [] = []"
| "rx_frames k (e # es) = (case e of Ev_submitted k' b \<Rightarrow> if k' = k then [b] else [] | _ \<Rightarrow> []) @ rx_frames k es"

fun tx_replies :: "nat \<Rightarrow> io_event list \<Rightarrow> reply list" where
  "tx_replies k [] = []"
| "tx_replies k (e # es) = (case e of Ev_answered k' r \<Rightarrow> if k' = k then [r] else [] | _ \<Rightarrow> []) @ tx_replies k es"

fun tx_bytes :: "nat \<Rightarrow> io_event list \<Rightarrow> bytes" where
  "tx_bytes k [] = []"
| "tx_bytes k (e # es) = (case e of Ev_sent k' b \<Rightarrow> if k' = k then b else [] | _ \<Rightarrow> []) @ tx_bytes k es"

lemma history_append [simp]:
  "rx_bytes k (es @ es') = rx_bytes k es @ rx_bytes k es'" "rx_frames k (es @ es') = rx_frames k es @ rx_frames k es'"
  "tx_replies k (es @ es') = tx_replies k es @ tx_replies k es'" "tx_bytes k (es @ es') = tx_bytes k es @ tx_bytes k es'"
  by (induction es) auto

lemma history_other:
  "\<forall>e \<in> set es. ev_peer e \<noteq> k \<Longrightarrow> rx_bytes k es = [] \<and> rx_frames k es = [] \<and> tx_replies k es = [] \<and> tx_bytes k es = []"
  by (induction es) (auto split: io_event.splits)

section \<open>Invariant\<close>

text \<open>
  A peer against its history. \<open>rx\<close> is what was read from the socket, \<open>fs\<close> the frames handed to
  the queue, \<open>rs\<close> the replies accepted for output and \<open>tx\<close> what was written to the socket.
\<close>

definition in_inv :: "tcp_server \<Rightarrow> bytes \<Rightarrow> bytes list \<Rightarrow> buffer \<Rightarrow> bool" where
  "in_inv srv rx fs input \<longleftrightarrow>
     buffer_inv input \<and> length (buf_data input) \<le> ts_max_frame_bytes srv \<and>
     (\<forall>sizer. ts_sizer srv = Some sizer \<longrightarrow> concat fs @ buf_data input = rx \<and>
        (frame_sizer sizer \<longrightarrow> fst (frames sizer rx) = fs @ fst (frames sizer (buf_data input))))"

definition out_inv :: "tcp_server \<Rightarrow> reply list \<Rightarrow> bytes \<Rightarrow> bytes list \<Rightarrow> nat \<Rightarrow> nat \<Rightarrow> bool" where
  "out_inv srv rs tx output done_bytes left_bytes \<longleftrightarrow>
     (\<forall>b \<in> set output. b \<noteq> [] \<and> length b \<le> ts_max_frame_bytes srv) \<and>
     (if output = [] then done_bytes = 0 else done_bytes < length (hd output)) \<and>
     left_bytes + done_bytes = length (concat output) \<and> left_bytes \<le> so_output_bytes (ts_options srv) \<and>
     tx @ drop done_bytes (concat output) = concat (map rp_bytes rs)"

definition peer_inv :: "tcp_server \<Rightarrow> bytes \<Rightarrow> bytes list \<Rightarrow> reply list \<Rightarrow> bytes \<Rightarrow> peer \<Rightarrow> bool" where
  "peer_inv srv rx fs rs tx p \<longleftrightarrow>
     in_inv srv rx fs (pr_input p) \<and> out_inv srv rs tx (pr_output p) (pr_sent p) (pr_output_bytes p) \<and>
     pr_pending p \<le> pipeline_limit srv \<and> pr_pending p + length rs = length fs \<and> (\<forall>r \<in> set rs. \<not> rp_close r)"

lemma peer_inv_flags [simp]:
  "peer_inv srv rx fs rs tx (p\<lparr>pr_timer := t\<rparr>) = peer_inv srv rx fs rs tx p"
  "peer_inv srv rx fs rs tx (p\<lparr>pr_scheduled := b\<rparr>) = peer_inv srv rx fs rs tx p"
  "peer_inv srv rx fs rs tx (p\<lparr>pr_eof := b\<rparr>) = peer_inv srv rx fs rs tx p"
  "peer_inv srv rx fs rs tx (p\<lparr>pr_incomplete := b\<rparr>) = peer_inv srv rx fs rs tx p"
  by (simp_all add: peer_inv_def)

abbreviation log_inv_at :: "tcp_server \<Rightarrow> io_event list \<Rightarrow> nat \<Rightarrow> peer \<Rightarrow> bool" where
  "log_inv_at srv es k p \<equiv> peer_inv srv (rx_bytes k es) (rx_frames k es) (tx_replies k es) (tx_bytes k es) p"

text \<open>
  The thread: the watches are those of the open peers, every open peer has exactly its idle
  timer armed, and no event of the history belongs to a token that is still to be given out.
\<close>

definition io_inv :: "tcp_server \<Rightarrow> io_state \<Rightarrow> bool" where
  "io_inv srv s \<longleftrightarrow>
     loop_inv (fst s) \<and>
     (\<forall>k. el_watches (fst s) k = map_option (\<lambda>p. (pr_fd p, k)) (io_peers (snd s) k)) \<and>
     (\<forall>k p. io_peers (snd s) k = Some p \<longrightarrow> (\<exists>d. (d, pr_timer p, T_idle k) \<in> set (el_timers (fst s)))) \<and>
     (\<forall>d n t. (d, n, t) \<in> set (el_timers (fst s)) \<longrightarrow> (\<exists>k p. t = T_idle k \<and> io_peers (snd s) k = Some p \<and> pr_timer p = n)) \<and>
     (\<forall>e \<in> set (io_log (snd s)). ev_peer e < el_next (fst s)) \<and>
     (\<forall>k p. io_peers (snd s) k = Some p \<longrightarrow> log_inv_at srv (io_log (snd s)) k p) \<and>
     queue_inv srv (io_rt (snd s))"

lemma io_invI:
  assumes "loop_inv l" and "\<And>k. el_watches l k = map_option (\<lambda>p. (pr_fd p, k)) (io_peers a k)"
    and "\<And>k p. io_peers a k = Some p \<Longrightarrow> \<exists>d. (d, pr_timer p, T_idle k) \<in> set (el_timers l)"
    and "\<And>d n t. (d, n, t) \<in> set (el_timers l) \<Longrightarrow> \<exists>k p. t = T_idle k \<and> io_peers a k = Some p \<and> pr_timer p = n"
    and "\<And>e. e \<in> set (io_log a) \<Longrightarrow> ev_peer e < el_next l"
    and "\<And>k p. io_peers a k = Some p \<Longrightarrow> log_inv_at srv (io_log a) k p" and "queue_inv srv (io_rt a)"
  shows "io_inv srv (l, a)"
  using assms unfolding io_inv_def by simp

lemma io_invD:
  assumes "io_inv srv (l, a)"
  shows "loop_inv l" "el_watches l k = map_option (\<lambda>p. (pr_fd p, k)) (io_peers a k)"
    and "io_peers a k = Some p \<Longrightarrow> \<exists>d. (d, pr_timer p, T_idle k) \<in> set (el_timers l)"
    and "(d, n, t) \<in> set (el_timers l) \<Longrightarrow> \<exists>k p. t = T_idle k \<and> io_peers a k = Some p \<and> pr_timer p = n"
    and "e \<in> set (io_log a) \<Longrightarrow> ev_peer e < el_next l"
    and "io_peers a k = Some p \<Longrightarrow> log_inv_at srv (io_log a) k p" and "queue_inv srv (io_rt a)"
  using assms unfolding io_inv_def by simp_all

lemma io_inv_loop_inv: "io_inv srv s \<Longrightarrow> loop_inv (fst s)"
  by (simp add: io_inv_def)

lemma io_inv_new: "server_ok srv \<Longrightarrow> io_inv srv (loop_new, io_new)"
  by (rule io_invI) (simp_all add: loop_inv_new queue_inv_new io_new_def, simp_all add: loop_new_def)

lemma io_inv_peer_less: "io_inv srv (l, a) \<Longrightarrow> io_peers a k = Some p \<Longrightarrow> 0 < k \<and> k < el_next l"
  using io_invD(1,2) [of srv l a] by (fastforce simp: loop_inv_def watches_inv_def)

text \<open>An open peer is replaced, possibly with an event of its own.\<close>

lemma io_inv_put:
  assumes "io_inv srv s" and "io_peers (snd s) k = Some p" and "pr_fd p' = pr_fd p" and "pr_timer p' = pr_timer p"
    and "\<forall>e \<in> set es. ev_peer e = k" and "log_inv_at srv (io_log (snd s) @ es) k p'"
  shows "io_inv srv (fst s, (snd s)\<lparr>io_peers := (io_peers (snd s))(k \<mapsto> p'), io_log := io_log (snd s) @ es\<rparr>)"
proof -
  obtain l a where s: "s = (l, a)"
    by fastforce
  note D = io_invD [OF assms(1) [unfolded s]]
  have k: "k < el_next l"
    using io_inv_peer_less assms(1,2) s by auto
  have "io_inv srv (l, a\<lparr>io_peers := (io_peers a)(k \<mapsto> p'), io_log := io_log a @ es\<rparr>)"
  proof (rule io_invI)
    fix k' q
    assume "io_peers (a\<lparr>io_peers := (io_peers a)(k \<mapsto> p'), io_log := io_log a @ es\<rparr>) k' = Some q"
    then have q: "if k' = k then q = p' else io_peers a k' = Some q"
      by (auto split: if_splits)
    show "\<exists>d. (d, pr_timer q, T_idle k') \<in> set (el_timers l)"
      using q D(3) assms(2,4) s by (auto split: if_splits)
    show "log_inv_at srv (io_log (a\<lparr>io_peers := (io_peers a)(k \<mapsto> p'), io_log := io_log a @ es\<rparr>)) k' q"
    proof (cases "k' = k")
      case True
      with q assms(6) s show ?thesis
        by simp
    next
      case False
      with assms(5) history_other [of es k'] q D(6) show ?thesis
        by auto
    qed
  next
    fix d n t
    assume "(d, n, t) \<in> set (el_timers l)"
    then obtain k' q where "t = T_idle k'" "io_peers a k' = Some q" "pr_timer q = n"
      using D(4) by blast
    then show "\<exists>k' q. t = T_idle k' \<and> io_peers (a\<lparr>io_peers := (io_peers a)(k \<mapsto> p'), io_log := io_log a @ es\<rparr>) k' = Some q \<and> pr_timer q = n"
      using assms(2,4) s by (cases "k' = k") auto
  qed (use D assms(2,3,5) s k in \<open>auto split: if_splits\<close>)
  then show ?thesis
    by (simp add: s)
qed

lemma put_peer_inv:
  assumes "io_inv srv s" and "io_peers (snd s) k = Some p" and "pr_fd p' = pr_fd p" and "pr_timer p' = pr_timer p"
    and "log_inv_at srv (io_log (snd s)) k p'"
  shows "io_inv srv (put_peer k p' s)"
  using io_inv_put [OF assms(1-4), of "[]"] assms(5) by (simp add: put_peer_def)

lemma put_log_inv:
  assumes "io_inv srv s" and "io_peers (snd s) k = Some p" and "pr_fd p' = pr_fd p" and "pr_timer p' = pr_timer p"
    and "ev_peer e = k" and "log_inv_at srv (io_log (snd s) @ [e]) k p'"
  shows "io_inv srv (put_peer k p' (log_event e s))" and "io_inv srv (log_event e (put_peer k p' s))"
proof -
  have swap: "a\<lparr>io_log := x, io_peers := y\<rparr> = a\<lparr>io_peers := y, io_log := x\<rparr>" for a :: io and x y
    by simp
  show "io_inv srv (put_peer k p' (log_event e s))" and "io_inv srv (log_event e (put_peer k p' s))"
    using io_inv_put [OF assms(1-4), of "[e]"] assms(5,6) by (simp_all add: put_peer_def log_event_def swap)
qed

section \<open>Closing, deadlines and scheduling\<close>

lemma timer_of:
  assumes "io_inv srv (l, a)" and "io_peers a k = Some p" and "(d, n, t) \<in> set (el_timers l)"
  shows "n = pr_timer p \<longleftrightarrow> t = T_idle k"
proof -
  obtain d' where d': "(d', pr_timer p, T_idle k) \<in> set (el_timers l)"
    using io_invD(3) [OF assms(1,2)] by blast
  obtain k' p' where t: "t = T_idle k'" "io_peers a k' = Some p'" "pr_timer p' = n"
    using io_invD(4) [OF assms(1,3)] by blast
  show ?thesis
  proof
    assume "n = pr_timer p"
    then show "t = T_idle k"
      using timer_unique [OF io_invD(1) [OF assms(1)] assms(3)] d' by blast
  next
    assume "t = T_idle k"
    then show "n = pr_timer p"
      using t assms(2) by simp
  qed
qed

lemma timers_of_other:
  assumes "io_inv srv (l, a)" and "io_peers a k = Some p" and "io_peers a k' = Some p'" and "k' \<noteq> k"
  shows "pr_timer p' \<noteq> pr_timer p"
proof -
  obtain d where "(d, pr_timer p', T_idle k') \<in> set (el_timers l)"
    using io_invD(3) [OF assms(1,3)] by blast
  from timer_of [OF assms(1,2) this] assms(4) show ?thesis
    by auto
qed

lemma count_stat_inv:
  assumes "io_inv srv s" and "\<And>st. ss_queued_bytes (f st) = ss_queued_bytes st \<and> ss_queued_tasks (f st) = ss_queued_tasks st"
  shows "io_inv srv (count_stat f s)"
  using assms unfolding io_inv_def count_stat_def queue_inv_def by simp

lemma Close_inv:
  assumes "io_inv srv s"
  shows "io_inv srv (Close k s)"
proof (cases "io_peers (snd s) k")
  case (Some p)
  obtain l a where s: "s = (l, a)"
    by fastforce
  note inv = assms [unfolded s] and k = Some [unfolded s, simplified]
  note D = io_invD [OF inv] and C = Cancel_timers [OF io_invD(1) [OF inv], of "pr_timer p"]
  have "io_inv srv (Remove k (Cancel (pr_timer p) l), a\<lparr>io_peers := (io_peers a)(k := None)\<rparr>)"
  proof (rule io_invI)
    fix k' q
    assume "io_peers (a\<lparr>io_peers := (io_peers a)(k := None)\<rparr>) k' = Some q"
    then have q: "k' \<noteq> k" "io_peers a k' = Some q"
      by (auto split: if_splits)
    then show "\<exists>d. (d, pr_timer q, T_idle k') \<in> set (el_timers (Remove k (Cancel (pr_timer p) l)))"
      using D(3) [of k' q] timers_of_other [OF inv k q(2,1)] by (auto simp: C)
  next
    fix d n t
    assume "(d, n, t) \<in> set (el_timers (Remove k (Cancel (pr_timer p) l)))"
    then have t: "(d, n, t) \<in> set (el_timers l)" "n \<noteq> pr_timer p"
      by (auto simp: C)
    then obtain k' q where q: "t = T_idle k'" "io_peers a k' = Some q" "pr_timer q = n"
      using D(4) by blast
    with t(2) k have "k' \<noteq> k"
      by auto
    with q show "\<exists>k' q. t = T_idle k' \<and> io_peers (a\<lparr>io_peers := (io_peers a)(k := None)\<rparr>) k' = Some q \<and> pr_timer q = n"
      by (intro exI [of _ k'] exI [of _ q]) simp
  qed (use D C in \<open>auto simp: Remove_inv Cancel_inv split: if_splits\<close>)
  with Some s show ?thesis
    by (simp add: Close_def count_stat_inv)
qed (use assms in \<open>simp add: Close_def\<close>)

lemma Deadline_inv:
  assumes "io_inv srv s"
  shows "io_inv srv (Deadline srv now k s)"
proof (cases "io_peers (snd s) k")
  case (Some p)
  obtain l a where s: "s = (l, a)"
    by fastforce
  note inv = assms [unfolded s] and k = Some [unfolded s, simplified]
  note D = io_invD [OF inv] and C = Cancel_timers [OF io_invD(1) [OF inv], of "pr_timer p"]
  let ?d = "now + nat (so_idle_timeout (ts_options srv)) * 1000000"
  let ?l = "snd (At ?d (T_idle k) (Cancel (pr_timer p) l))" and ?a = "a\<lparr>io_peers := (io_peers a)(k \<mapsto> p\<lparr>pr_timer := el_next l\<rparr>)\<rparr>"
  have "io_inv srv (?l, ?a)"
  proof (rule io_invI)
    fix k' q
    assume q: "io_peers ?a k' = Some q"
    show "\<exists>d. (d, pr_timer q, T_idle k') \<in> set (el_timers ?l)"
    proof (cases "k' = k")
      case False
      with q D(3) [of k' q] timers_of_other [OF inv k, of k' q] show ?thesis
        by (auto simp: C)
    qed (use q C in auto)
    show "log_inv_at srv (io_log ?a) k' q"
      using q D(6) [of k' q] D(6) [OF k] by (cases "k' = k") auto
  next
    fix d n t
    assume t: "(d, n, t) \<in> set (el_timers ?l)"
    show "\<exists>k' q. t = T_idle k' \<and> io_peers ?a k' = Some q \<and> pr_timer q = n"
    proof (cases "(d, n, t) = (?d, el_next l, T_idle k)")
      case False
      with t have t': "(d, n, t) \<in> set (el_timers l)" "n \<noteq> pr_timer p"
        by (auto simp: C)
      then obtain k' q where q: "t = T_idle k'" "io_peers a k' = Some q" "pr_timer q = n"
        using D(4) by blast
      with t'(2) k have "k' \<noteq> k"
        by auto
      with q show ?thesis
        by (intro exI [of _ k'] exI [of _ q]) simp
    qed auto
  next
    show "loop_inv ?l"
      by (intro At_inv Cancel_inv D(1))
    show "el_watches ?l k' = map_option (\<lambda>p. (pr_fd p, k')) (io_peers ?a k')" for k'
      using D(2) [of k'] k C(2) by auto
    show "ev_peer e < el_next ?l" if "e \<in> set (io_log ?a)" for e
      using D(5) [of e] that C(3) by simp
    show "queue_inv srv (io_rt ?a)"
      using D(7) by simp
  qed
  then show ?thesis
    using Some s C(3) by (simp add: Deadline_def put_peer_def split_beta)
qed (use assms in \<open>simp add: Deadline_def\<close>)

lemma io_inv_loop:
  assumes "io_inv srv s" and "loop_inv l" and "el_watches l = el_watches (fst s)" and "el_timers l = el_timers (fst s)"
    and "el_next l = el_next (fst s)"
  shows "io_inv srv (l, snd s)"
  using assms unfolding io_inv_def by simp

lemma Schedule_inv:
  assumes "io_inv srv s"
  shows "io_inv srv (Schedule k s)"
proof (cases "io_peers (snd s) k")
  case (Some p)
  have "io_inv srv (Post (T_pump k) (fst s), snd s)"
    using assms by (rule io_inv_loop) (simp_all add: Post_inv io_inv_loop_inv [OF assms])
  moreover have "log_inv_at srv (io_log (snd s)) k (p\<lparr>pr_scheduled := True\<rparr>)"
    using assms Some io_invD(6) [of srv "fst s" "snd s" k p] by simp
  ultimately have "io_inv srv (put_peer k (p\<lparr>pr_scheduled := True\<rparr>) (Post (T_pump k) (fst s), snd s))"
    using Some by (intro put_peer_inv) auto
  with Some assms show ?thesis
    by (simp add: Schedule_def)
qed (use assms in \<open>simp add: Schedule_def\<close>)

section \<open>The streams of a peer\<close>

lemma out_inv_sent:
  assumes "out_inv srv rs tx (b # out) m left" and "n \<le> length b - m"
  shows "m + n < length b \<Longrightarrow> out_inv srv rs (tx @ take n (drop m b)) (b # out) (m + n) (left - n)"
    and "m + n = length b \<Longrightarrow> out_inv srv rs (tx @ take n (drop m b)) out 0 (left - n)"
proof -
  have m: "m < length b" "left + m = length b + length (concat out)"
    using assms(1) by (simp_all add: out_inv_def)
  have "take n (drop m b) @ drop (m + n) b = drop m b"
    by (simp only: drop_plus append_take_drop_id)
  then have tx: "tx @ take n (drop m b) @ drop (m + n) b @ concat out = concat (map rp_bytes rs)"
    using assms(1) m(1) by (simp add: out_inv_def) (metis append.assoc)
  show "m + n < length b \<Longrightarrow> out_inv srv rs (tx @ take n (drop m b)) (b # out) (m + n) (left - n)"
    using assms m tx by (auto simp: out_inv_def)
  show "m + n = length b \<Longrightarrow> out_inv srv rs (tx @ take n (drop m b)) out 0 (left - n)"
    using assms m tx by (cases out) (auto simp: out_inv_def)
qed

lemma out_inv_push:
  assumes "out_inv srv rs tx out m left" and "rp_bytes r \<noteq> []" and "length (rp_bytes r) \<le> ts_max_frame_bytes srv"
    and "left + length (rp_bytes r) \<le> so_output_bytes (ts_options srv)"
  shows "out_inv srv (rs @ [r]) tx (out @ [rp_bytes r]) m (left + length (rp_bytes r))"
proof -
  have "m \<le> length (concat out)"
    using assms(1) by (auto simp: out_inv_def)
  moreover have "hd (out @ [rp_bytes r]) = (if out = [] then rp_bytes r else hd out)"
    by (cases out) simp_all
  ultimately show ?thesis
    using assms by (auto simp: out_inv_def split: if_splits)
qed

lemma out_inv_empty: "out_inv srv rs tx out m left \<Longrightarrow> rp_bytes r = [] \<Longrightarrow> out_inv srv (rs @ [r]) tx out m left"
  by (simp add: out_inv_def)

lemma peer_inv_sent:
  assumes "server_ok srv" and "peer_inv srv rx fs rs tx p" and "pr_output p = b # out" and "n \<le> length b - pr_sent p"
  defines "p1 \<equiv> p\<lparr>pr_sent := sz_add (pr_sent p) n, pr_output_bytes := sz_sub (pr_output_bytes p) n\<rparr>"
  shows "peer_inv srv rx fs rs (tx @ take n (drop (pr_sent p) b))
      (if pr_sent p1 = length b then p1\<lparr>pr_output := out, pr_sent := 0\<rparr> else p1)"
proof -
  have o: "out_inv srv rs tx (b # out) (pr_sent p) (pr_output_bytes p)"
    using assms(2,3) by (simp add: peer_inv_def)
  then have "length b < sz_mod" "pr_sent p < length b" "pr_output_bytes p + pr_sent p = length b + length (concat out)"
    "pr_output_bytes p < sz_mod"
    using assms(1) by (auto simp: out_inv_def server_ok_def sz_mod_def)
  then have "sz_add (pr_sent p) n = pr_sent p + n" "sz_sub (pr_output_bytes p) n = pr_output_bytes p - n" "pr_sent p + n \<le> length b"
    using assms(4) by (auto simp: sz_add_exact sz_sub_exact)
  then show ?thesis
    using assms(2,3) out_inv_sent [OF o assms(4)] by (auto simp: peer_inv_def p1_def)
qed

lemma frames_split:
  assumes "frame_sizer sizer" and "fst (frames sizer rx) = fs @ fst (frames sizer d)" and "concat fs @ d = rx"
  shows "fst (frames sizer (rx @ b)) = fs @ fst (frames sizer (d @ b))"
proof -
  have "concat (fst (frames sizer rx)) @ snd (frames sizer rx) = rx" "concat (fst (frames sizer d)) @ snd (frames sizer d) = d"
    by (rule frames_concat)+
  then have "concat fs @ concat (fst (frames sizer d)) @ snd (frames sizer rx) =
      concat fs @ concat (fst (frames sizer d)) @ snd (frames sizer d)"
    using assms(2,3) by simp
  then have "snd (frames sizer rx) = snd (frames sizer d)"
    by simp
  then show ?thesis
    using assms(2) frame_sizer.frames_append [OF assms(1), of rx b] frame_sizer.frames_append [OF assms(1), of d b]
    by (simp add: split_beta Let_def)
qed

lemma peer_inv_received:
  assumes "server_ok srv" and "peer_inv srv rx fs rs tx p" and "length (buf_data (pr_input p)) + length b \<le> ts_max_frame_bytes srv"
  shows "peer_inv srv (rx @ b) fs rs tx (p\<lparr>pr_input := buf_append b (pr_input p)\<rparr>)"
proof -
  have "buffer_inv (pr_input p)" and "length (buf_data (pr_input p)) + length b \<le> BUFFER_LIMIT"
    using assms by (auto simp: peer_inv_def in_inv_def server_ok_def BUFFER_LIMIT_def)
  then have "buffer_inv (buf_append b (pr_input p))" "buf_data (buf_append b (pr_input p)) = buf_data (pr_input p) @ b"
    using bq.append_law by blast+
  then have "in_inv srv (rx @ b) fs (buf_append b (pr_input p))"
    using assms(2,3) frames_split [of _ rx fs "buf_data (pr_input p)" b] by (simp add: peer_inv_def in_inv_def)
  then show ?thesis
    using assms(2) by (simp add: peer_inv_def)
qed

lemma peer_inv_submitted:
  assumes "server_ok srv" and "peer_inv srv rx fs rs tx p" and "ts_sizer srv = Some sizer" and "sizer (buf_data (pr_input p)) = Inr n"
    and "0 < n" and "n \<le> length (buf_data (pr_input p))" and "pr_pending p < pipeline_limit srv"
  shows "peer_inv srv rx (fs @ [buf_copy n (pr_input p)]) rs tx
    (p\<lparr>pr_input := consume n (pr_input p), pr_pending := sz_add (pr_pending p) 1\<rparr>)"
proof -
  have inv: "buffer_inv (pr_input p)"
    using assms(2) by (simp add: peer_inv_def in_inv_def)
  note c = bq.consume_law [OF inv assms(6)] bq.copy_law [OF assms(6)]
  have "pipeline_limit srv < sz_mod"
    using assms(1) by (auto simp: pipeline_limit_def server_ok_def sz_mod_def)
  then have "sz_add (pr_pending p) 1 = pr_pending p + 1"
    using assms(7) by (intro sz_add_exact) simp
  moreover have "frames sizer (buf_data (pr_input p)) =
      (take n (buf_data (pr_input p)) # fst (frames sizer (drop n (buf_data (pr_input p)))), snd (frames sizer (drop n (buf_data (pr_input p)))))"
    using assms(4-6) by (subst frames.simps) (simp add: split_beta)
  then have "in_inv srv rx (fs @ [buf_copy n (pr_input p)]) (consume n (pr_input p))"
    using assms(2,3) c by (auto simp: peer_inv_def in_inv_def)
  ultimately show ?thesis
    using assms(2,7) by (simp add: peer_inv_def)
qed

lemma peer_inv_answered:
  assumes "server_ok srv" and "peer_inv srv rx fs rs tx p" and "0 < pr_pending p"
    and "\<not> refuse_reply srv n True (p\<lparr>pr_pending := sz_sub (pr_pending p) 1\<rparr>) r"
  shows "peer_inv srv rx fs (rs @ [r]) tx (accept_reply True r (p\<lparr>pr_pending := sz_sub (pr_pending p) 1\<rparr>))"
proof -
  have o: "out_inv srv rs tx (pr_output p) (pr_sent p) (pr_output_bytes p)"
    using assms(2) by (simp add: peer_inv_def)
  have "pr_pending p < sz_mod" "pr_output_bytes p \<le> so_output_bytes (ts_options srv)" "so_output_bytes (ts_options srv) < sz_mod"
    using assms(1,2) o by (auto simp: peer_inv_def out_inv_def server_ok_def pipeline_limit_def sz_mod_def split: if_splits)
  moreover from this have "length (rp_bytes r) \<le> so_output_bytes (ts_options srv) - pr_output_bytes p" "length (rp_bytes r) \<le> ts_max_frame_bytes srv"
    using assms(4) by (auto simp: refuse_reply_def sz_sub_exact)
  moreover from calculation have "sz_sub (pr_pending p) 1 = pr_pending p - 1"
    "sz_add (pr_output_bytes p) (length (rp_bytes r)) = pr_output_bytes p + length (rp_bytes r)"
    using assms(3) by (auto simp: sz_sub_exact sz_add_exact)
  moreover have "\<not> rp_close r"
    using assms(4) by (simp add: refuse_reply_def)
  ultimately show ?thesis
    using assms(2,3) out_inv_push [OF o, of r] out_inv_empty [OF o, of r]
    by (cases "rp_bytes r = []") (auto simp: peer_inv_def accept_reply_def)
qed

section \<open>Accounting\<close>

lemma put_peer_peers [simp]: "io_peers (snd (put_peer k p s)) = (io_peers (snd s))(k \<mapsto> p)"
  by (simp add: put_peer_def)

lemma log_event_peers [simp]: "io_peers (snd (log_event e s)) = io_peers (snd s)" "io_log (snd (log_event e s)) = io_log (snd s) @ [e]"
  by (simp_all add: log_event_def)

text \<open>
  The requests of peer \<open>k\<close> of thread \<open>i\<close> and their replies. A frame is queued, taken by a worker,
  answered, and its reply is posted to the thread. A \<open>duty\<close> says what the workers have done for
  the peers of the thread: the frames they took and the replies they gave, in the order in which
  they posted them. With one worker the frames are taken in the order in which they were
  submitted. The posted replies are in the task list of the loop or among the tasks \<open>R\<close> that the
  current turn has taken and not yet run.
\<close>

record duty =
  du_frames :: "nat \<Rightarrow> bytes list"
  du_replies :: "nat \<Rightarrow> reply list"
  du_single :: bool

fun reply_of :: "nat \<Rightarrow> io_task \<Rightarrow> reply list" where
  "reply_of k (T_reply k' n framed r) = (if k' = k then [r] else [])"
| "reply_of k _ = []"

abbreviation replies_to :: "nat \<Rightarrow> io_task list \<Rightarrow> reply list" where
  "replies_to k ts \<equiv> concat (map (reply_of k) ts)"

definition queued :: "nat \<Rightarrow> nat \<Rightarrow> job list \<Rightarrow> bytes list" where
  "queued i k jobs = map jb_input (filter (\<lambda>j. jb_io j = i \<and> jb_peer j = k) jobs)"

definition same_frames :: "bool \<Rightarrow> bytes list \<Rightarrow> bytes list \<Rightarrow> bool" where
  "same_frames single xs ys \<longleftrightarrow> (if single then xs = ys else mset xs = mset ys)"

fun framed_task :: "io_task \<Rightarrow> bool" where
  "framed_task (T_reply k n framed r) \<longleftrightarrow> framed"
| "framed_task _ \<longleftrightarrow> True"

definition flow_at :: "nat \<Rightarrow> duty \<Rightarrow> io_task list \<Rightarrow> io_state \<Rightarrow> nat \<Rightarrow> bool" where
  "flow_at i du R s k \<longleftrightarrow>
     same_frames (du_single du) (du_frames du k @ queued i k (rt_jobs (io_rt (snd s)))) (rx_frames k (io_log (snd s))) \<and>
     du_replies du k = tx_replies k (io_log (snd s)) @ replies_to k (R @ el_tasks (fst s))"

definition flow_none :: "nat \<Rightarrow> duty \<Rightarrow> io_task list \<Rightarrow> io_state \<Rightarrow> nat \<Rightarrow> bool" where
  "flow_none i du R s k \<longleftrightarrow> du_frames du k = [] \<and> queued i k (rt_jobs (io_rt (snd s))) = [] \<and> du_replies du k = [] \<and>
     replies_to k (R @ el_tasks (fst s)) = []"

definition flow_inv :: "nat \<Rightarrow> duty \<Rightarrow> io_task list \<Rightarrow> io_state \<Rightarrow> bool" where
  "flow_inv i du R s \<longleftrightarrow>
     (\<forall>k p. io_peers (snd s) k = Some p \<longrightarrow> flow_at i du R s k) \<and>
     (\<forall>k. el_next (fst s) \<le> k \<longrightarrow> flow_none i du R s k) \<and>
     (\<forall>k. length (du_replies du k) \<le> length (du_frames du k)) \<and>
     (\<forall>t \<in> set (el_tasks (fst s)) \<union> set R. framed_task t)"

lemma same_frames_snoc: "same_frames single xs ys \<Longrightarrow> same_frames single (xs @ [b]) (ys @ [b])"
  by (simp add: same_frames_def)

lemma same_frames_length: "same_frames single xs ys \<Longrightarrow> length xs = length ys"
  by (auto simp: same_frames_def dest: mset_eq_length split: if_splits)

lemma queued_append [simp]: "queued i k (js @ js') = queued i k js @ queued i k js'"
  by (simp add: queued_def)

lemma flow_inv_mono:
  assumes "flow_inv i du R s" and "\<And>k p. io_peers (snd s') k = Some p \<Longrightarrow> io_peers (snd s) k \<noteq> None"
    and "rt_jobs (io_rt (snd s')) = rt_jobs (io_rt (snd s))"
    and "\<And>k. rx_frames k (io_log (snd s')) = rx_frames k (io_log (snd s))" and "\<And>k. tx_replies k (io_log (snd s')) = tx_replies k (io_log (snd s))"
    and "el_tasks (fst s') = el_tasks (fst s) @ ts" and "\<And>k. replies_to k ts = []" and "\<And>t. t \<in> set ts \<Longrightarrow> framed_task t"
    and "el_next (fst s) \<le> el_next (fst s')"
  shows "flow_inv i du R s'"
  using assms unfolding flow_inv_def flow_at_def flow_none_def by fastforce

text \<open>
  Connections: every open peer and every accepted descriptor that is still to be attached is
  counted in \<open>active_\<close>, together with the \<open>others\<close> of the other threads. The thread only
  appends jobs of its own, with frames cut by the sizer, to the jobs \<open>base\<close> it found.
\<close>

fun attaches :: "io_task \<Rightarrow> bool" where
  "attaches (T_attach fd) \<longleftrightarrow> True"
| "attaches _ \<longleftrightarrow> False"

definition acct :: "nat \<Rightarrow> job list \<Rightarrow> nat \<Rightarrow> nat \<Rightarrow> io_task list \<Rightarrow> io_state \<Rightarrow> bool" where
  "acct i base others bound R s \<longleftrightarrow>
     finite (dom (io_peers (snd s))) \<and>
     others + card (dom (io_peers (snd s))) + length (filter attaches (el_tasks (fst s))) + length (filter attaches R) \<le>
       ss_active (rt_stats (io_rt (snd s))) \<and>
     ss_active (rt_stats (io_rt (snd s))) \<le> bound \<and>
     (\<exists>js. rt_jobs (io_rt (snd s)) = base @ js \<and> (\<forall>j \<in> set js. jb_io j = i \<and> jb_framed j))"

definition live :: "tcp_server \<Rightarrow> nat \<Rightarrow> duty \<Rightarrow> job list \<Rightarrow> nat \<Rightarrow> nat \<Rightarrow> io_task list \<Rightarrow> io_state \<Rightarrow> bool" where
  "live srv i du base others bound R s \<longleftrightarrow> io_inv srv s \<and> flow_inv i du R s \<and> acct i base others bound R s"

lemma flow_inv_put: "flow_inv i du R s \<Longrightarrow> io_peers (snd s) k = Some p \<Longrightarrow> flow_inv i du R (put_peer k p' s)"
  by (rule flow_inv_mono [where s = s and ts = "[]"]) (auto simp: put_peer_def split: if_splits)

lemma acct_put: "acct i base others bound R s \<Longrightarrow> io_peers (snd s) k = Some p \<Longrightarrow> acct i base others bound R (put_peer k p' s)"
  by (simp add: acct_def put_peer_def insert_absorb domI)

fun is_transfer :: "io_event \<Rightarrow> bool" where
  "is_transfer (Ev_received k b) \<longleftrightarrow> True"
| "is_transfer (Ev_sent k b) \<longleftrightarrow> True"
| "is_transfer _ \<longleftrightarrow> False"

lemma flow_inv_transfer: "flow_inv i du R s \<Longrightarrow> is_transfer e \<Longrightarrow> flow_inv i du R (log_event e s)"
  by (rule flow_inv_mono [where s = s and ts = "[]"]; cases e) (auto simp: log_event_def)

lemma acct_log [simp]: "acct i base others bound R (log_event e s) = acct i base others bound R s"
  by (simp add: acct_def log_event_def)

lemma live_put:
  assumes "live srv i du base others bound R s" and "io_peers (snd s) k = Some p" and "pr_fd p' = pr_fd p" and "pr_timer p' = pr_timer p"
    and "log_inv_at srv (io_log (snd s)) k p'"
  shows "live srv i du base others bound R (put_peer k p' s)"
  using assms by (simp add: live_def put_peer_inv flow_inv_put acct_put)

lemma live_put_log:
  assumes "live srv i du base others bound R s" and "io_peers (snd s) k = Some p" and "pr_fd p' = pr_fd p" and "pr_timer p' = pr_timer p"
    and "ev_peer e = k" and "is_transfer e" and "log_inv_at srv (io_log (snd s) @ [e]) k p'"
  shows "live srv i du base others bound R (put_peer k p' (log_event e s))"
proof -
  have "io_inv srv (put_peer k p' (log_event e s))"
    using assms by (intro put_log_inv) (simp_all add: live_def)
  moreover have "flow_inv i du R (put_peer k p' (log_event e s))" "acct i base others bound R (put_peer k p' (log_event e s))"
    using assms(1,2,6) by (simp_all add: live_def flow_inv_put [where p = p] acct_put [where p = p] flow_inv_transfer)
  ultimately show ?thesis
    by (simp add: live_def)
qed

lemma count_stat_live:
  assumes "live srv i du base others bound R s"
    and "\<And>st. ss_queued_bytes (f st) = ss_queued_bytes st \<and> ss_queued_tasks (f st) = ss_queued_tasks st \<and> ss_active (f st) = ss_active st"
  shows "live srv i du base others bound R (count_stat f s)"
proof -
  have "io_inv srv (count_stat f s)"
    using assms by (intro count_stat_inv) (simp_all add: live_def)
  moreover have "flow_inv i du R (count_stat f s)"
    by (rule flow_inv_mono [where s = s and ts = "[]"]) (use assms(1) in \<open>auto simp: live_def count_stat_def\<close>)
  ultimately show ?thesis
    using assms by (simp add: live_def acct_def count_stat_def)
qed

lemma Close_live:
  assumes "live srv i du base others bound R s" and "bound < sz_mod"
  shows "live srv i du base others bound R (Close k s)"
proof (cases "io_peers (snd s) k")
  case (Some p)
  have a: "finite (dom (io_peers (snd s)))" "others + card (dom (io_peers (snd s))) + length (filter attaches (el_tasks (fst s))) +
      length (filter attaches R) \<le> ss_active (rt_stats (io_rt (snd s)))" "ss_active (rt_stats (io_rt (snd s))) \<le> bound"
    using assms(1) by (simp_all add: live_def acct_def)
  have "card (dom ((io_peers (snd s))(k := None))) = card (dom (io_peers (snd s))) - 1" "0 < card (dom (io_peers (snd s)))"
    using Some a(1) card_Diff_singleton [of k "dom (io_peers (snd s))"] by (auto simp: card_gt_0_iff domI)
  moreover from this a have "sz_sub (ss_active (rt_stats (io_rt (snd s)))) 1 = ss_active (rt_stats (io_rt (snd s))) - 1"
    using assms(2) by (intro sz_sub_exact) auto
  moreover have t: "el_tasks (Remove k (Cancel n l)) = el_tasks l" "el_next (Remove k (Cancel n l)) = el_next l" for n and l :: "(io_task, nat) event_loop"
    by (simp_all add: Remove_def Cancel_def split: option.splits)
  moreover have "flow_inv i du R (Close k s)"
    by (rule flow_inv_mono [where s = s and ts = "[]"]) (use assms(1) Some t in \<open>auto simp: live_def Close_def count_stat_def split: if_splits\<close>)
  ultimately show ?thesis
    using assms(1) Close_inv [of srv s k] Some a
    by (auto simp: live_def acct_def Close_def count_stat_def)
qed (use assms in \<open>simp add: Close_def\<close>)

lemma Deadline_live:
  assumes "live srv i du base others bound R s"
  shows "live srv i du base others bound R (Deadline srv now k s)"
proof (cases "io_peers (snd s) k")
  case (Some p)
  have t: "el_tasks (snd (At d t (Cancel n l))) = el_tasks l" "el_next (snd (At d t (Cancel n l))) = Suc (el_next l)"
    for d t n and l :: "(io_task, nat) event_loop"
    by (simp_all add: At_def Cancel_def Let_def split: option.splits)
  have "flow_inv i du R (Deadline srv now k s)"
    by (rule flow_inv_mono [where s = s and ts = "[]"])
      (use assms Some t in \<open>auto simp: live_def Deadline_def put_peer_def split_beta split: if_splits\<close>)
  then show ?thesis
    using assms Deadline_inv [of srv s now k] Some t
    by (auto simp: live_def acct_def Deadline_def put_peer_def split_beta insert_absorb domI)
qed (use assms in \<open>simp add: Deadline_def\<close>)

lemma Schedule_live:
  assumes "live srv i du base others bound R s"
  shows "live srv i du base others bound R (Schedule k s)"
proof -
  have "\<exists>ts. el_tasks (fst (Schedule k s)) = el_tasks (fst s) @ ts \<and> set ts \<subseteq> {T_pump k}"
    by (auto simp: Schedule_def Post_def put_peer_def split: option.splits)
  then obtain ts where ts: "el_tasks (fst (Schedule k s)) = el_tasks (fst s) @ ts" "set ts \<subseteq> {T_pump k}"
    by blast
  have "flow_inv i du R (Schedule k s)"
    by (rule flow_inv_mono [where s = s, OF _ _ _ _ _ ts(1)])
      (use assms ts(2) in \<open>auto simp: live_def Schedule_def put_peer_def split: option.splits if_splits\<close>)
  then show ?thesis
    using assms Schedule_inv [of srv s k]
    by (auto simp: live_def acct_def Schedule_def put_peer_def Post_def insert_absorb domI split: option.splits)
qed

section \<open>Pump\<close>

lemma live_peer: "live srv i du base others bound R s \<Longrightarrow> io_peers (snd s) k = Some p \<Longrightarrow> log_inv_at srv (io_log (snd s)) k p"
  using io_invD(6) [of srv "fst s" "snd s" k p] by (simp add: live_def)

lemma send_one_live:
  assumes "server_ok srv" and "live srv i du base others bound R s" and "io_peers (snd s) k = Some p" and "pr_output p = b # out"
    and "n \<le> length b - pr_sent p"
  defines "p1 \<equiv> p\<lparr>pr_sent := sz_add (pr_sent p) n, pr_output_bytes := sz_sub (pr_output_bytes p) n\<rparr>"
  defines "s1 \<equiv> log_event (Ev_sent k (take n (drop (pr_sent p) b))) s"
  shows "live srv i du base others bound R
    (if pr_sent p1 = length b then Deadline srv now k (put_peer k (p1\<lparr>pr_output := out, pr_sent := 0\<rparr>) s1) else put_peer k p1 s1)"
proof -
  note inv = peer_inv_sent [OF assms(1) live_peer [OF assms(2,3)] assms(4,5), folded p1_def]
  show ?thesis
  proof (cases "pr_sent p1 = length b")
    case True
    then have "live srv i du base others bound R (put_peer k (p1\<lparr>pr_output := out, pr_sent := 0\<rparr>) s1)"
      unfolding s1_def using inv assms(2,3) by (intro live_put_log) (simp_all add: p1_def)
    with True show ?thesis
      by (simp add: Deadline_live)
  next
    case False
    then have "live srv i du base others bound R (put_peer k p1 s1)"
      unfolding s1_def using inv assms(2,3) by (intro live_put_log) (simp_all add: p1_def)
    with False show ?thesis
      by simp
  qed
qed

lemma send_loop_live:
  assumes "server_ok srv" and "bound < sz_mod"
  shows "live srv i du base others bound R s \<Longrightarrow> live srv i du base others bound R (snd (send_loop srv now k budget rs s))"
proof (induction rs arbitrary: budget s)
  case (Cons r rs)
  show ?case
  proof (cases "io_peers (snd s) k")
    case (Some p)
    show ?thesis
    proof (cases "pr_output p")
      case (Cons b out)
      show ?thesis
      proof (cases r)
        case (Sent m)
        let ?n = "min m (min budget (length b - pr_sent p))"
        have "live srv i du base others bound R (snd (send_loop srv now k (budget - ?n) rs
          (if sz_add (pr_sent p) ?n = length b
           then Deadline srv now k (put_peer k (p\<lparr>pr_sent := sz_add (pr_sent p) ?n, pr_output_bytes := sz_sub (pr_output_bytes p) ?n,
               pr_output := out, pr_sent := 0\<rparr>) (log_event (Ev_sent k (take ?n (drop (pr_sent p) b))) s))
           else put_peer k (p\<lparr>pr_sent := sz_add (pr_sent p) ?n, pr_output_bytes := sz_sub (pr_output_bytes p) ?n\<rparr>)
               (log_event (Ev_sent k (take ?n (drop (pr_sent p) b))) s))))"
          using send_one_live [OF assms(1) Cons.prems Some \<open>pr_output p = b # out\<close>, of ?n now] by (intro Cons.IH) simp
        then show ?thesis
          using Cons.prems assms(2) Some \<open>pr_output p = b # out\<close> Sent by (simp add: Let_def Close_live)
      qed (use Cons.prems Cons.IH assms(2) Some \<open>pr_output p = b # out\<close> in \<open>simp_all add: Close_live\<close>)
    qed (use Cons.prems Some in simp)
  qed (use Cons.prems in simp)
qed simp

lemma recv_loop_live:
  assumes "server_ok srv" and "bound < sz_mod"
  shows "live srv i du base others bound R s \<Longrightarrow> live srv i du base others bound R (snd (recv_loop srv k budget rs s))"
proof (induction rs arbitrary: budget s)
  case (Cons r rs)
  show ?case
  proof (cases "io_peers (snd s) k")
    case (Some p)
    note inv = live_peer [OF Cons.prems Some]
    have eof: "live srv i du base others bound R (put_peer k (p\<lparr>pr_eof := True\<rparr>) s)"
      using Cons.prems Some inv by (intro live_put) simp_all
    have sz: "buf_size (pr_input p) = length (buf_data (pr_input p))"
      using inv by (simp add: peer_inv_def in_inv_def buf_size_exact)
    show ?thesis
    proof (cases "pr_eof p \<or> buf_size (pr_input p) \<ge> ts_max_frame_bytes srv \<or> budget = 0")
      case False
      show ?thesis
      proof (cases r)
        case (Got b)
        let ?b = "take (min 16384 (min budget (ts_max_frame_bytes srv - buf_size (pr_input p)))) b"
        have "length (buf_data (pr_input p)) + length ?b \<le> ts_max_frame_bytes srv"
          using False sz by auto
        from peer_inv_received [OF assms(1) inv this]
        have "live srv i du base others bound R (put_peer k (p\<lparr>pr_input := buf_append ?b (pr_input p), pr_incomplete := False\<rparr>)
            (log_event (Ev_received k ?b) s))"
          using Cons.prems Some by (intro live_put_log) simp_all
        with Cons.IH eof Some False Got show ?thesis
          by (simp add: Let_def)
      qed (use Cons.prems Cons.IH assms(2) eof Some False in \<open>simp_all add: Close_live\<close>)
    qed (use Cons.prems Some in simp)
  qed (use Cons.prems in simp)
qed simp

lemma Close_put:
  "io_peers (snd s) k = Some p \<Longrightarrow> pr_timer p' = pr_timer p \<Longrightarrow> Close k (put_peer k p' s) = Close k s"
  by (simp add: Close_def put_peer_def count_stat_def)

lemma Submit_refused: "fst (Submit srv j rt) \<or> snd (Submit srv j rt) = rt"
  by (auto simp: Submit_def)

text \<open>A job of this thread is appended together with its event.\<close>

lemma flow_inv_submit:
  assumes "flow_inv i du R s" and "io_peers (snd s) k = Some p" and "k < el_next (fst s)" and "jb_io j = i" and "jb_peer j = k"
    and "fst s' = fst s" and "io_peers (snd s') = (io_peers (snd s))(k \<mapsto> p')" and "io_log (snd s') = io_log (snd s) @ [Ev_submitted k (jb_input j)]"
    and "rt_jobs (io_rt (snd s')) = rt_jobs (io_rt (snd s)) @ [j]"
  shows "flow_inv i du R s'"
proof -
  have "queued i k' [j] = (if k' = k then [jb_input j] else [])" for k'
    using assms(4,5) by (simp add: queued_def)
  with assms(1-3) show ?thesis
    using same_frames_snoc [of "du_single du" "du_frames du k @ queued i k (rt_jobs (io_rt (snd s)))"]
    by (auto simp: flow_inv_def flow_at_def flow_none_def assms(6-9))
qed

lemma submit_frame_live:
  assumes "server_ok srv" and "bound < sz_mod" and "live srv i du base others bound R s" and "io_peers (snd s) k = Some p"
    and "ts_sizer srv = Some sizer" and "sizer (buf_data (pr_input p)) = Inr n" and "0 < n" and "n \<le> buf_size (pr_input p)"
    and "pr_pending p < pipeline_limit srv"
  shows "live srv i du base others bound R (submit_frame srv i k n p s)"
proof -
  note inv = live_peer [OF assms(3,4)]
  have len: "n \<le> length (buf_data (pr_input p))"
    using inv assms(8) by (simp add: peer_inv_def in_inv_def buf_size_exact)
  let ?p = "p\<lparr>pr_input := consume n (pr_input p), pr_pending := sz_add (pr_pending p) 1\<rparr>"
  let ?j = "\<lparr>jb_input = buf_copy n (pr_input p), jb_io = i, jb_peer = k, jb_size = n, jb_framed = True\<rparr>"
  let ?r = "Submit srv ?j (io_rt (snd s))"
  have q: "queue_inv srv (io_rt (snd s))"
    using assms(3) by (simp add: live_def io_inv_def)
  note sub = Submit_exact [OF assms(1) q, of ?j]
  note new = peer_inv_submitted [OF assms(1) inv assms(5-7) len assms(9)]
  show ?thesis
  proof (cases "fst ?r")
    case True
    let ?s = "log_event (Ev_submitted k (buf_copy n (pr_input p))) (put_peer k ?p s)"
    have "io_inv srv ?s"
      using assms(3,4) new by (intro put_log_inv(2)) (simp_all add: live_def)
    then have "io_inv srv (fst ?s, (snd ?s)\<lparr>io_rt := snd ?r\<rparr>)"
      using sub(2) by (simp add: io_inv_def)
    moreover have "flow_inv i du R (fst ?s, (snd ?s)\<lparr>io_rt := snd ?r\<rparr>)"
      by (rule flow_inv_submit [where s = s and k = k and p = p and j = ?j and p' = ?p])
        (use assms(3,4) sub(3) True io_inv_peer_less [of srv "fst s" "snd s" k p] in \<open>simp_all add: live_def put_peer_def log_event_def\<close>)
    moreover have "ss_active (rt_stats (snd ?r)) = ss_active (rt_stats (io_rt (snd s)))"
      by (simp add: Submit_def)
    then have "acct i base others bound R (fst ?s, (snd ?s)\<lparr>io_rt := snd ?r\<rparr>)"
      using assms(3,4) sub(3) True
      by (auto simp: live_def acct_def put_peer_def log_event_def insert_absorb domI)
    moreover have "submit_frame srv i k n p s = (fst ?s, (snd ?s)\<lparr>io_rt := snd ?r\<rparr>)"
      using True assms(5) by (cases "snd s") (simp add: submit_frame_def Let_def split_beta put_peer_def log_event_def)
    ultimately show ?thesis
      by (simp add: live_def)
  next
    case False
    then have "snd ?r = io_rt (snd s)"
      using Submit_refused by blast
    then have "submit_frame srv i k n p s = Close k (count_stat (\<lambda>st. st\<lparr>ss_rejected := sz_add (ss_rejected st) 1\<rparr>) (put_peer k ?p s))"
      using False assms(5) by (simp add: submit_frame_def Let_def split_beta put_peer_def)
    also have "\<dots> = Close k (put_peer k ?p (count_stat (\<lambda>st. st\<lparr>ss_rejected := sz_add (ss_rejected st) 1\<rparr>) s))"
      by (cases "snd s") (simp add: count_stat_def put_peer_def)
    also have "\<dots> = Close k (count_stat (\<lambda>st. st\<lparr>ss_rejected := sz_add (ss_rejected st) 1\<rparr>) s)"
      using assms(4) by (intro Close_put [where p = p]) (simp_all add: count_stat_def)
    finally show ?thesis
      using assms(2,3) by (simp add: Close_live count_stat_live)
  qed
qed

lemma frame_loop_live:
  assumes "server_ok srv" and "bound < sz_mod" and "ts_sizer srv = Some sizer"
  shows "live srv i du base others bound R s \<Longrightarrow> live srv i du base others bound R (snd (frame_loop left srv i k s))"
proof (induction left arbitrary: s)
  case 0
  then show ?case
    by (simp split: option.splits)
next
  case (Suc left)
  show ?case
  proof (cases "io_peers (snd s) k")
    case (Some p)
    show ?thesis
    proof (cases "frame_ready srv p")
      case True
      show ?thesis
      proof (cases "next_size srv p")
        case (Inl e)
        with Some True Suc.prems assms(2) show ?thesis
          by (simp add: Close_live)
      next
        case (Inr n)
        then have "sizer (buf_data (pr_input p)) = Inr n"
          using assms(3) by (simp add: next_size_def)
        moreover have "pr_pending p < pipeline_limit srv"
          using True by (simp add: frame_ready_def)
        ultimately have "0 < n \<Longrightarrow> n \<le> buf_size (pr_input p) \<Longrightarrow> live srv i du base others bound R (submit_frame srv i k n p s)"
          using submit_frame_live [OF assms(1,2) Suc.prems Some assms(3)] by blast
        with Suc Some True Inr show ?thesis
          by auto
      qed
    qed (use Suc.prems Some in simp)
  qed (use Suc.prems in simp)
qed

lemma update_interest_live:
  assumes "live srv i du base others bound R s"
  shows "live srv i du base others bound R (update_interest inp k ev s)"
proof -
  obtain r l where m: "Modify (in_ctl inp) k ev (fst s) = (r, l)"
    by fastforce
  have f: "el_watches l = el_watches (fst s)" "el_timers l = el_timers (fst s)" "el_next l = el_next (fst s)"
    "el_tasks l = el_tasks (fst s)"
    using m by (auto simp: Modify_def split: option.splits if_splits)
  have "loop_inv l"
    using assms io_inv_loop_inv [of srv s] Modify_inv [of "fst s" "in_ctl inp" k ev] m by (simp add: live_def)
  with f have "io_inv srv (l, snd s)"
    using assms by (intro io_inv_loop) (simp_all add: live_def)
  with f have "live srv i du base others bound R (l, snd s)" and "live srv i du base others bound R (l, (snd s)\<lparr>io_failed := True\<rparr>)"
    using assms by (simp_all add: live_def flow_inv_def flow_at_def flow_none_def acct_def io_inv_def)
  with m show ?thesis
    by (cases r) (simp_all add: update_interest_def)
qed

lemma Pump_keeps:
  assumes "\<And>budget rs s. K s \<Longrightarrow> K (snd (send_loop srv (in_now inp) k budget rs s))"
    and "\<And>budget rs s. K s \<Longrightarrow> K (snd (recv_loop srv k budget rs s))"
    and "\<And>n s. K s \<Longrightarrow> K (snd (frame_loop n srv i k s))" and "\<And>s. K s \<Longrightarrow> K (Schedule k s)"
    and "\<And>s. K s \<Longrightarrow> K (Close k s)" and "\<And>ev s. K s \<Longrightarrow> K (update_interest inp k ev s)" and "K s"
  shows "K (Pump srv i k inp s)"
proof -
  obtain b1 s1 where e1: "send_loop srv (in_now inp) k BUDGET (in_send inp) s = (b1, s1)"
    by (metis surj_pair)
  then have k1: "K s1"
    using assms(1) [OF assms(7)] by (metis snd_conv)
  show ?thesis
  proof (cases "io_peers (snd s1) k")
    case None
    with e1 k1 show ?thesis
      by (simp add: Pump_def)
  next
    case (Some p1)
    define rs where "rs = (if pr_pending p1 < pipeline_limit srv \<and> pr_output_bytes p1 < so_output_bytes (ts_options srv) div 2 then in_recv inp else [])"
    define s2 where "s2 = (if b1 = 0 \<and> pr_output p1 \<noteq> [] then Schedule k s1 else s1)"
    obtain b3 s3 where e3: "recv_loop srv k BUDGET rs s2 = (b3, s3)"
      by (metis surj_pair)
    have k3: "K s3"
      using assms(2) [of s2 BUDGET rs] assms(4) [of s1] e3 k1 by (simp add: s2_def split: if_splits)
    show ?thesis
    proof (cases "io_peers (snd s3) k")
      case None
      with Some e1 e3 k3 show ?thesis
        by (simp add: Pump_def rs_def s2_def)
    next
      case (Some p3)
      define s4 where "s4 = (if b3 = 0 then Schedule k s3 else s3)"
      obtain f s5 where e5: "frame_loop 32 srv i k s4 = (f, s5)"
        by (metis surj_pair)
      have k5: "K s5"
        using assms(3) [of s4 32] assms(4) [of s3] e5 k3 by (simp add: s4_def split: if_splits)
      note red = \<open>io_peers (snd s1) k = Some p1\<close> Some e1 e3 e5
      show ?thesis
        using red k5 assms(4) [OF k5] assms(5,6)
        by (cases "io_peers (snd s5) k") (simp_all add: Pump_def rs_def s2_def s4_def Let_def)
    qed
  qed
qed

lemma Pump_live:
  assumes "server_ok srv" and "bound < sz_mod" and "ts_sizer srv = Some sizer" and "live srv i du base others bound R s"
  shows "live srv i du base others bound R (Pump srv i k inp s)"
  using send_loop_live [OF assms(1,2)] recv_loop_live [OF assms(1,2)] frame_loop_live [OF assms(1-3)] Schedule_live
    Close_live [OF _ assms(2)] update_interest_live assms(4)
  by (rule Pump_keeps)

end
