(* ===== verification/Server_Turns.thy ===== *)
theory Server_Turns
  imports Server_Streams
begin

text \<open>
  The closures and turns of an I/O thread of the server (\<open>src/src/tcp_server.cpp\<close>). The invariant
  of \<open>Server_Streams\<close> is kept by every task, callback and timer, and so by every turn of the
  thread's event loop, until an epoll call fails and ends the thread; the accounting of connections
  and of the job queue is kept even then.
\<close>

section \<open>Tasks\<close>

lemma acct_Cons: "acct i base others bound (t # R) s \<Longrightarrow> acct i base others bound R s"
  by (simp add: acct_def split: if_splits)

lemma put_log_loop [simp]: "fst (put_peer k p s) = fst s" "fst (log_event e s) = fst s" "io_rt (snd (put_peer k p s)) = io_rt (snd s)"
  "io_rt (snd (log_event e s)) = io_rt (snd s)" "io_log (snd (put_peer k p s)) = io_log (snd s)"
  by (simp_all add: put_peer_def log_event_def)

lemma live_drop:
  assumes "live srv i du base others bound (t # R) s" and "\<And>k. reply_of k t \<noteq> [] \<Longrightarrow> io_peers (snd s) k = None"
  shows "live srv i du base others bound R s"
  using assms unfolding live_def flow_inv_def flow_at_def flow_none_def acct_def by (fastforce split: if_splits)

lemma reply_pending:
  assumes "flow_inv i du (T_reply k n framed r # R) s" and "io_peers (snd s) k = Some p" and "log_inv_at srv (io_log (snd s)) k p"
  shows "framed" and "0 < pr_pending p"
proof -
  let ?fs = "rx_frames k (io_log (snd s))" and ?rs = "tx_replies k (io_log (snd s))"
  have f: "flow_at i du (T_reply k n framed r # R) s k" "length (du_replies du k) \<le> length (du_frames du k)"
    using assms(1,2) by (auto simp: flow_inv_def)
  then have "length ?rs < length (du_replies du k)"
    by (simp add: flow_at_def)
  moreover have "length (du_frames du k) \<le> length ?fs"
    using f(1) same_frames_length by (fastforce simp: flow_at_def)
  ultimately show "0 < pr_pending p"
    using assms(3) f(2) by (simp add: peer_inv_def)
  show "framed"
    using assms(1) by (simp add: flow_inv_def)
qed

lemma flow_inv_answer:
  assumes "flow_inv i du (T_reply k n framed r # R) s" and "io_peers (snd s) k = Some p" and "k < el_next (fst s)"
  shows "flow_inv i du R (log_event (Ev_answered k r) (put_peer k p' s))"
  using assms by (auto simp: flow_inv_def flow_at_def flow_none_def)

lemma accept_reply_pending [simp]: "pr_pending (accept_reply framed r p) = pr_pending p" "pr_timer (accept_reply framed r p) = pr_timer p"
  "pr_fd (accept_reply framed r p) = pr_fd p"
  by (simp_all add: accept_reply_def Let_def)

lemma pending_less: "server_ok srv \<Longrightarrow> peer_inv srv rx fs rs tx p \<Longrightarrow> pr_pending p < sz_mod"
  by (auto simp: peer_inv_def server_ok_def pipeline_limit_def sz_mod_def split: if_splits)

lemma on_reply_live:
  assumes "server_ok srv" and "bound < sz_mod" and "ts_sizer srv = Some sizer"
    and "live srv i du base others bound (T_reply k n framed r # R) s"
  shows "live srv i du base others bound R (on_reply srv i k n framed r inp s)"
proof (cases "io_peers (snd s) k")
  case None
  with assms(4) show ?thesis
    by (auto simp: on_reply_def intro!: live_drop [OF assms(4)] split: if_splits)
next
  case (Some p)
  let ?t = "T_reply k n framed r" and ?p1 = "p\<lparr>pr_pending := sz_sub (pr_pending p) 1\<rparr>"
  note inv = live_peer [OF assms(4) Some]
  have flow: "flow_inv i du (?t # R) s"
    using assms(4) by (simp add: live_def)
  note own = reply_pending [OF flow Some inv]
  show ?thesis
  proof (cases "refuse_reply srv n framed ?p1 r")
    case True
    then have "on_reply srv i k n framed r inp s = Close k s"
      using Some by (simp add: on_reply_def Close_put)
    moreover have "live srv i du base others bound (?t # R) (Close k s)"
      by (rule Close_live [OF assms(4,2)])
    moreover have "io_peers (snd (Close k s)) k = None"
      by (simp add: Close_def count_stat_def split: option.splits)
    ultimately show ?thesis
      by (auto intro!: live_drop [of srv i du base others bound ?t] split: if_splits)
  next
    case False
    let ?p = "accept_reply framed r ?p1"
    let ?s = "log_event (Ev_answered k r) (put_peer k ?p s)"
    have "peer_inv srv (rx_bytes k (io_log (snd s))) (rx_frames k (io_log (snd s)))
        (tx_replies k (io_log (snd s)) @ [r]) (tx_bytes k (io_log (snd s))) ?p"
      using peer_inv_answered [OF assms(1) inv, of n r] False own by simp
    then have "io_inv srv ?s"
      using assms(4) Some by (intro put_log_inv(2)) (simp_all add: live_def)
    moreover have "flow_inv i du R ?s"
      using flow_inv_answer [OF flow Some] io_inv_peer_less [of srv "fst s" "snd s" k p] assms(4) Some by (simp add: live_def)
    moreover have "acct i base others bound R ?s"
      using assms(4) Some acct_Cons [of i base others bound ?t R s] by (simp add: live_def acct_put)
    ultimately have "live srv i du base others bound R ?s"
      by (simp add: live_def)
    then show ?thesis
      using Some False by (simp add: on_reply_def Let_def Pump_live [OF assms(1-3)] count_stat_live)
  qed
qed

lemma peer_inv_new: "server_ok srv \<Longrightarrow> peer_inv srv [] [] [] [] (peer_new fd)"
  by (simp add: peer_inv_def peer_new_def in_inv_def out_inv_def buffer_new_def buf_data_def buffer_inv_def server_ok_def)

lemma Add_fields:
  assumes "Add ok fd ev c l = (Inr k, l')"
  shows "k = el_next l" "el_next l' = Suc (el_next l)" "el_watches l' = (el_watches l)(el_next l \<mapsto> (fd, c))" "el_timers l' = el_timers l"
    "el_timer_index l' = el_timer_index l" "el_tasks l' = el_tasks l"
  using assms by (auto simp: Add_def Let_def split: if_splits)

lemma Attach_shape:
  assumes "loop_inv (fst s)" and "Add (in_ctl inp) fd (EPOLLIN + EPOLLRDHUP) (el_next (fst s)) (fst s) = (Inr k, l)"
  shows "Attach srv inp fd s =
    (snd (At (in_now inp + nat (so_idle_timeout (ts_options srv)) * 1000000) (T_idle k) l),
     (snd s)\<lparr>io_peers := (io_peers (snd s))(k \<mapsto> (peer_new fd)\<lparr>pr_timer := el_next l\<rparr>)\<rparr>)"
proof -
  have "el_timer_index (fst s) 0 = None"
    using assms(1) by (auto simp: loop_inv_def timers_inv_def)
  then have "Cancel 0 l = l"
    using Add_fields(5) [OF assms(2)] by (simp add: Cancel_def)
  moreover have "pr_timer (peer_new fd) = 0"
    by (simp add: peer_new_def)
  ultimately show ?thesis
    using assms(2) by (simp add: Attach_def Deadline_def put_peer_def split_beta)
qed

lemma Attach_inv:
  assumes "server_ok srv" and "io_inv srv s" and "Add (in_ctl inp) fd (EPOLLIN + EPOLLRDHUP) (el_next (fst s)) (fst s) = (Inr k, l)"
  shows "io_inv srv (Attach srv inp fd s)"
proof -
  let ?p = "(peer_new fd)\<lparr>pr_timer := el_next l\<rparr>"
  let ?d = "in_now inp + nat (so_idle_timeout (ts_options srv)) * 1000000"
  note D = io_invD [of srv "fst s" "snd s", unfolded prod.collapse, OF assms(2)] and A = Add_fields [OF assms(3)]
  have less: "k' < el_next (fst s)" if "io_peers (snd s) k' = Some q" for k' q
    using io_inv_peer_less [of srv "fst s" "snd s" k' q] assms(2) that by simp
  have "loop_inv l"
    using Add_inv [OF D(1), of "in_ctl inp" fd "EPOLLIN + EPOLLRDHUP" "el_next (fst s)"] assms(3) by simp
  have "io_inv srv (snd (At ?d (T_idle k) l), (snd s)\<lparr>io_peers := (io_peers (snd s))(k \<mapsto> ?p)\<rparr>)"
  proof (rule io_invI)
    fix k' q
    assume q: "io_peers ((snd s)\<lparr>io_peers := (io_peers (snd s))(k \<mapsto> ?p)\<rparr>) k' = Some q"
    show "\<exists>d. (d, pr_timer q, T_idle k') \<in> set (el_timers (snd (At ?d (T_idle k) l)))"
      using q D(3) [of k' q] A by (cases "k' = k") auto
    show "log_inv_at srv (io_log ((snd s)\<lparr>io_peers := (io_peers (snd s))(k \<mapsto> ?p)\<rparr>)) k' q"
    proof (cases "k' = k")
      case True
      have "\<forall>e \<in> set (io_log (snd s)). ev_peer e \<noteq> k"
        using D(5) A(1) by (metis less_irrefl)
      with q True peer_inv_new [OF assms(1), of fd] show ?thesis
        by (auto simp: history_other)
    qed (use q D(6) in simp)
  next
    fix d n t
    assume t: "(d, n, t) \<in> set (el_timers (snd (At ?d (T_idle k) l)))"
    show "\<exists>k' q. t = T_idle k' \<and> io_peers ((snd s)\<lparr>io_peers := (io_peers (snd s))(k \<mapsto> ?p)\<rparr>) k' = Some q \<and> pr_timer q = n"
    proof (cases "(d, n, t) \<in> set (el_timers (fst s))")
      case True
      then obtain k' q where q: "t = T_idle k'" "io_peers (snd s) k' = Some q" "pr_timer q = n"
        using D(4) by blast
      with less [OF q(2)] A(1) show ?thesis
        by (intro exI [of _ k'] exI [of _ q]) simp
    qed (use t A in auto)
  qed (use D A less \<open>loop_inv l\<close> in \<open>auto simp: At_inv less_SucI peer_new_def\<close>)
  then show ?thesis
    by (simp only: Attach_shape [OF D(1) assms(3)])
qed

lemma Attach_live:
  assumes "server_ok srv" and "live srv i du base others bound (T_attach fd # R) s"
    and "Add (in_ctl inp) fd (EPOLLIN + EPOLLRDHUP) (el_next (fst s)) (fst s) = (Inr k, l)"
  shows "live srv i du base others bound R (Attach srv inp fd s)"
proof -
  have inv: "io_inv srv s" and own: "flow_inv i du (T_attach fd # R) s" and act: "acct i base others bound (T_attach fd # R) s"
    using assms(2) by (simp_all add: live_def)
  note A = Add_fields [OF assms(3)] and shape = Attach_shape [OF io_inv_loop_inv [OF inv] assms(3), of srv]
  have "io_peers (snd s) k = None"
    using io_inv_peer_less [of srv "fst s" "snd s" k] inv A(1) by (cases "io_peers (snd s) k") auto
  then have "card (dom ((io_peers (snd s))(k \<mapsto> p))) = Suc (card (dom (io_peers (snd s))))" for p
    using act by (simp add: acct_def domIff)
  moreover have tasks: "el_tasks (snd (At d t l)) = el_tasks l" for d t
    by (simp add: At_def Let_def)
  moreover have "\<forall>e \<in> set (io_log (snd s)). ev_peer e \<noteq> k"
    using io_invD(5) [of srv "fst s" "snd s"] inv A(1) by (metis less_irrefl prod.collapse)
  then have "flow_inv i du R (Attach srv inp fd s)"
    using own history_other [of "io_log (snd s)" k] A tasks
    by (auto simp: shape flow_inv_def flow_at_def flow_none_def same_frames_def)
  ultimately show ?thesis
    using act A Attach_inv [OF assms(1) inv assms(3)]
    by (auto simp: live_def shape acct_def)
qed

lemma on_pump_live:
  assumes "server_ok srv" and "bound < sz_mod" and "ts_sizer srv = Some sizer" and "live srv i du base others bound R s"
  shows "live srv i du base others bound R (on_pump srv i k inp s)"
proof (cases "io_peers (snd s) k")
  case (Some p)
  have "live srv i du base others bound R (put_peer k (p\<lparr>pr_scheduled := False\<rparr>) s)"
    using live_peer [OF assms(4) Some] assms(4) Some by (intro live_put) simp_all
  with Some show ?thesis
    by (simp add: on_pump_def Pump_live [OF assms(1-3)])
qed (use assms(4) in \<open>simp add: on_pump_def\<close>)

lemma on_event_live:
  assumes "server_ok srv" and "bound < sz_mod" and "ts_sizer srv = Some sizer" and "live srv i du base others bound R s"
  shows "live srv i du base others bound R (on_event srv i k ev inp s)"
  using Pump_live [OF assms] Close_live [OF assms(4,2)] assms(4) by (simp add: on_event_def split: option.splits)

text \<open>The idle timer of a peer is gone when its closure runs; the closure cancels it once more.\<close>

lemma Close_cancelled:
  assumes "loop_inv l" and "io_peers a k = Some p"
  shows "Close k (Cancel (pr_timer p) l, a) = Close k (l, a)"
proof -
  have "Cancel n (Cancel n l) = Cancel n l" for n
    by (simp add: Cancel_def split: option.splits)
  with assms(2) show ?thesis
    by (simp add: Close_def)
qed

lemma on_idle_live:
  assumes "bound < sz_mod" and "live srv i du base others bound R (l, a)" and "due_timer now l = (Some t, l')"
  shows "\<exists>k. t = T_idle k \<and> live srv i du base others bound R (on_idle k (l', a))"
proof -
  let ?f = "\<lambda>st. st\<lparr>ss_timeouts := sz_add (ss_timeouts st) 1\<rparr>"
  have inv: "io_inv srv (l, a)"
    using assms(2) by (simp add: live_def)
  obtain d n where t: "(d, n, t) \<in> set (el_timers l)" "l' = Cancel n l"
    using due_timer_Cancel [OF io_invD(1) [OF inv] assms(3)] by blast
  obtain k p where k: "t = T_idle k" "io_peers a k = Some p" "pr_timer p = n"
    using io_invD(4) [OF inv t(1)] by blast
  have "on_idle k (l', a) = Close k (Cancel (pr_timer p) l, snd (count_stat ?f (l, a)))"
    using k t(2) by (simp add: on_idle_def count_stat_def)
  also have "\<dots> = Close k (count_stat ?f (l, a))"
    using Close_cancelled [OF io_invD(1) [OF inv], of "snd (count_stat ?f (l, a))" k p] k(2) by (simp add: count_stat_def)
  finally have "live srv i du base others bound R (on_idle k (l', a))"
    using assms(1,2) by (simp add: Close_live count_stat_live)
  with k(1) show ?thesis
    by blast
qed

lemma shutdown_live:
  assumes "bound < sz_mod" and "live srv i du base others bound R s"
  shows "live srv i du base others bound R (shutdown s)"
proof -
  have "live srv i du base others bound R s \<Longrightarrow> live srv i du base others bound R (fold Close ks s)" for ks s
    by (induction ks arbitrary: s) (simp_all add: Close_live assms(1))
  moreover have "live srv i du base others bound R (loop_Stop T_nothing (fst s), snd s)" if "live srv i du base others bound R s" for s
  proof -
    have "io_inv srv (loop_Stop T_nothing (fst s), snd s)"
      using that by (intro io_inv_loop) (simp_all add: live_def io_inv_loop_inv [of srv] Stop_inv)
    moreover have "el_tasks (loop_Stop T_nothing (fst s)) = el_tasks (fst s) @ [T_nothing]"
      by (simp add: loop_Stop_def Post_def)
    ultimately show ?thesis
      using that by (auto simp: live_def flow_inv_def flow_at_def flow_none_def acct_def)
  qed
  ultimately show ?thesis
    using assms(2) by (simp add: shutdown_def Let_def)
qed

section \<open>Turns\<close>

text \<open>
  The invariant of an I/O thread. \<open>R\<close> are the tasks of the batch the loop is running. The streams
  are claimed of a thread that runs; the accounting also of one that an exception has ended.
\<close>

definition thread_inv ::
  "tcp_server \<Rightarrow> nat \<Rightarrow> duty \<Rightarrow> job list \<Rightarrow> nat \<Rightarrow> nat \<Rightarrow> io_task list \<Rightarrow> io_state \<Rightarrow> bool" where
  "thread_inv srv i du base others bound R s \<longleftrightarrow>
     queue_inv srv (io_rt (snd s)) \<and> acct i base others bound R s \<and>
     (io_failed (snd s) \<or> live srv i du base others bound R s)"

lemma live_thread_inv: "live srv i du base others bound R s \<Longrightarrow> thread_inv srv i du base others bound R s"
  by (simp add: thread_inv_def live_def io_inv_def)

lemma next_input_fields [simp]:
  "fst (snd (next_input s)) = fst s" "io_failed (snd (snd (next_input s))) = io_failed (snd s)"
  "io_peers (snd (snd (next_input s))) = io_peers (snd s)" "io_rt (snd (snd (next_input s))) = io_rt (snd s)"
  "io_log (snd (snd (next_input s))) = io_log (snd s)"
  by (simp_all add: next_input_def split: list.splits)

lemma next_input_keeps [simp]:
  "live srv i du base others bound R (snd (next_input s)) = live srv i du base others bound R s"
  "acct i base others bound R (snd (next_input s)) = acct i base others bound R s"
  by (simp_all add: live_def io_inv_def flow_inv_def flow_at_def flow_none_def acct_def)

lemma Attach_failed:
  assumes "Add (in_ctl inp) fd (EPOLLIN + EPOLLRDHUP) (el_next (fst s)) (fst s) = (Inl e, l)"
    and "live srv i du base others bound (T_attach fd # R) s"
  shows "thread_inv srv i du base others bound R (Attach srv inp fd s)"
proof -
  have "el_tasks l = el_tasks (fst s)"
    using assms(1) by (auto simp: Add_def Let_def split: if_splits)
  with assms show ?thesis
    by (auto simp: Attach_def thread_inv_def live_def io_inv_def acct_def)
qed

lemma exec_task_keeps:
  assumes "server_ok srv" and "bound < sz_mod" and "ts_sizer srv = Some sizer" and "thread_inv srv i du base others bound (t # R) s"
  shows "thread_inv srv i du base others bound R (exec_task srv i t s)"
proof (cases "io_failed (snd s)")
  case True
  with assms(4) show ?thesis
    by (auto simp: exec_task_def thread_inv_def split_beta Let_def dest: acct_Cons)
next
  case False
  let ?s = "snd (next_input s)"
  have l: "live srv i du base others bound (t # R) ?s"
    using assms(4) False by (simp add: thread_inv_def)
  show ?thesis
  proof (cases t)
    case (T_attach fd)
    with l Attach_live [OF assms(1), of i du base others bound fd R ?s "fst (next_input s)"]
      Attach_failed [of "fst (next_input s)" fd ?s _ _ srv i du base others bound R]
    show ?thesis
      using False
      by (cases "Add (in_ctl (fst (next_input s))) fd (EPOLLIN + EPOLLRDHUP) (el_next (fst ?s)) (fst ?s)", cases "fst (Add (in_ctl (fst (next_input s))) fd (EPOLLIN + EPOLLRDHUP) (el_next (fst ?s)) (fst ?s))")
        (auto simp: exec_task_def split_beta Let_def intro: live_thread_inv)
  next
    case (T_reply k n framed r)
    with on_reply_live [OF assms(1-3)] l False show ?thesis
      by (simp add: exec_task_def split_beta Let_def live_thread_inv)
  next
    case (T_idle k)
    then have "live srv i du base others bound R (on_idle k ?s)"
      using live_drop [OF l] assms(2) by (simp add: on_idle_def Close_live count_stat_live split: option.splits)
    with T_idle False show ?thesis
      by (simp add: exec_task_def split_beta Let_def live_thread_inv)
  qed (use l False live_drop [OF l] assms(1-3) in
      \<open>simp_all add: exec_task_def split_beta Let_def live_thread_inv on_pump_live shutdown_live\<close>)
qed

lemma exec_callback_keeps:
  assumes "server_ok srv" and "bound < sz_mod" and "ts_sizer srv = Some sizer" and "thread_inv srv i du base others bound R s"
  shows "thread_inv srv i du base others bound R (exec_callback srv i k ev s)"
proof (cases "io_failed (snd s)")
  case False
  then have "live srv i du base others bound R (snd (next_input s))"
    using assms(4) by (simp add: thread_inv_def)
  with False show ?thesis
    by (simp add: exec_callback_def split_beta Let_def live_thread_inv on_event_live [OF assms(1-3)])
qed (use assms(4) in \<open>simp add: exec_callback_def thread_inv_def split_beta Let_def\<close>)

lemma due_timer_keeps:
  assumes "bound < sz_mod" and "thread_inv srv i du base others bound R (l, a)" and "due_timer now l = (Some t, l')"
  shows "thread_inv srv i du base others bound R (exec_task srv i t (l', a))"
proof (cases "io_failed a")
  case True
  moreover have "el_tasks l' = el_tasks l"
    using assms(3) by (auto simp: due_timer_def split: list.splits if_splits)
  ultimately show ?thesis
    using assms(2) by (simp add: exec_task_def thread_inv_def split_beta Let_def acct_def)
next
  case False
  let ?a = "snd (snd (next_input (l, a)))"
  have n: "next_input (m, a) = (fst (next_input (l, a)), (m, ?a))" for m
    by (simp add: next_input_def split: list.splits)
  have "live srv i du base others bound R (l, ?a)"
    using assms(2) False next_input_keeps(1) [of srv i du base others bound R "(l, a)"] n [of l]
    by (metis thread_inv_def snd_conv)
  then obtain k where "t = T_idle k" "live srv i du base others bound R (on_idle k (l', ?a))"
    using on_idle_live [OF assms(1) _ assms(3)] by blast
  with False show ?thesis
    using next_input_fields(2) [of "(l, a)"] by (simp add: exec_task_def n [of l'] live_thread_inv)
qed

lemma thread_inv_wake:
  assumes "thread_inv srv i du base others bound [] (l, a)"
  shows "thread_inv srv i du base others bound (el_tasks l) (l\<lparr>el_wake := False, el_tasks := []\<rparr>, a)"
proof -
  have "loop_inv (l\<lparr>el_wake := False, el_tasks := []\<rparr>)" if "loop_inv l"
    using that by (simp add: loop_inv_def)
  with assms show ?thesis
    by (auto simp: thread_inv_def live_def io_inv_def flow_inv_def flow_at_def flow_none_def acct_def)
qed

theorem io_turn_keeps:
  assumes "server_ok srv" and "bound < sz_mod" and "ts_sizer srv = Some sizer" and "thread_inv srv i du base others bound [] s"
  shows "thread_inv srv i du base others bound [] (io_turn srv i events clock s)"
  using exec_task_keeps [OF assms(1-3)] exec_callback_keeps [OF assms(1-3)] due_timer_keeps [OF assms(2)] thread_inv_wake assms(4)
  unfolding io_turn_def by (rule run_turn_keeps)

end
