(* ===== verification/Server_System.thy ===== *)
theory Server_System
  imports Server_Turns "HOL-Library.Sublist"
begin

text \<open>
  The running server (\<open>Runtime::Run\<close> of \<open>src/src/tcp_server.cpp\<close>): the accept loop, the I/O
  threads and the workers, interleaved closure by closure. The threads share the job queue and the
  counters, which are protected by a mutex or atomic, and post closures to each other's loops.
  A closure of a loop, a batch a worker takes and a batch it completes are the steps.
\<close>

section \<open>State\<close>

text \<open>
  \<open>sy_running\<close> holds for each I/O thread the tasks its loop has swapped out and not yet run,
  \<open>sy_batches\<close> the batches that workers are executing, \<open>sy_state\<close> the state of the handler.
  \<open>sy_trace\<close> is the history of completed jobs.
\<close>

record 's server_sys =
  sy_rt :: runtime
  sy_ios :: "io_state list"
  sy_running :: "io_task list list"
  sy_batches :: "job list list"
  sy_next :: nat
  sy_accepting :: bool
  sy_finished :: bool
  sy_state :: 's
  sy_trace :: "(job \<times> reply) list"

definition worker_threads :: "tcp_server \<Rightarrow> nat" where
  "worker_threads srv = (if ts_handler srv = Batch_handler then 1 else so_workers (ts_options srv))"

text \<open>\<open>envs\<close> are the results of the socket calls of each I/O thread.\<close>

definition sys_new :: "tcp_server \<Rightarrow> io_input list list \<Rightarrow> 's \<Rightarrow> 's server_sys" where
  "sys_new srv envs s =
     \<lparr>sy_rt = runtime_new, sy_ios = map (\<lambda>env. (loop_new, io_new\<lparr>io_env := env\<rparr>)) envs, sy_running = map (\<lambda>_. []) envs,
      sy_batches = [], sy_next = 0, sy_accepting = \<not> ts_stopping srv, sy_finished = False, sy_state = s, sy_trace = []\<rparr>"

section \<open>Accepting\<close>

text \<open>
  Results of \<open>accept4\<close>; a script that is exhausted means that the call would block. The numeral
  argument is what is left of the 128 iterations. The result says whether the closure posts itself
  again.
\<close>

datatype accept_result = Accepted int | Accept_interrupted | Accept_error

definition post_to :: "nat \<Rightarrow> io_task \<Rightarrow> io_state list \<Rightarrow> io_state list" where
  "post_to i t ios = ios[i := (Post t (fst (ios ! i)), snd (ios ! i))]"

definition admit :: "tcp_server \<Rightarrow> int \<Rightarrow> 's server_sys \<Rightarrow> 's server_sys" where
  "admit srv fd sys =
     (let rt = sy_rt sys; st = rt_stats rt
      in if ss_active st \<ge> ts_max_connections srv
         then sys\<lparr>sy_rt := rt\<lparr>rt_stats := st\<lparr>ss_rejected := sz_add (ss_rejected st) 1\<rparr>\<rparr>\<rparr>
         else sys\<lparr>sy_rt := rt\<lparr>rt_stats := st\<lparr>ss_active := sz_add (ss_active st) 1, ss_accepted := sz_add (ss_accepted st) 1\<rparr>\<rparr>,
                  sy_ios := post_to (sy_next sys mod length (sy_ios sys)) (T_attach fd) (sy_ios sys),
                  sy_next := sz_add (sy_next sys) 1\<rparr>)"

primrec accept_ready :: "tcp_server \<Rightarrow> nat \<Rightarrow> accept_result list \<Rightarrow> 's server_sys \<Rightarrow> bool \<times> 's server_sys" where
  "accept_ready srv n [] sys = (n = 0, sys)"
| "accept_ready srv n (r # rs) sys =
     (if n = 0 then (True, sys)
      else case r of
          Accept_interrupted \<Rightarrow> accept_ready srv n rs sys
        | Accept_error \<Rightarrow> (False, sys)
        | Accepted fd \<Rightarrow> accept_ready srv (n - 1) rs (admit srv fd sys))"

section \<open>Workers and shutdown\<close>

definition complete :: "job \<times> reply \<Rightarrow> io_state list \<Rightarrow> io_state list" where
  "complete jr = (case jr of (j, r) \<Rightarrow> post_to (jb_io j) (T_reply (jb_peer j) (jb_size j) (jb_framed j) r))"

definition work_take :: "tcp_server \<Rightarrow> 's server_sys \<Rightarrow> 's server_sys" where
  "work_take srv sys =
     (let (batch, rt) = take_batch srv (sy_rt sys) in sys\<lparr>sy_rt := rt, sy_batches := sy_batches sys @ [batch]\<rparr>)"

text \<open>The worker that holds batch \<open>n\<close> runs the handler, which takes \<open>us\<close> microseconds.\<close>

definition work_done ::
  "tcp_server \<Rightarrow> (bytes \<Rightarrow> 's \<Rightarrow> (bytes \<times> nat) result \<times> 's) \<Rightarrow> (bytes list \<Rightarrow> 's \<Rightarrow> reply list result \<times> 's) \<Rightarrow> nat \<Rightarrow> nat \<Rightarrow>
   's server_sys \<Rightarrow> 's server_sys" where
  "work_done srv handler batch_handler n us sys =
     (let batch = sy_batches sys ! n;
          (replies, s, rt) = run_batch srv handler batch_handler us batch (sy_state sys) (sy_rt sys)
      in sys\<lparr>sy_rt := rt, sy_ios := fold complete (zip batch replies) (sy_ios sys),
             sy_batches := take n (sy_batches sys) @ drop (Suc n) (sy_batches sys),
             sy_state := s, sy_trace := sy_trace sys @ zip batch replies\<rparr>)"

definition begin_finish :: "'s server_sys \<Rightarrow> 's server_sys" where
  "begin_finish sys = sys\<lparr>sy_accepting := False, sy_rt := (sy_rt sys)\<lparr>rt_closing := True\<rparr>\<rparr>"

definition end_finish :: "'s server_sys \<Rightarrow> 's server_sys" where
  "end_finish sys = sys\<lparr>sy_finished := True, sy_ios := map (\<lambda>io. (Post T_shutdown (fst io), snd io)) (sy_ios sys)\<rparr>"

section \<open>Steps\<close>

text \<open>An I/O thread reads and writes the shared state through its own view of it.\<close>

definition io_view :: "nat \<Rightarrow> 's server_sys \<Rightarrow> io_state" where
  "io_view i sys = (fst (sy_ios sys ! i), (snd (sy_ios sys ! i))\<lparr>io_rt := sy_rt sys\<rparr>)"

definition set_io :: "nat \<Rightarrow> io_task list \<Rightarrow> io_state \<Rightarrow> 's server_sys \<Rightarrow> 's server_sys" where
  "set_io i R s sys = sys\<lparr>sy_rt := io_rt (snd s), sy_ios := (sy_ios sys)[i := s], sy_running := (sy_running sys)[i := R]\<rparr>"

text \<open>
  Workers return once the queue is empty while closing; only then are the I/O threads told to
  stop. Every order of closures that the loops can produce is allowed here, and more.
\<close>

inductive sys_step ::
  "tcp_server \<Rightarrow> (bytes \<Rightarrow> 's \<Rightarrow> (bytes \<times> nat) result \<times> 's) \<Rightarrow> (bytes list \<Rightarrow> 's \<Rightarrow> reply list result \<times> 's) \<Rightarrow>
   's server_sys \<Rightarrow> 's server_sys \<Rightarrow> bool" for srv handler batch_handler where
  io_wake: "i < length (sy_ios sys) \<Longrightarrow> sy_running sys ! i = [] \<Longrightarrow> io_view i sys = (l, a) \<Longrightarrow>
    sys_step srv handler batch_handler sys (set_io i (el_tasks l) (l\<lparr>el_wake := False, el_tasks := []\<rparr>, a) sys)"
| io_task: "i < length (sy_ios sys) \<Longrightarrow> sy_running sys ! i = t # R \<Longrightarrow>
    sys_step srv handler batch_handler sys (set_io i R (exec_task srv i t (io_view i sys)) sys)"
| io_event: "i < length (sy_ios sys) \<Longrightarrow> sy_running sys ! i = [] \<Longrightarrow> el_watches (fst (io_view i sys)) k = Some (fd, c) \<Longrightarrow>
    sys_step srv handler batch_handler sys (set_io i [] (exec_callback srv i c events (io_view i sys)) sys)"
| io_timer: "i < length (sy_ios sys) \<Longrightarrow> sy_running sys ! i = [] \<Longrightarrow> io_view i sys = (l, a) \<Longrightarrow> due_timer now l = (Some t, l') \<Longrightarrow>
    sys_step srv handler batch_handler sys (set_io i [] (exec_task srv i t (l', a)) sys)"
| accept: "sy_accepting sys \<Longrightarrow> sys_step srv handler batch_handler sys (snd (accept_ready srv 128 rs sys))"
| worker_take: "rt_jobs (sy_rt sys) \<noteq> [] \<Longrightarrow> length (sy_batches sys) < worker_threads srv \<Longrightarrow>
    sys_step srv handler batch_handler sys (work_take srv sys)"
| worker_done: "n < length (sy_batches sys) \<Longrightarrow> sys_step srv handler batch_handler sys (work_done srv handler batch_handler n us sys)"
| finish_begin: "sys_step srv handler batch_handler sys (begin_finish sys)"
| finish_end: "rt_closing (sy_rt sys) \<Longrightarrow> rt_jobs (sy_rt sys) = [] \<Longrightarrow> sy_batches sys = [] \<Longrightarrow> \<not> sy_finished sys \<Longrightarrow>
    sys_step srv handler batch_handler sys (end_finish sys)"

inductive sys_reachable ::
  "tcp_server \<Rightarrow> (bytes \<Rightarrow> 's \<Rightarrow> (bytes \<times> nat) result \<times> 's) \<Rightarrow> (bytes list \<Rightarrow> 's \<Rightarrow> reply list result \<times> 's) \<Rightarrow>
   's \<Rightarrow> 's server_sys \<Rightarrow> bool" for srv handler batch_handler s where
  sys_start: "length envs = so_io_threads (ts_options srv) \<Longrightarrow> sys_reachable srv handler batch_handler s (sys_new srv envs s)"
| sys_next: "sys_reachable srv handler batch_handler s sys \<Longrightarrow> sys_step srv handler batch_handler sys sys' \<Longrightarrow>
    sys_reachable srv handler batch_handler s sys'"

section \<open>Invariant\<close>

definition all_jobs :: "'s server_sys \<Rightarrow> job list" where
  "all_jobs sys = map fst (sy_trace sys) @ concat (sy_batches sys) @ rt_jobs (sy_rt sys)"

definition replies_of :: "nat \<Rightarrow> nat \<Rightarrow> (job \<times> reply) list \<Rightarrow> reply list" where
  "replies_of i k jrs = map snd (filter (\<lambda>(j, r). jb_io j = i \<and> jb_peer j = k) jrs)"

definition duty_of :: "tcp_server \<Rightarrow> 's server_sys \<Rightarrow> nat \<Rightarrow> duty" where
  "duty_of srv sys i =
     \<lparr>du_frames = \<lambda>k. queued i k (map fst (sy_trace sys) @ concat (sy_batches sys)), du_replies = \<lambda>k. replies_of i k (sy_trace sys),
      du_single = (worker_threads srv = 1)\<rparr>"

definition conns :: "io_state \<Rightarrow> io_task list \<Rightarrow> nat" where
  "conns s R = card (dom (io_peers (snd s))) + length (filter attaches (el_tasks (fst s))) + length (filter attaches R)"

definition io_ok :: "tcp_server \<Rightarrow> 's server_sys \<Rightarrow> nat \<Rightarrow> bool" where
  "io_ok srv sys i \<longleftrightarrow> finite (dom (io_peers (snd (io_view i sys)))) \<and>
     (io_failed (snd (io_view i sys)) \<or>
      io_inv srv (io_view i sys) \<and> flow_inv i (duty_of srv sys i) (sy_running sys ! i) (io_view i sys))"

definition job_ok :: "nat \<Rightarrow> job \<Rightarrow> bool" where
  "job_ok n j \<longleftrightarrow> jb_io j < n \<and> jb_framed j"

definition batches_ok :: "tcp_server \<Rightarrow> 's server_sys \<Rightarrow> bool" where
  "batches_ok srv sys \<longleftrightarrow> length (sy_batches sys) \<le> worker_threads srv \<and>
     (ts_handler srv \<noteq> Batch_handler \<longrightarrow> (\<forall>b \<in> set (sy_batches sys). length b = 1)) \<and>
     (\<forall>j \<in> set (rt_jobs (sy_rt sys)) \<union> set (concat (sy_batches sys)). job_ok (length (sy_ios sys)) j)"

definition total_conns :: "'s server_sys \<Rightarrow> nat" where
  "total_conns sys = (\<Sum>i<length (sy_ios sys). conns (sy_ios sys ! i) (sy_running sys ! i))"

definition sys_inv :: "tcp_server \<Rightarrow> 's server_sys \<Rightarrow> bool" where
  "sys_inv srv sys \<longleftrightarrow>
     length (sy_running sys) = length (sy_ios sys) \<and> sy_ios sys \<noteq> [] \<and> queue_inv srv (sy_rt sys) \<and>
     total_conns sys \<le> ss_active (rt_stats (sy_rt sys)) \<and> ss_active (rt_stats (sy_rt sys)) \<le> ts_max_connections srv \<and>
     (\<forall>i < length (sy_ios sys). io_ok srv sys i) \<and> batches_ok srv sys"

subsection \<open>Closures of an I/O thread\<close>

lemma set_io_simps [simp]:
  "sy_rt (set_io i R s sys) = io_rt (snd s)" "sy_ios (set_io i R s sys) = (sy_ios sys)[i := s]"
  "sy_running (set_io i R s sys) = (sy_running sys)[i := R]" "sy_batches (set_io i R s sys) = sy_batches sys"
  "sy_trace (set_io i R s sys) = sy_trace sys"
  by (simp_all add: set_io_def)

lemma duty_set_io [simp]: "duty_of srv (set_io i R s sys) = duty_of srv sys"
  by (simp add: duty_of_def fun_eq_iff)

lemma view_set_io: "i < length (sy_ios sys) \<Longrightarrow> io_view j (set_io i R s sys) =
    (if j = i then s else (fst (io_view j sys), (snd (io_view j sys))\<lparr>io_rt := io_rt (snd s)\<rparr>))"
  by (simp add: io_view_def)

lemma total_split:
  "i < length (sy_ios sys) \<Longrightarrow> total_conns sys =
     (\<Sum>j \<in> {..<length (sy_ios sys)} - {i}. conns (sy_ios sys ! j) (sy_running sys ! j)) + conns (sy_ios sys ! i) (sy_running sys ! i)"
  by (simp add: total_conns_def sum.remove)

lemma total_set_io:
  assumes "i < length (sy_ios sys)" and "length (sy_running sys) = length (sy_ios sys)"
  shows "total_conns (set_io i R s sys) =
    (\<Sum>j \<in> {..<length (sy_ios sys)} - {i}. conns (sy_ios sys ! j) (sy_running sys ! j)) + conns s R"
proof -
  have "(\<Sum>j \<in> {..<length (sy_ios sys)} - {i}. conns ((sy_ios sys)[i := s] ! j) ((sy_running sys)[i := R] ! j)) =
    (\<Sum>j \<in> {..<length (sy_ios sys)} - {i}. conns (sy_ios sys ! j) (sy_running sys ! j))"
    by (rule sum.cong) auto
  with assms total_split [of i "set_io i R s sys"] show ?thesis
    by simp
qed

lemma io_inv_rt: "io_inv srv s \<Longrightarrow> queue_inv srv rt \<Longrightarrow> io_inv srv (fst s, (snd s)\<lparr>io_rt := rt\<rparr>)"
  by (simp add: io_inv_def)

lemma flow_inv_rt:
  "flow_inv i du R s \<Longrightarrow> (\<And>k. queued i k (rt_jobs rt) = queued i k (rt_jobs (io_rt (snd s)))) \<Longrightarrow>
   flow_inv i du R (fst s, (snd s)\<lparr>io_rt := rt\<rparr>)"
  by (simp add: flow_inv_def flow_at_def flow_none_def)

lemma io_view_thread_inv:
  assumes "sys_inv srv sys" and "i < length (sy_ios sys)"
  shows "thread_inv srv i (duty_of srv sys i) (rt_jobs (sy_rt sys))
    (\<Sum>j \<in> {..<length (sy_ios sys)} - {i}. conns (sy_ios sys ! j) (sy_running sys ! j)) (ts_max_connections srv)
    (sy_running sys ! i) (io_view i sys)"
proof -
  have "acct i (rt_jobs (sy_rt sys)) (\<Sum>j \<in> {..<length (sy_ios sys)} - {i}. conns (sy_ios sys ! j) (sy_running sys ! j))
      (ts_max_connections srv) (sy_running sys ! i) (io_view i sys)"
    using assms total_split [OF assms(2)] by (auto simp: sys_inv_def io_ok_def acct_def conns_def io_view_def)
  moreover have "io_rt (snd (io_view i sys)) = sy_rt sys"
    by (simp add: io_view_def)
  ultimately show ?thesis
    using assms by (auto simp: thread_inv_def live_def sys_inv_def io_ok_def)
qed

lemma set_io_inv:
  assumes "sys_inv srv sys" and "i < length (sy_ios sys)"
    and "\<And>base others. thread_inv srv i (duty_of srv sys i) base others (ts_max_connections srv) (sy_running sys ! i) (io_view i sys) \<Longrightarrow>
      thread_inv srv i (duty_of srv sys i) base others (ts_max_connections srv) R s"
  shows "sys_inv srv (set_io i R s sys)"
proof -
  let ?o = "\<Sum>j \<in> {..<length (sy_ios sys)} - {i}. conns (sy_ios sys ! j) (sy_running sys ! j)"
  have t: "thread_inv srv i (duty_of srv sys i) (rt_jobs (sy_rt sys)) ?o (ts_max_connections srv) R s"
    by (rule assms(3) [OF io_view_thread_inv [OF assms(1,2)]])
  then obtain js where js: "rt_jobs (io_rt (snd s)) = rt_jobs (sy_rt sys) @ js" "\<forall>j \<in> set js. jb_io j = i \<and> jb_framed j"
    by (auto simp: thread_inv_def acct_def)
  have q: "queue_inv srv (io_rt (snd s))"
    using t by (simp add: thread_inv_def)
  have "io_ok srv (set_io i R s sys) i"
    using t assms(1,2) by (auto simp: io_ok_def view_set_io thread_inv_def live_def acct_def sys_inv_def)
  moreover have "io_ok srv (set_io i R s sys) j" if "j < length (sy_ios sys)" "j \<noteq> i" for j
  proof -
    have "queued j k (rt_jobs (io_rt (snd s))) = queued j k (rt_jobs (io_rt (snd (io_view j sys))))" for k
      using js that(2) by (simp add: io_view_def queued_def)
    then show ?thesis
      using assms(1,2) that q by (auto simp: sys_inv_def io_ok_def view_set_io intro: io_inv_rt flow_inv_rt)
  qed
  ultimately have "\<forall>j < length (sy_ios sys). io_ok srv (set_io i R s sys) j"
    by blast
  moreover have "?o + conns s R \<le> ss_active (rt_stats (io_rt (snd s)))" "ss_active (rt_stats (io_rt (snd s))) \<le> ts_max_connections srv"
    using t by (simp_all add: thread_inv_def acct_def conns_def)
  moreover have "batches_ok srv (set_io i R s sys)"
    using assms(1,2) js by (auto simp: sys_inv_def batches_ok_def job_ok_def)
  ultimately show ?thesis
    using assms(1,2) q total_set_io [OF assms(2), of R s] by (simp add: sys_inv_def)
qed

subsection \<open>Posting to the I/O threads\<close>

lemma fold_Post [simp]:
  "el_tasks (fold Post ts l) = el_tasks l @ ts" "el_watches (fold Post ts l) = el_watches l" "el_timers (fold Post ts l) = el_timers l"
  "el_next (fold Post ts l) = el_next l"
  by (induction ts arbitrary: l) (simp_all add: Post_def)

lemma fold_Post_inv: "loop_inv l \<Longrightarrow> loop_inv (fold Post ts l)"
  by (induction ts arbitrary: l) (simp_all add: Post_inv)

lemma same_frames_trans: "same_frames b xs ys \<Longrightarrow> same_frames b ys zs \<Longrightarrow> same_frames b xs zs"
  by (simp add: same_frames_def split: if_splits)

lemma same_frames_Nil [simp]: "same_frames b xs [] \<longleftrightarrow> xs = []"
  by (simp add: same_frames_def)

text \<open>
  The rest of the server changes a thread only by posting tasks \<open>ts\<close> to it. What the workers
  took and gave changes with the replies among them.
\<close>

lemma duty_frames: "du_frames (duty_of srv sys i) k @ queued i k (rt_jobs (sy_rt sys)) = queued i k (all_jobs sys)"
  by (simp add: duty_of_def all_jobs_def)

lemma replies_le_frames: "length (replies_of i k jrs) \<le> length (queued i k (map fst jrs @ js))"
  by (induction jrs) (auto simp: replies_of_def queued_def)

lemma flow_inv_post:
  assumes "flow_inv i (duty_of srv sys i) R s" and "io_rt (snd s) = sy_rt sys"
    and "\<And>k. same_frames (worker_threads srv = 1) (queued i k (all_jobs sys')) (queued i k (all_jobs sys))"
    and "\<And>k. replies_of i k (sy_trace sys') = replies_of i k (sy_trace sys) @ replies_to k ts" and "\<forall>t \<in> set ts. framed_task t"
  shows "flow_inv i (duty_of srv sys' i) R (fold Post ts (fst s), (snd s)\<lparr>io_rt := sy_rt sys'\<rparr>)"
proof -
  have "flow_at i (duty_of srv sys' i) R (fold Post ts (fst s), (snd s)\<lparr>io_rt := sy_rt sys'\<rparr>) k" if "flow_at i (duty_of srv sys i) R s k" for k
    using that assms(2) assms(3) [of k] assms(4) [of k] duty_frames [of srv sys i k] duty_frames [of srv sys' i k]
    by (auto simp: flow_at_def duty_of_def intro: same_frames_trans)
  moreover have "flow_none i (duty_of srv sys' i) R (fold Post ts (fst s), (snd s)\<lparr>io_rt := sy_rt sys'\<rparr>) k"
    if "flow_none i (duty_of srv sys i) R s k" for k
  proof -
    have "queued i k (all_jobs sys') = []"
      using that assms(2) assms(3) [of k] duty_frames [of srv sys i k] by (simp add: flow_none_def)
    moreover from this have "replies_of i k (sy_trace sys') = []"
      using replies_le_frames [of i k "sy_trace sys'" "concat (sy_batches sys') @ rt_jobs (sy_rt sys')"] by (simp add: all_jobs_def)
    ultimately show ?thesis
      using that assms(4) [of k] by (simp add: flow_none_def duty_of_def all_jobs_def)
  qed
  moreover have "length (du_replies (duty_of srv sys' i) k) \<le> length (du_frames (duty_of srv sys' i) k)" for k
    using replies_le_frames [of i k "sy_trace sys'" "concat (sy_batches sys')"] by (simp add: duty_of_def)
  ultimately show ?thesis
    using assms(1,5) by (auto simp: flow_inv_def)
qed

lemma sys_inv_post:
  assumes "sys_inv srv sys" and "length (sy_ios sys') = length (sy_ios sys)" and "sy_running sys' = sy_running sys"
    and "\<And>i. i < length (sy_ios sys) \<Longrightarrow> sy_ios sys' ! i = (fold Post (ts i) (fst (sy_ios sys ! i)), snd (sy_ios sys ! i))"
    and "queue_inv srv (sy_rt sys')" and "batches_ok srv sys'"
    and "\<And>i k. i < length (sy_ios sys) \<Longrightarrow> same_frames (worker_threads srv = 1) (queued i k (all_jobs sys')) (queued i k (all_jobs sys))"
    and "\<And>i k. i < length (sy_ios sys) \<Longrightarrow> replies_of i k (sy_trace sys') = replies_of i k (sy_trace sys) @ replies_to k (ts i)"
    and "\<And>i. i < length (sy_ios sys) \<Longrightarrow> \<forall>t \<in> set (ts i). framed_task t"
    and "total_conns sys + (\<Sum>i<length (sy_ios sys). length (filter attaches (ts i))) \<le> ss_active (rt_stats (sy_rt sys'))"
    and "ss_active (rt_stats (sy_rt sys')) \<le> ts_max_connections srv"
  shows "sys_inv srv sys'"
proof -
  have "io_ok srv sys' i" if "i < length (sy_ios sys)" for i
  proof -
    have v: "io_view i sys' = (fold Post (ts i) (fst (io_view i sys)), (snd (io_view i sys))\<lparr>io_rt := sy_rt sys'\<rparr>)"
      using assms(4) [OF that] by (simp add: io_view_def)
    have "io_inv srv (io_view i sys')" if "io_inv srv (io_view i sys)"
      using io_inv_rt [OF io_inv_loop [OF that, of "fold Post (ts i) (fst (io_view i sys))"] assms(5)] io_inv_loop_inv [OF that]
      by (simp add: v fold_Post_inv)
    moreover have "flow_inv i (duty_of srv sys' i) (sy_running sys' ! i) (io_view i sys')"
      if "flow_inv i (duty_of srv sys i) (sy_running sys ! i) (io_view i sys)"
      using flow_inv_post [OF that, of sys' "ts i"] assms(3,7-9) \<open>i < length (sy_ios sys)\<close> by (simp add: v) (simp add: io_view_def)
    moreover have "io_ok srv sys i"
      using assms(1) that by (simp add: sys_inv_def)
    ultimately show ?thesis
      by (auto simp: io_ok_def v)
  qed
  moreover have "total_conns sys' = total_conns sys + (\<Sum>i<length (sy_ios sys). length (filter attaches (ts i)))"
    using assms(2-4) by (simp add: total_conns_def conns_def sum.distrib [symmetric] ac_simps)
  ultimately show ?thesis
    using assms(1-3,5,6,10,11) by (auto simp: sys_inv_def)
qed

subsection \<open>Steps keep the invariant\<close>

lemma post_to_nth: "i < length ios \<Longrightarrow> post_to k t ios ! i = (fold Post (if k = i then [t] else []) (fst (ios ! i)), snd (ios ! i))"
  by (cases "k = i") (simp_all add: post_to_def)

lemma post_to_length [simp]: "length (post_to k t ios) = length ios"
  by (simp add: post_to_def)

lemma queue_inv_stats:
  "queue_inv srv rt \<Longrightarrow> ss_queued_bytes st = ss_queued_bytes (rt_stats rt) \<Longrightarrow> ss_queued_tasks st = ss_queued_tasks (rt_stats rt) \<Longrightarrow>
   queue_inv srv (rt\<lparr>rt_stats := st\<rparr>)"
  by (simp add: queue_inv_def)

lemma admit_inv:
  assumes "sys_inv srv sys" and "ts_max_connections srv < sz_mod"
  shows "sys_inv srv (admit srv fd sys)"
proof (cases "ss_active (rt_stats (sy_rt sys)) \<ge> ts_max_connections srv")
  case True
  let ?st = "(rt_stats (sy_rt sys))\<lparr>ss_rejected := sz_add (ss_rejected (rt_stats (sy_rt sys))) 1\<rparr>"
  have "admit srv fd sys = sys\<lparr>sy_rt := (sy_rt sys)\<lparr>rt_stats := ?st\<rparr>\<rparr>"
    using True by (simp add: admit_def Let_def)
  moreover have "sys_inv srv (sys\<lparr>sy_rt := (sy_rt sys)\<lparr>rt_stats := ?st\<rparr>\<rparr>)"
    by (rule sys_inv_post [where sys = sys and ts = "\<lambda>_. []"])
      (use assms True in \<open>auto simp: sys_inv_def batches_ok_def all_jobs_def same_frames_def intro: queue_inv_stats\<close>)
  ultimately show ?thesis
    by simp
next
  case False
  let ?i = "sy_next sys mod length (sy_ios sys)"
  have i: "?i < length (sy_ios sys)"
    using assms(1) by (simp add: sys_inv_def)
  have a: "sz_add (ss_active (rt_stats (sy_rt sys))) 1 = Suc (ss_active (rt_stats (sy_rt sys)))"
    using False assms(2) by (simp add: sz_add_exact)
  have "length (filter attaches (if ?i = i then [T_attach fd] else [])) = (if ?i = i then 1 else 0)" for i
    by simp
  then have "(\<Sum>i<length (sy_ios sys). length (filter attaches (if ?i = i then [T_attach fd] else []))) = 1"
    using i by (simp only: sum.delta' finite_lessThan lessThan_iff if_True)
  then show ?thesis
    by (rule_tac sys_inv_post [where sys = sys and ts = "\<lambda>i. if ?i = i then [T_attach fd] else []"])
      (use assms False a in \<open>auto simp: admit_def Let_def post_to_nth sys_inv_def batches_ok_def all_jobs_def same_frames_def queue_inv_def\<close>)
qed

lemma accept_ready_inv:
  assumes "ts_max_connections srv < sz_mod"
  shows "sys_inv srv sys \<Longrightarrow> sys_inv srv (snd (accept_ready srv n rs sys))"
proof (induction rs arbitrary: n sys)
  case (Cons r rs)
  then show ?case
    using admit_inv [OF Cons.prems assms] by (cases r) simp_all
qed simp

lemma end_finish_inv: "sys_inv srv sys \<Longrightarrow> sys_inv srv (end_finish sys)"
  by (rule sys_inv_post [where sys = sys and ts = "\<lambda>_. [T_shutdown]"])
    (auto simp: end_finish_def sys_inv_def batches_ok_def all_jobs_def same_frames_def)

lemma begin_finish_inv: "sys_inv srv sys \<Longrightarrow> sys_inv srv (begin_finish sys)"
  by (rule sys_inv_post [where sys = sys and ts = "\<lambda>_. []"])
    (auto simp: begin_finish_def sys_inv_def batches_ok_def all_jobs_def same_frames_def queue_inv_def)

lemma work_take_inv:
  assumes "server_ok srv" and "sys_inv srv sys" and "rt_jobs (sy_rt sys) \<noteq> []" and "length (sy_batches sys) < worker_threads srv"
  shows "sys_inv srv (work_take srv sys)"
proof -
  define n where "n = (if ts_handler srv = Batch_handler then min 64 (length (rt_jobs (sy_rt sys))) else 1)"
  have q: "queue_inv srv (sy_rt sys)"
    using assms(2) by (simp add: sys_inv_def)
  obtain rt where t: "take_batch srv (sy_rt sys) = (take n (rt_jobs (sy_rt sys)), rt)" "rt_jobs rt = drop n (rt_jobs (sy_rt sys))" "queue_inv srv rt"
    using take_jobs_inv [OF assms(1) q, of n] unfolding take_batch_def n_def [symmetric] by (metis prod.collapse)
  have w: "work_take srv sys = sys\<lparr>sy_rt := rt, sy_batches := sy_batches sys @ [take n (rt_jobs (sy_rt sys))]\<rparr>"
    by (simp add: work_take_def t(1))
  have "ss_active (rt_stats (snd (take_jobs m rt'))) = ss_active (rt_stats rt')" for m rt'
    by (induction m arbitrary: rt') (auto simp: Let_def split_beta split: list.splits)
  then have act: "ss_active (rt_stats rt) = ss_active (rt_stats (sy_rt sys))"
    using t(1) by (metis take_batch_def snd_conv)
  have jobs: "all_jobs (work_take srv sys) = all_jobs sys"
    by (simp add: all_jobs_def w t(2))
  have one: "length (take n (rt_jobs (sy_rt sys))) = 1" if "ts_handler srv \<noteq> Batch_handler"
    using that assms(3) by (cases "rt_jobs (sy_rt sys)") (simp_all add: n_def)
  have "batches_ok srv (work_take srv sys)"
    using assms(2,4) one t(2) by (auto simp: sys_inv_def batches_ok_def w dest: in_set_takeD in_set_dropD)
  then show ?thesis
    by (rule_tac sys_inv_post [where sys = sys and ts = "\<lambda>_. []"])
      (use assms(2) t(3) act jobs in \<open>auto simp: w sys_inv_def same_frames_def\<close>)
qed

definition posted :: "nat \<Rightarrow> (job \<times> reply) list \<Rightarrow> io_task list" where
  "posted i jrs = map (\<lambda>(j, r). T_reply (jb_peer j) (jb_size j) (jb_framed j) r) (filter (\<lambda>(j, r). jb_io j = i) jrs)"

lemma fold_complete_length [simp]: "length (fold complete jrs ios) = length ios"
  by (induction jrs arbitrary: ios) (auto simp: complete_def)

lemma fold_complete_nth:
  "i < length ios \<Longrightarrow> fold complete jrs ios ! i = (fold Post (posted i jrs) (fst (ios ! i)), snd (ios ! i))"
proof (induction jrs arbitrary: ios)
  case (Cons jr jrs)
  then show ?case
    by (cases jr) (simp add: posted_def complete_def post_to_nth)
qed (simp add: posted_def)

lemma replies_posted: "replies_to k (posted i jrs) = replies_of i k jrs"
  by (induction jrs) (auto simp: posted_def replies_of_def split: if_splits)

lemma run_batch_shape:
  assumes "ts_handler srv \<noteq> Batch_handler \<Longrightarrow> length batch = 1" and "run_batch srv h bh us batch s rt = (replies, s', rt')"
  shows "length replies = length batch" and "rt_jobs rt' = rt_jobs rt" and "rt_queued_bytes rt' = rt_queued_bytes rt"
    and "ss_active (rt_stats rt') = ss_active (rt_stats rt)" and "queue_inv srv rt' = queue_inv srv rt"
  using assms by (auto simp: run_batch_def Let_def split_beta rbind_def throw_if_def queue_inv_def split: sum.splits if_splits)

lemma work_done_frames:
  assumes "n < length batches" and "length batches \<le> m" and "single \<longleftrightarrow> m = (1 :: nat)"
  shows "same_frames single (queued i k (js @ batches ! n @ concat (take n batches @ drop (Suc n) batches) @ js'))
    (queued i k (js @ concat batches @ js'))"
proof (cases single)
  case True
  with assms have "n = 0" "length batches = 1"
    by auto
  then show ?thesis
    by (cases batches) (auto simp: same_frames_def)
next
  case False
  have "concat batches = concat (take n batches) @ batches ! n @ concat (drop (Suc n) batches)"
    using id_take_nth_drop [OF assms(1)] by (metis concat.simps(2) concat_append)
  with False show ?thesis
    by (simp add: same_frames_def)
qed

lemma batches_ok_mono:
  assumes "batches_ok srv sys" and "set (sy_batches sys') \<subseteq> set (sy_batches sys)" and "length (sy_batches sys') \<le> length (sy_batches sys)"
    and "rt_jobs (sy_rt sys') = rt_jobs (sy_rt sys)" and "length (sy_ios sys') = length (sy_ios sys)"
  shows "batches_ok srv sys'"
  using assms unfolding batches_ok_def set_concat by fastforce

lemma work_done_inv:
  assumes "sys_inv srv sys" and "n < length (sy_batches sys)"
  shows "sys_inv srv (work_done srv handler batch_handler n us sys)"
proof -
  let ?b = "sy_batches sys ! n"
  obtain rs s rt where r: "run_batch srv handler batch_handler us ?b (sy_state sys) (sy_rt sys) = (rs, s, rt)"
    by (metis surj_pair)
  have ok: "batches_ok srv sys"
    using assms(1) by (simp add: sys_inv_def)
  then have "ts_handler srv \<noteq> Batch_handler \<Longrightarrow> length ?b = 1"
    using assms(2) by (simp add: batches_ok_def)
  note R = run_batch_shape [OF this r]
  let ?s = "work_done srv handler batch_handler n us sys"
  have w: "sy_rt ?s = rt" "sy_ios ?s = fold complete (zip ?b rs) (sy_ios sys)" "sy_running ?s = sy_running sys"
    "sy_batches ?s = take n (sy_batches sys) @ drop (Suc n) (sy_batches sys)" "sy_trace ?s = sy_trace sys @ zip ?b rs"
    by (simp_all add: work_done_def r Let_def)
  have b: "set ?b \<subseteq> set (concat (sy_batches sys))"
    using nth_mem [OF assms(2)] by auto
  have sub: "set (take n (sy_batches sys) @ drop (Suc n) (sy_batches sys)) \<subseteq> set (sy_batches sys)"
    by (auto dest: in_set_takeD in_set_dropD)
  then have "batches_ok srv ?s"
    using batches_ok_mono [OF ok, of ?s] R(2) assms(2) by (simp add: w)
  moreover have "\<forall>t \<in> set (posted i (zip ?b rs)). framed_task t" for i
    using ok b by (auto simp: posted_def batches_ok_def job_ok_def dest!: set_zip_leftD)
  moreover have "filter attaches (posted i (zip ?b rs)) = []" for i
    by (auto simp: posted_def filter_empty_conv)
  moreover have "same_frames (worker_threads srv = 1) (queued i k (all_jobs ?s)) (queued i k (all_jobs sys))" for i k
    using work_done_frames [OF assms(2), of "worker_threads srv" "worker_threads srv = 1" i k "map fst (sy_trace sys)"] ok R(1,2)
    by (simp add: all_jobs_def w batches_ok_def)
  moreover have "replies_of i k (sy_trace sys @ jrs) = replies_of i k (sy_trace sys) @ replies_to k (posted i jrs)" for i k jrs
    unfolding replies_posted by (simp add: replies_of_def)
  ultimately show ?thesis
    by (rule_tac sys_inv_post [where sys = sys and ts = "\<lambda>i. posted i (zip ?b rs)"])
      (use assms(1) R in \<open>auto simp: w sys_inv_def fold_complete_nth\<close>)
qed

lemma io_wake_inv:
  assumes "sys_inv srv sys" and "i < length (sy_ios sys)" and "sy_running sys ! i = []" and "io_view i sys = (l, a)"
  shows "sys_inv srv (set_io i (el_tasks l) (l\<lparr>el_wake := False, el_tasks := []\<rparr>, a) sys)"
  by (rule set_io_inv [OF assms(1,2)]) (simp add: assms(3,4) thread_inv_wake)

theorem sys_step_inv:
  assumes "server_ok srv" and "ts_max_connections srv < sz_mod" and "ts_sizer srv = Some sizer" and "sys_inv srv sys"
    and "sys_step srv handler batch_handler sys sys'"
  shows "sys_inv srv sys'"
  using assms(5,4)
proof (cases rule: sys_step.cases)
  case (io_wake i l a)
  then show ?thesis
    using io_wake_inv assms(4) by blast
next
  case (io_task i t R)
  then show ?thesis
    using set_io_inv [OF assms(4), of i R] exec_task_keeps [OF assms(1-3)] by simp
next
  case (io_event i k fd c events)
  then show ?thesis
    using set_io_inv [OF assms(4), of i "[]"] exec_callback_keeps [OF assms(1-3)] by simp
next
  case (io_timer i l a now t l')
  then show ?thesis
    using set_io_inv [OF assms(4), of i "[]"] due_timer_keeps [OF assms(2)] by simp
qed (use assms(1,2,4) in \<open>simp_all add: accept_ready_inv work_take_inv work_done_inv begin_finish_inv end_finish_inv\<close>)

end
