(* ===== verification/Server_Guarantees.thy ===== *)
theory Server_Guarantees
  imports Server_System Rpc_Protocol
begin

text \<open>
  What the running server guarantees, in every state it can reach: the streams of its connections,
  the order of its replies, and the limits on connections, queue and buffers.
\<close>

section \<open>Reachable states\<close>

definition config_ok :: "tcp_server \<Rightarrow> bool" where
  "config_ok srv \<longleftrightarrow> server_ok srv \<and> ts_max_connections srv < sz_mod \<and> 0 < so_io_threads (ts_options srv)"

lemma config_ok_new: "tcp_server_new port a c b = Inr srv \<Longrightarrow> c < sz_mod \<Longrightarrow> config_ok srv"
  using tcp_server_new_ok [of port a c b srv] by (auto simp: config_ok_def tcp_server_new_def default_options_def split: if_splits)

lemma config_ok_configure:
  "config_ok srv \<Longrightarrow> options_size opts \<Longrightarrow> fst (configure opts srv) = Inr () \<Longrightarrow> config_ok (snd (configure opts srv))"
  using configure_ok [of srv opts] by (auto simp: config_ok_def configure_def split: if_splits)

lemma sys_new_inv:
  assumes "config_ok srv" and "length envs = so_io_threads (ts_options srv)"
  shows "sys_inv srv (sys_new srv envs s)"
proof -
  have v: "io_view i (sys_new srv envs s) = (loop_new, io_new\<lparr>io_env := envs ! i\<rparr>)" if "i < length envs" for i
    using that by (simp add: io_view_def sys_new_def io_new_def)
  have "io_inv srv (loop_new, io_new\<lparr>io_env := e\<rparr>)" for e
    using io_inv_new [of srv] assms(1) by (simp add: config_ok_def io_inv_def)
  then have "io_ok srv (sys_new srv envs s) i" if "i < length envs" for i
    using that unfolding io_ok_def v [OF that]
    by (simp add: flow_inv_def flow_none_def duty_of_def sys_new_def queued_def replies_of_def io_new_def loop_new_def runtime_new_def)
  moreover have "total_conns (sys_new srv envs s) = 0"
    by (simp add: total_conns_def sys_new_def conns_def io_new_def loop_new_def)
  moreover have "queue_inv srv runtime_new"
    using assms(1) by (simp add: queue_inv_new config_ok_def)
  ultimately show ?thesis
    using assms by (auto simp: sys_inv_def sys_new_def batches_ok_def runtime_new_def stats_new_def config_ok_def)
qed

lemma sys_reachable_inv:
  assumes "config_ok srv" and "ts_sizer srv = Some sizer" and "sys_reachable srv handler batch_handler s sys"
  shows "sys_inv srv sys"
  using assms(3)
proof (induction rule: sys_reachable.induct)
  case (sys_start envs)
  then show ?case
    by (rule sys_new_inv [OF assms(1)])
next
  case (sys_next sys sys')
  then show ?case
    using sys_step_inv [OF _ _ assms(2)] assms(1) by (auto simp: config_ok_def)
qed

text \<open>
  An iteration of the event loop of an I/O thread is a sequence of these steps: it leads to a
  reachable state that differs from the one before only in what the thread owns and shares.
\<close>

lemma set_io_twice: "set_io i R st (set_io i R' st' sys) = set_io i R st sys"
  by (simp add: set_io_def)

lemma io_turn_reachable:
  assumes "sys_reachable srv handler batch_handler s sys" and "i < length (sy_ios sys)" and "sy_running sys ! i = []"
    and "length (sy_running sys) = length (sy_ios sys)"
  shows "\<exists>sys'. sys_reachable srv handler batch_handler s sys' \<and> io_view i sys' = io_turn srv i events clock (io_view i sys) \<and>
    (\<forall>R st. set_io i R st sys' = set_io i R st sys)"
proof -
  let ?P = "\<lambda>R st. \<exists>sys'. sys_reachable srv handler batch_handler s sys' \<and> io_view i sys' = st \<and> sy_running sys' ! i = R \<and>
    i < length (sy_ios sys') \<and> length (sy_running sys') = length (sy_ios sys') \<and> (\<forall>R st. set_io i R st sys' = set_io i R st sys)"
  have next_P: "?P R' st'" if "sys_reachable srv handler batch_handler s sys'" "i < length (sy_ios sys')"
    "length (sy_running sys') = length (sy_ios sys')" "\<forall>R st. set_io i R st sys' = set_io i R st sys"
    "sys_step srv handler batch_handler sys' (set_io i R' st' sys')" for sys' R' st'
  proof (intro exI conjI allI)
    show "sys_reachable srv handler batch_handler s (set_io i R' st' sys')"
      by (rule sys_next [OF that(1,5)])
    show "set_io i R st (set_io i R' st' sys') = set_io i R st sys" for R st
      using that(4) unfolding set_io_twice by blast
  qed (use that(2,3) in \<open>simp_all add: view_set_io\<close>)
  have "?P R (exec_task srv i t st)" if "?P (t # R) st" for t R st
    using that by (blast intro: next_P io_task)
  moreover have "?P [] (exec_callback srv i c ev st)" if "?P [] st" "el_watches (fst st) k = Some (fd, c)" for c ev st k fd
    using that by (blast intro: next_P io_event)
  moreover have "?P [] (exec_task srv i t (l', a))" if "?P [] (l, a)" "due_timer now l = (Some t, l')" for now l a t l'
    using that by (blast intro: next_P io_timer)
  moreover have "?P (el_tasks l) (l\<lparr>el_wake := False, el_tasks := []\<rparr>, a)" if "?P [] (l, a)" for l a
    using that by (blast intro: next_P io_wake)
  moreover have "?P [] (io_view i sys)"
    using assms by blast
  ultimately have "?P [] (io_turn srv i events clock (io_view i sys))"
    unfolding io_turn_def by (rule run_turn_keeps)
  then show ?thesis
    by blast
qed

section \<open>Handlers\<close>

text \<open>
  A handler that answers a frame \<open>b\<close> with \<open>f b\<close>, whatever its state, or fails. Of a batch handler
  the same is asked for every frame of a batch.
\<close>

definition answers ::
  "(bytes \<Rightarrow> bytes) \<Rightarrow> (bytes \<Rightarrow> 's \<Rightarrow> (bytes \<times> nat) result \<times> 's) \<Rightarrow> (bytes list \<Rightarrow> 's \<Rightarrow> reply list result \<times> 's) \<Rightarrow> bool" where
  "answers f handler batch_handler \<longleftrightarrow>
     (\<forall>b s bs n s'. handler b s = (Inr (bs, n), s') \<longrightarrow> bs = f b) \<and>
     (\<forall>inputs s rs s'. batch_handler inputs s = (Inr rs, s') \<longrightarrow> length rs = length inputs \<longrightarrow>
        list_all2 (\<lambda>b r. rp_close r \<or> rp_bytes r = f b) inputs rs)"

definition trace_answers :: "(bytes \<Rightarrow> bytes) \<Rightarrow> (job \<times> reply) list \<Rightarrow> bool" where
  "trace_answers f jrs \<longleftrightarrow> (\<forall>(j, r) \<in> set jrs. rp_close r \<or> rp_bytes r = f (jb_input j))"

lemma trace_answers_zip:
  "length rs = length js \<Longrightarrow> trace_answers f (zip js rs) \<longleftrightarrow> list_all2 (\<lambda>b r. rp_close r \<or> rp_bytes r = f b) (map jb_input js) rs"
  by (auto simp: trace_answers_def list_all2_iff zip_map1)

lemma run_batch_answers:
  assumes "answers f handler batch_handler" and "ts_handler srv \<noteq> Batch_handler \<Longrightarrow> length batch = 1"
    and "run_batch srv handler batch_handler us batch s rt = (rs, s', rt')"
  shows "trace_answers f (zip batch rs)"
proof -
  have len: "length rs = length batch"
    using run_batch_shape(1) [OF assms(2,3)] by blast
  show ?thesis
  proof (cases "ts_handler srv = Batch_handler")
    case True
    obtain r s1 where b: "batch_handler (map jb_input batch) s = (r, s1)"
      by (metis surj_pair)
    show ?thesis
    proof (cases "\<exists>replies. r = Inr replies \<and> length replies = length batch")
      case True
      with b assms(3) \<open>ts_handler srv = Batch_handler\<close> have "r = Inr rs"
        by (auto simp: run_batch_def Let_def rbind_def throw_if_def)
      then have "batch_handler (map jb_input batch) s = (Inr rs, s1)" "length rs = length (map jb_input batch)"
        using b len by simp_all
      then show ?thesis
        using assms(1) unfolding answers_def trace_answers_zip [OF len] by blast
    next
      case False
      with b assms(3) \<open>ts_handler srv = Batch_handler\<close>
      have "rs = replicate (length batch) \<lparr>rp_consumed = 0, rp_bytes = [], rp_close = True\<rparr>"
        by (cases r) (auto simp: run_batch_def Let_def rbind_def throw_if_def split: if_splits)
      then show ?thesis
        by (auto simp: trace_answers_def dest!: set_zip_rightD)
    qed
  next
    case False
    then obtain j where j: "batch = [j]"
      using assms(2) by (auto simp: length_Suc_conv)
    obtain r s1 where h: "handler (jb_input j) s = (r, s1)"
      by (metis surj_pair)
    have "bs = f (jb_input j)" if "r = Inr (bs, n)" for bs n
      using assms(1) h that unfolding answers_def by blast
    then show ?thesis
      using assms(3) False j h by (cases r) (auto simp: run_batch_def Let_def rbind_def trace_answers_def split: if_splits)
  qed
qed

lemma reachable_answers:
  assumes "config_ok srv" and "ts_sizer srv = Some sizer" and "answers f handler batch_handler"
    and "sys_reachable srv handler batch_handler s sys"
  shows "trace_answers f (sy_trace sys)"
  using assms(4)
proof (induction rule: sys_reachable.induct)
  case (sys_start envs)
  then show ?case
    by (simp add: sys_new_def trace_answers_def)
next
  case (sys_next sys sys')
  have inv: "sys_inv srv sys"
    by (rule sys_reachable_inv [OF assms(1,2) sys_next(1)])
  have accept: "sy_trace (snd (accept_ready srv n rs sys)) = sy_trace sys" for n rs and sys :: "'a server_sys"
  proof (induction rs arbitrary: n sys)
    case (Cons r rs)
    then show ?case
      by (cases r) (simp_all add: admit_def Let_def)
  qed simp
  from sys_next(2) show ?case
  proof (cases rule: sys_step.cases)
    case (worker_done n us)
    let ?b = "sy_batches sys ! n"
    obtain rs st rt where r: "run_batch srv handler batch_handler us ?b (sy_state sys) (sy_rt sys) = (rs, st, rt)"
      by (metis surj_pair)
    have "ts_handler srv \<noteq> Batch_handler \<Longrightarrow> length ?b = 1"
      using inv worker_done(2) by (simp add: sys_inv_def batches_ok_def)
    from run_batch_answers [OF assms(3) this r] sys_next(3) show ?thesis
      by (auto simp: worker_done(1) work_done_def r Let_def trace_answers_def)
  qed (use sys_next(3) accept in \<open>simp_all add: work_take_def begin_finish_def end_finish_def split_beta\<close>)
qed

section \<open>Guarantees\<close>

definition jobs_of :: "nat \<Rightarrow> nat \<Rightarrow> (job \<times> reply) list \<Rightarrow> (job \<times> reply) list" where
  "jobs_of i k jrs = filter (\<lambda>(j, r). jb_io j = i \<and> jb_peer j = k) jrs"

lemma queued_trace: "queued i k (map fst jrs) = map (\<lambda>(j, r). jb_input j) (jobs_of i k jrs)"
  by (simp add: queued_def jobs_of_def filter_map o_def case_prod_unfold)

lemma reachable_peer:
  assumes "config_ok srv" and "ts_sizer srv = Some sizer" and "sys_reachable srv handler batch_handler s sys"
    and "i < length (sy_ios sys)" and "\<not> io_failed (snd (sy_ios sys ! i))" and "io_peers (snd (sy_ios sys ! i)) k = Some p"
  shows "log_inv_at srv (io_log (snd (sy_ios sys ! i))) k p"
    and "same_frames (worker_threads srv = 1) (queued i k (all_jobs sys)) (rx_frames k (io_log (snd (sy_ios sys ! i))))"
    and "prefix (tx_replies k (io_log (snd (sy_ios sys ! i)))) (map snd (jobs_of i k (sy_trace sys)))"
proof -
  let ?v = "io_view i sys"
  have inv: "io_inv srv ?v" "flow_inv i (duty_of srv sys i) (sy_running sys ! i) ?v"
    using sys_reachable_inv [OF assms(1-3)] assms(4,5) by (auto simp: sys_inv_def io_ok_def io_view_def)
  then show "log_inv_at srv (io_log (snd (sy_ios sys ! i))) k p"
    using assms(6) by (simp add: io_inv_def io_view_def)
  have "flow_at i (duty_of srv sys i) (sy_running sys ! i) ?v k"
    using inv(2) assms(6) by (auto simp: flow_inv_def io_view_def)
  then show "same_frames (worker_threads srv = 1) (queued i k (all_jobs sys)) (rx_frames k (io_log (snd (sy_ios sys ! i))))"
    and "prefix (tx_replies k (io_log (snd (sy_ios sys ! i)))) (map snd (jobs_of i k (sy_trace sys)))"
    by (simp_all add: flow_at_def io_view_def duty_of_def all_jobs_def replies_of_def jobs_of_def)
qed

lemma answered_bytes:
  assumes "trace_answers f jrs" and "prefix rs (map snd jrs)" and "\<forall>r \<in> set rs. \<not> rp_close r"
  shows "map rp_bytes rs = map f (take (length rs) (map (\<lambda>(j, r). jb_input j) jrs))"
proof -
  have rs: "rs = take (length rs) (map snd jrs)"
    using assms(2) by (auto simp: prefix_def dest: sym)
  have "rp_bytes (snd jr) = f (case jr of (j, r) \<Rightarrow> jb_input j)" if "jr \<in> set (take (length rs) jrs)" for jr
  proof -
    have "snd jr \<in> set rs"
      using that rs by (metis image_eqI list.set_map take_map)
    moreover have "jr \<in> set jrs"
      using that by (rule in_set_takeD)
    ultimately show ?thesis
      using assms(1,3) by (cases jr) (auto simp: trace_answers_def)
  qed
  then have "map rp_bytes (map snd (take (length rs) jrs)) = map f (map (\<lambda>(j, r). jb_input j) (take (length rs) jrs))"
    by simp
  then show ?thesis
    using rs by (metis take_map)
qed

lemma reachable_stream:
  assumes "config_ok srv" and "ts_sizer srv = Some sizer" and "frame_sizer sizer" and "worker_threads srv = 1"
    and "answers f handler batch_handler" and "sys_reachable srv handler batch_handler s sys"
    and "i < length (sy_ios sys)" and "\<not> io_failed (snd (sy_ios sys ! i))" and "io_peers (snd (sy_ios sys ! i)) k = Some p"
  shows "prefix (tx_bytes k (io_log (snd (sy_ios sys ! i)))) (concat (map f (fst (frames sizer (rx_bytes k (io_log (snd (sy_ios sys ! i))))))))"
proof -
  define rs where "rs = tx_replies k (io_log (snd (sy_ios sys ! i)))"
  define fs where "fs = rx_frames k (io_log (snd (sy_ios sys ! i)))"
  note peer = reachable_peer [OF assms(1,2,6-9), folded rs_def fs_def]
  have rs: "map rp_bytes rs = map f (take (length rs) (map (\<lambda>(j, r). jb_input j) (jobs_of i k (sy_trace sys))))"
  proof (rule answered_bytes [OF _ peer(3)])
    show "trace_answers f (jobs_of i k (sy_trace sys))"
      using reachable_answers [OF assms(1,2,5,6)] by (auto simp: trace_answers_def jobs_of_def)
    show "\<forall>r \<in> set rs. \<not> rp_close r"
      using peer(1) by (simp add: peer_inv_def)
  qed
  have "prefix (map (\<lambda>(j, r). jb_input j) (jobs_of i k (sy_trace sys))) fs"
    using peer(2) assms(4) by (simp add: same_frames_def all_jobs_def queued_trace prefix_def) (metis append.assoc)
  moreover have "prefix fs (fst (frames sizer (rx_bytes k (io_log (snd (sy_ios sys ! i))))))"
    using peer(1) assms(2,3) by (auto simp: peer_inv_def in_inv_def)
  ultimately have "prefix (map rp_bytes rs) (map f (fst (frames sizer (rx_bytes k (io_log (snd (sy_ios sys ! i)))))))"
    unfolding rs by (meson map_mono_prefix prefix_order.trans take_is_prefix)
  then have "prefix (concat (map rp_bytes rs)) (concat (map f (fst (frames sizer (rx_bytes k (io_log (snd (sy_ios sys ! i))))))))"
    by (auto simp: prefix_def)
  moreover have "prefix (tx_bytes k (io_log (snd (sy_ios sys ! i)))) (concat (map rp_bytes rs))"
    using peer(1) by (auto simp: peer_inv_def out_inv_def prefix_def dest: sym)
  ultimately show ?thesis
    by (rule prefix_order.trans [rotated])
qed

section \<open>Executable runs\<close>

datatype sys_action =
  A_wake nat
| A_task nat
| A_event nat nat nat
| A_timer nat nat
| A_accept "accept_result list"
| A_take
| A_done nat nat
| A_finish

fun sys_exec ::
  "tcp_server \<Rightarrow> (bytes \<Rightarrow> 's \<Rightarrow> (bytes \<times> nat) result \<times> 's) \<Rightarrow> (bytes list \<Rightarrow> 's \<Rightarrow> reply list result \<times> 's) \<Rightarrow>
   sys_action \<Rightarrow> 's server_sys \<Rightarrow> 's server_sys option" where
  "sys_exec srv h bh (A_wake i) sys =
     (if i < length (sy_ios sys) \<and> sy_running sys ! i = []
      then Some (let (l, a) = io_view i sys in set_io i (el_tasks l) (l\<lparr>el_wake := False, el_tasks := []\<rparr>, a) sys) else None)"
| "sys_exec srv h bh (A_task i) sys =
     (if i < length (sy_ios sys)
      then case sy_running sys ! i of [] \<Rightarrow> None | t # R \<Rightarrow> Some (set_io i R (exec_task srv i t (io_view i sys)) sys) else None)"
| "sys_exec srv h bh (A_event i k events) sys =
     (if i < length (sy_ios sys) \<and> sy_running sys ! i = []
      then case el_watches (fst (io_view i sys)) k of
          None \<Rightarrow> None
        | Some (fd, c) \<Rightarrow> Some (set_io i [] (exec_callback srv i c events (io_view i sys)) sys)
      else None)"
| "sys_exec srv h bh (A_timer i now) sys =
     (if i < length (sy_ios sys) \<and> sy_running sys ! i = []
      then case due_timer now (fst (io_view i sys)) of
          (None, _) \<Rightarrow> None
        | (Some t, l) \<Rightarrow> Some (set_io i [] (exec_task srv i t (l, snd (io_view i sys))) sys)
      else None)"
| "sys_exec srv h bh (A_accept rs) sys = (if sy_accepting sys then Some (snd (accept_ready srv 128 rs sys)) else None)"
| "sys_exec srv h bh A_take sys =
     (if rt_jobs (sy_rt sys) \<noteq> [] \<and> length (sy_batches sys) < worker_threads srv then Some (work_take srv sys) else None)"
| "sys_exec srv h bh (A_done n us) sys = (if n < length (sy_batches sys) then Some (work_done srv h bh n us sys) else None)"
| "sys_exec srv h bh A_finish sys = Some (begin_finish sys)"

fun sys_run where
  "sys_run srv h bh [] sys = Some sys"
| "sys_run srv h bh (x # xs) sys = (case sys_exec srv h bh x sys of None \<Rightarrow> None | Some sys' \<Rightarrow> sys_run srv h bh xs sys')"

lemma sys_exec_step: "sys_exec srv h bh x sys = Some sys' \<Longrightarrow> sys_step srv h bh sys sys'"
proof (cases x)
  case (A_wake i)
  then show "sys_exec srv h bh x sys = Some sys' \<Longrightarrow> sys_step srv h bh sys sys'"
    using io_wake [of i sys "fst (io_view i sys)" "snd (io_view i sys)"] by (simp add: split_beta split: if_splits)
next
  case (A_timer i now)
  then show "sys_exec srv h bh x sys = Some sys' \<Longrightarrow> sys_step srv h bh sys sys'"
    using io_timer [of i sys "fst (io_view i sys)" "snd (io_view i sys)" now] by (auto split: if_splits prod.splits option.splits)
qed (auto split: if_splits list.splits option.splits intro: sys_step.intros)

lemma sys_run_reachable:
  "sys_reachable srv h bh s sys \<Longrightarrow> sys_run srv h bh xs sys = Some sys' \<Longrightarrow> sys_reachable srv h bh s sys'"
proof (induction xs arbitrary: sys)
  case (Cons x xs)
  then obtain sys1 where "sys_exec srv h bh x sys = Some sys1" "sys_run srv h bh xs sys1 = Some sys'"
    by (auto split: option.splits)
  then show ?case
    using Cons.IH sys_next [OF Cons.prems(1) sys_exec_step] by blast
qed simp

definition srv_example :: tcp_server where
  "srv_example =
     \<lparr>ts_port = 0, ts_max_connections = 1, ts_max_frame_bytes = 64,
      ts_options = \<lparr>so_io_threads = 1, so_workers = 1, so_queue_capacity = 4, so_queue_bytes = 256, so_output_bytes = 128, so_pipeline = 2,
        so_idle_timeout = 1000\<rparr>,
      ts_handler = One_handler, ts_sizer = Some RpcFrameSize, ts_stopping = False, ts_started = True\<rparr>"

definition echo :: "bytes \<Rightarrow> unit \<Rightarrow> (bytes \<times> nat) result \<times> unit" where
  "echo b s = (Inr (b, length b), s)"

definition no_batch :: "bytes list \<Rightarrow> unit \<Rightarrow> reply list result \<times> unit" where
  "no_batch inputs s = (Inl (Runtime_error ''bad_function_call''), s)"

definition frame_example :: bytes where
  "frame_example = chars ''KVR2'' @ [0, 0, 0, 0, 0, 0, 0, 0, 0, 0, 0, 1]"

definition env_example :: "io_input list" where
  "env_example = [no_input, no_input\<lparr>in_recv := [Got (frame_example @ frame_example @ [75])]\<rparr>, no_input\<lparr>in_send := [Sent 10]\<rparr>]"

definition run_example :: "unit server_sys option" where
  "run_example = sys_run srv_example echo no_batch
     [A_accept [Accepted 7, Accepted 8], A_wake 0, A_task 0, A_event 0 1 1, A_take, A_done 0 5, A_wake 0, A_task 0]
     (sys_new srv_example [env_example] ())"

lemma run_example_facts:
  "map_option (\<lambda>sys. (length (sy_ios sys), io_failed (snd (sy_ios sys ! 0)), map_option pr_pending (io_peers (snd (sy_ios sys ! 0)) 1),
     tx_bytes 1 (io_log (snd (sy_ios sys ! 0))))) run_example = Some (1, False, Some 1, take 10 frame_example)"
  by code_simp

lemma example_ok: "config_ok srv_example" "ts_sizer srv_example = Some RpcFrameSize" "worker_threads srv_example = 1"
  by (simp_all add: config_ok_def server_ok_def srv_example_def sz_mod_def worker_threads_def)

lemma answers_echo: "answers (\<lambda>b. b) echo no_batch"
  by (simp add: answers_def echo_def no_batch_def)

lemma example_reachable:
  obtains sys p where "run_example = Some sys" and "sys_reachable srv_example echo no_batch () sys" and "0 < length (sy_ios sys)"
    and "\<not> io_failed (snd (sy_ios sys ! 0))" and "io_peers (snd (sy_ios sys ! 0)) 1 = Some p"
    and "tx_bytes 1 (io_log (snd (sy_ios sys ! 0))) = take 10 frame_example"
proof -
  obtain sys where sys: "run_example = Some sys" "length (sy_ios sys) = 1" "\<not> io_failed (snd (sy_ios sys ! 0))"
    "map_option pr_pending (io_peers (snd (sy_ios sys ! 0)) 1) = Some 1"
    "tx_bytes 1 (io_log (snd (sy_ios sys ! 0))) = take 10 frame_example"
    using run_example_facts by (auto simp: map_option_case split: option.splits)
  have "sys_reachable srv_example echo no_batch () (sys_new srv_example [env_example] ())"
    by (rule sys_start) (simp add: srv_example_def)
  from sys_run_reachable [OF this sys(1) [unfolded run_example_def]]
  have r: "sys_reachable srv_example echo no_batch () sys" .
  obtain p where p: "io_peers (snd (sy_ios sys ! 0)) 1 = Some p"
    using sys(4) by blast
  have "0 < length (sy_ios sys)"
    using sys(2) by simp
  from that [OF sys(1) r this sys(3) p sys(5)] show thesis .
qed

section \<open>Properties\<close>

text \<open>
  C5. In every reachable state of the server, for every open connection of a running I/O thread:
  the frames handed to the workers are the first frames of the received stream, in order, and
  with the bytes still buffered they make up the whole stream; the bytes sent so far and the
  bytes still to be sent make up the replies accepted for the connection; these are the first of
  the replies the workers gave for frames of this connection. The input buffer, the output
  buffer and the number of unanswered frames stay within their limits.
\<close>

theorem connection_streams:
  assumes "config_ok srv" and "ts_sizer srv = Some sizer" and "frame_sizer sizer" and "sys_reachable srv handler batch_handler s sys"
    and "i < length (sy_ios sys)" and "\<not> io_failed (snd (sy_ios sys ! i))" and "io_peers (snd (sy_ios sys ! i)) k = Some p"
  shows "concat (rx_frames k (io_log (snd (sy_ios sys ! i)))) @ buf_data (pr_input p) = rx_bytes k (io_log (snd (sy_ios sys ! i))) \<and>
    prefix (rx_frames k (io_log (snd (sy_ios sys ! i)))) (fst (frames sizer (rx_bytes k (io_log (snd (sy_ios sys ! i)))))) \<and>
    tx_bytes k (io_log (snd (sy_ios sys ! i))) @ drop (pr_sent p) (concat (pr_output p)) =
      concat (map rp_bytes (tx_replies k (io_log (snd (sy_ios sys ! i))))) \<and>
    prefix (tx_replies k (io_log (snd (sy_ios sys ! i)))) (map snd (jobs_of i k (sy_trace sys))) \<and>
    mset (map (\<lambda>(j, r). jb_input j) (jobs_of i k (sy_trace sys))) \<subseteq># mset (rx_frames k (io_log (snd (sy_ios sys ! i)))) \<and>
    length (buf_data (pr_input p)) \<le> ts_max_frame_bytes srv \<and> pr_output_bytes p \<le> so_output_bytes (ts_options srv) \<and>
    pr_pending p \<le> pipeline_limit srv"
proof -
  note peer = reachable_peer [OF assms(1,2,4-7)]
  have "mset (map (\<lambda>(j, r). jb_input j) (jobs_of i k (sy_trace sys))) \<subseteq># mset (rx_frames k (io_log (snd (sy_ios sys ! i))))"
    using peer(2) by (auto simp: same_frames_def all_jobs_def queued_trace split: if_splits dest: sym)
  then show ?thesis
    using peer(1,3) assms(2,3) by (auto simp: peer_inv_def in_inv_def out_inv_def)
qed

theorem connection_streams_witness:
  "\<exists>sys p. run_example = Some sys \<and> io_peers (snd (sy_ios sys ! 0)) 1 = Some p \<and>
     tx_bytes 1 (io_log (snd (sy_ios sys ! 0))) @ drop (pr_sent p) (concat (pr_output p)) =
       concat (map rp_bytes (tx_replies 1 (io_log (snd (sy_ios sys ! 0)))))"
proof -
  obtain sys p where "run_example = Some sys" and r: "sys_reachable srv_example echo no_batch () sys" "0 < length (sy_ios sys)"
    "\<not> io_failed (snd (sy_ios sys ! 0))" "io_peers (snd (sy_ios sys ! 0)) 1 = Some p"
    by (rule example_reachable)
  with connection_streams [OF example_ok(1,2) rpc.frame_sizer_axioms r] show ?thesis
    by blast
qed

text \<open>
  C4. A server with one worker and a handler that answers a frame \<open>b\<close> with the bytes \<open>f b\<close>:
  what a connection has been sent is at every moment a prefix of the answers to the frames of
  what was received from it, in the order of the frames.
\<close>

theorem server_answers_in_order:
  assumes "config_ok srv" and "ts_sizer srv = Some sizer" and "frame_sizer sizer" and "worker_threads srv = 1"
    and "answers f handler batch_handler" and "sys_reachable srv handler batch_handler s sys"
    and "i < length (sy_ios sys)" and "\<not> io_failed (snd (sy_ios sys ! i))" and "io_peers (snd (sy_ios sys ! i)) k = Some p"
  shows "prefix (tx_bytes k (io_log (snd (sy_ios sys ! i)))) (concat (map f (fst (frames sizer (rx_bytes k (io_log (snd (sy_ios sys ! i))))))))"
  using assms by (rule reachable_stream)

theorem server_answers_in_order_witness:
  "\<exists>sys. run_example = Some sys \<and>
     prefix (take 10 frame_example) (concat (fst (frames RpcFrameSize (rx_bytes 1 (io_log (snd (sy_ios sys ! 0)))))))"
proof -
  obtain sys p where s: "run_example = Some sys" "tx_bytes 1 (io_log (snd (sy_ios sys ! 0))) = take 10 frame_example"
    and r: "sys_reachable srv_example echo no_batch () sys" "0 < length (sy_ios sys)"
    "\<not> io_failed (snd (sy_ios sys ! 0))" "io_peers (snd (sy_ios sys ! 0)) 1 = Some p"
    by (rule example_reachable)
  with server_answers_in_order [OF example_ok(1,2) rpc.frame_sizer_axioms example_ok(3) answers_echo r] show ?thesis
    by auto
qed

text \<open>
  C6. In every reachable state the open connections and the accepted ones that are not yet
  attached are covered by the counter of active connections, which is at most the configured
  limit. The job queue stays within its limits of jobs and bytes and its counters are exact, and
  no more batches are executed at once than there are workers.
\<close>

theorem server_limits:
  assumes "config_ok srv" and "ts_sizer srv = Some sizer" and "sys_reachable srv handler batch_handler s sys"
  shows "(\<Sum>i<length (sy_ios sys). card (dom (io_peers (snd (sy_ios sys ! i))))) \<le> ss_active (rt_stats (sy_rt sys)) \<and>
    ss_active (rt_stats (sy_rt sys)) \<le> ts_max_connections srv \<and>
    length (rt_jobs (sy_rt sys)) \<le> so_queue_capacity (ts_options srv) \<and> job_bytes (rt_jobs (sy_rt sys)) \<le> so_queue_bytes (ts_options srv) \<and>
    ss_queued_tasks (rt_stats (sy_rt sys)) = length (rt_jobs (sy_rt sys)) \<and>
    ss_queued_bytes (rt_stats (sy_rt sys)) = job_bytes (rt_jobs (sy_rt sys)) \<and>
    length (sy_batches sys) \<le> worker_threads srv"
proof -
  have inv: "sys_inv srv sys"
    by (rule sys_reachable_inv [OF assms])
  have "(\<Sum>i<length (sy_ios sys). card (dom (io_peers (snd (sy_ios sys ! i))))) \<le> total_conns sys"
    unfolding total_conns_def conns_def by (rule sum_mono) simp
  with inv show ?thesis
    by (simp add: sys_inv_def queue_inv_def batches_ok_def)
qed

theorem server_limits_witness:
  "\<exists>sys p. run_example = Some sys \<and> io_peers (snd (sy_ios sys ! 0)) 1 = Some p \<and> ss_active (rt_stats (sy_rt sys)) \<le> 1"
proof -
  obtain sys p where s: "run_example = Some sys" "io_peers (snd (sy_ios sys ! 0)) 1 = Some p"
    and r: "sys_reachable srv_example echo no_batch () sys"
    by (rule example_reachable)
  with server_limits [OF example_ok(1,2) r] show ?thesis
    by (auto simp: srv_example_def)
qed

end
