(* ===== verification/Server_Program.thy ===== *)
theory Server_Program
  imports Server_Guarantees Service_Recovery
begin

text \<open>
  The start of \<open>kv_server\<close> (\<open>KVCache/src/main.cpp\<close>): the reading of arguments and environment, the
  construction of the service, and the configuration of the TCP server. The environment is a
  function from names to C strings, the arguments are those after the program name.
\<close>

section \<open>Numbers\<close>

text \<open>
  \<open>std::stoull\<close> and \<open>std::stoi\<close> with base 10: white space, a sign and digits are read, and the
  number of bytes used is returned. \<open>stoull\<close> accepts a minus sign and negates modulo \<open>2 ^ 64\<close>.
\<close>

definition is_blank :: "8 word \<Rightarrow> bool" where
  "is_blank c \<longleftrightarrow> c = 32 \<or> 9 \<le> c \<and> c \<le> 13"

definition is_digit :: "8 word \<Rightarrow> bool" where
  "is_digit c \<longleftrightarrow> 48 \<le> c \<and> c \<le> 57"

definition decimal :: "bytes \<Rightarrow> nat" where
  "decimal ds = foldl (\<lambda>v d. 10 * v + (unat d - 48)) 0 ds"

definition read_sign :: "bytes \<Rightarrow> bool \<times> bytes" where
  "read_sign bs = (case bs of [] \<Rightarrow> (False, [])
     | c # r \<Rightarrow> if c = 45 then (True, r) else if c = 43 then (False, r) else (False, c # r))"

definition scan_number :: "bytes \<Rightarrow> (bool \<times> nat \<times> nat) option" where
  "scan_number bs =
     (let (negative, r) = read_sign (dropWhile is_blank bs); ds = takeWhile is_digit r
      in if ds = [] then None else Some (negative, decimal ds, length bs - length r + length ds))"

definition stoull :: "bytes \<Rightarrow> (nat \<times> nat) result" where
  "stoull bs = (case scan_number bs of
       None \<Rightarrow> Inl (Invalid_argument ''stoull'')
     | Some (negative, v, used) \<Rightarrow>
         if v \<ge> sz_mod then Inl (Out_of_range ''stoull'')
         else Inr (if negative then (sz_mod - v) mod sz_mod else v, used))"

definition stoi :: "bytes \<Rightarrow> (int \<times> nat) result" where
  "stoi bs = (case scan_number bs of
       None \<Rightarrow> Inl (Invalid_argument ''stoi'')
     | Some (negative, v, used) \<Rightarrow>
         let i = (if negative then - int v else int v)
         in if i < - (2 ^ 31) \<or> i \<ge> 2 ^ 31 then Inl (Out_of_range ''stoi'') else Inr (i, used))"

section \<open>Settings and arguments\<close>

type_synonym environment = "string \<Rightarrow> bytes option"

definition Setting :: "environment \<Rightarrow> string \<Rightarrow> nat \<Rightarrow> nat result" where
  "Setting env name fallback = (case env name of
       None \<Rightarrow> Inr fallback
     | Some str \<Rightarrow>
         if str = [] \<or> hd str = 45 then Inl (Invalid_argument name)
         else rbind (stoull str) (\<lambda>(n, used).
              if n = 0 \<or> used \<noteq> length str then Inl (Invalid_argument name) else Inr n))"

definition main_port :: "bytes list \<Rightarrow> int result" where
  "main_port args =
     (let port_text = (case args of [] \<Rightarrow> chars ''8080'' | a # _ \<Rightarrow> a)
      in rbind (stoi port_text) (\<lambda>(port, parsed).
           if parsed \<noteq> length port_text \<or> port < 1 \<or> port > 65535 then Inl (Invalid_argument ''Invalid port'')
           else Inr port))"

text \<open>
  The order in which C++ evaluates the arguments of the constructor is not specified; it only
  decides which of several invalid settings is reported.
\<close>

definition main_limits :: "environment \<Rightarrow> (nat \<times> nat \<times> nat \<times> nat) result" where
  "main_limits env =
     rbind (Setting env ''KVRPC_CACHE_ENTRIES'' 1000) (\<lambda>entries.
     rbind (Setting env ''KVRPC_CACHE_SHARDS'' 16) (\<lambda>shards.
     rbind (Setting env ''KVRPC_AOF_BYTES'' (1024 * 1024 * 1024)) (\<lambda>aof_bytes.
     rbind (Setting env ''KVRPC_CACHE_BYTES'' (64 * 1024 * 1024)) (\<lambda>cache_bytes.
       Inr (entries, shards, aof_bytes, cache_bytes)))))"

definition main_sync :: "bytes list \<Rightarrow> bytes result" where
  "main_sync args =
     (let sync = (if length args > 3 then args ! 3 else chars ''group'')
      in if sync \<noteq> chars ''group'' \<and> sync \<noteq> chars ''always''
         then Inl (Invalid_argument ''Sync mode must be group or always'') else Inr sync)"

text \<open>\<open>std::chrono::milliseconds\<close> counts with a signed 64-bit integer.\<close>

definition milliseconds :: "nat \<Rightarrow> int" where
  "milliseconds n = (if n < 2 ^ 63 then int n else int n - 2 ^ 64)"

definition main_options :: "environment \<Rightarrow> server_options result" where
  "main_options env =
     rbind (Setting env ''KVRPC_IO_THREADS'' 2) (\<lambda>io_threads.
     rbind (Setting env ''KVRPC_QUEUE_CAPACITY'' 1024) (\<lambda>queue_capacity.
     rbind (Setting env ''KVRPC_QUEUE_BYTES'' (64 * 1024 * 1024)) (\<lambda>queue_bytes.
     rbind (Setting env ''KVRPC_OUTPUT_BYTES'' (8 * 1024 * 1024)) (\<lambda>output_bytes.
     rbind (Setting env ''KVRPC_IDLE_MS'' 30000) (\<lambda>idle.
       Inr \<lparr>so_io_threads = io_threads, so_workers = 1, so_queue_capacity = queue_capacity, so_queue_bytes = queue_bytes,
            so_output_bytes = output_bytes, so_pipeline = 1, so_idle_timeout = milliseconds idle\<rparr>)))))"

section \<open>The program\<close>

definition metrics_text :: "server_stats \<Rightarrow> bytes" where
  "metrics_text s =
     chars '', Active connections: '' @ dec (ss_active s) @ chars '', Rejected: '' @ dec (ss_rejected s) @
     chars '', Queued tasks: '' @ dec (ss_queued_tasks s) @ chars '', Queued bytes: '' @ dec (ss_queued_bytes s) @
     chars '', Timeouts: '' @ dec (ss_timeouts s) @ chars '', Handler us: '' @ dec (ss_handler_us s) @
     chars '', Handler errors: '' @ dec (ss_handler_errors s)"

text \<open>The bind address is checked by \<open>inet_pton\<close>, whose answer is \<open>address_ok\<close>.\<close>

definition main_server :: "environment \<Rightarrow> bool \<Rightarrow> int \<Rightarrow> bytes list \<Rightarrow> tcp_server result" where
  "main_server env address_ok port args =
     rbind (main_sync args) (\<lambda>sync.
     rbind (Setting env ''KVRPC_CONNECTIONS'' 4096) (\<lambda>connections.
     rbind (tcp_server_new port address_ok connections MAX_FRAME_SIZE) (\<lambda>srv0.
     rbind (main_options env) (\<lambda>options.
     let (r, srv1) = configure options srv0; srv2 = setFrameSizer kv_frame_size srv1
     in rbind r (\<lambda>_. Inr (if sync = chars ''group'' then setBatchHandler srv2 else setHandler srv2))))))"

text \<open>
  From the start to the call of \<open>start\<close>. \<open>masked\<close> says whether \<open>pthread_sigmask\<close> succeeded, and
  \<open>stats i\<close> is what \<open>server.stats\<close> returns at the time of the \<open>i\<close>-th request of a batch. With
  \<open>--help\<close> the program ends without a server. When a later step throws, the destructors run;
  they stop the logger and close its file, which does not change the log.
\<close>

definition main_start ::
  "(bytes \<Rightarrow> nat) \<Rightarrow> codec \<Rightarrow> nat \<Rightarrow> environment \<Rightarrow> bool \<Rightarrow> bool \<Rightarrow> (nat \<Rightarrow> server_stats) \<Rightarrow> bytes list \<Rightarrow> world \<Rightarrow>
    (service \<times> tcp_server) option io \<times> world" where
  "main_start hash cd now env masked address_ok stats args =
     (if args \<noteq> [] \<and> hd args = chars ''--help'' then ireturn None
      else
        iobind (of_result (throw_if (length args > 4) (Invalid_argument ''Too many arguments; use --help''))) (\<lambda>_.
        iobind (of_result (main_port args)) (\<lambda>port.
        iobind (of_result (throw_if (\<not> masked) (Runtime_error ''Cannot block signals''))) (\<lambda>_.
        iobind (of_result (main_limits env)) (\<lambda>(entries, shards, aof_bytes, cache_bytes).
        iobind (service_new hash cd now entries shards aof_bytes cache_bytes) (\<lambda>sv.
        iobind (of_result (main_server env address_ok port args)) (\<lambda>srv.
          ireturn (Some (SetTransportMetrics (Some (\<lambda>i. metrics_text (stats i))) sv, srv)))))))))"

text \<open>
  The shutdown thread: each turn reads \<open>done\<close> and then waits for a signal, \<open>-1\<close> standing for a
  timeout.
\<close>

definition SIGINT :: int where
  "SIGINT = 2"

definition SIGTERM :: int where
  "SIGTERM = 15"

fun shutdown_thread :: "(bool \<times> int) list \<Rightarrow> tcp_server \<Rightarrow> tcp_server" where
  "shutdown_thread [] srv = srv"
| "shutdown_thread ((finished, signal) # turns) srv =
     (if finished then srv
      else if signal = SIGINT \<or> signal = SIGTERM then server_stop srv
      else shutdown_thread turns srv)"

section \<open>Lemmas on numbers\<close>

lemma decimal_snoc: "decimal (ds @ [d]) = 10 * decimal ds + (unat d - 48)"
  by (simp add: decimal_def)

lemma digit_byte:
  assumes "k < 10"
  shows "unat (48 + of_nat k :: 8 word) = 48 + k"
  using assms by (simp add: unat_word_ariths unat_of_nat)

lemma is_digit_unat: "is_digit c \<longleftrightarrow> 48 \<le> unat c \<and> unat c \<le> 57"
  by (simp add: is_digit_def word_le_nat_alt)

lemma dec_digits: "list_all is_digit (dec n) \<and> dec n \<noteq> [] \<and> decimal (dec n) = n"
proof (induction n rule: less_induct)
  case (less n)
  show ?case
  proof (cases "n < 10")
    case True
    then show ?thesis
      using digit_byte [OF True] by (simp add: dec.simps [of n] is_digit_unat decimal_def)
  next
    case False
    with less [of "n div 10"] digit_byte [of "n mod 10"] show ?thesis
      by (simp add: dec.simps [of n] is_digit_unat decimal_snoc)
  qed
qed

lemma takeWhile_dec [simp]: "takeWhile is_digit (dec n) = dec n"
  using dec_digits [of n] by (simp add: list_all_iff)

lemma dec_first: "\<exists>c r. dec n = c # r \<and> is_digit c"
  using dec_digits [of n] by (cases "dec n") auto

lemma digit_not: "is_digit c \<Longrightarrow> \<not> is_blank c \<and> c \<noteq> 45 \<and> c \<noteq> 43"
  by (auto simp: is_digit_unat is_blank_def word_le_nat_alt word_unat_eq_iff)

lemma scan_dec: "scan_number (dec n) = Some (False, n, length (dec n))"
proof -
  obtain c r where cr: "dec n = c # r" "is_digit c"
    using dec_first by blast
  then have "read_sign (dropWhile is_blank (dec n)) = (False, dec n)"
    using digit_not [of c] by (simp add: read_sign_def)
  then show ?thesis
    using dec_digits [of n] by (simp add: scan_number_def)
qed

lemma scan_minus_dec: "scan_number (32 # 45 # dec n) = Some (True, n, length (dec n) + 2)"
  using dec_digits [of n] by (simp add: scan_number_def read_sign_def is_blank_def)

lemma stoull_less: "stoull str = Inr (n, used) \<Longrightarrow> n < sz_mod"
  by (auto simp: stoull_def sz_mod_def split: option.splits if_splits)

lemma Setting_bounds:
  assumes "Setting env name fallback = Inr n" and "0 < fallback" and "fallback < sz_mod"
  shows "0 < n \<and> n < sz_mod"
  using assms stoull_less by (auto simp: Setting_def split: option.splits if_splits)

text \<open>
  C40. A setting that is absent has its default, and one that is the decimal numeral of a positive
  \<open>size_t\<close> has that value. A setting that is read is always positive and below \<open>2 ^ 64\<close>. A
  negative number is refused when the minus sign is the first byte, but after a blank it is read
  and wraps around: \<open>-n\<close> counts as \<open>2 ^ 64 - n\<close>.
\<close>

theorem setting_values:
  assumes "0 < n" and "n < 2 ^ 64"
  shows "(env name = None \<longrightarrow> Setting env name fallback = Inr fallback) \<and>
    (env name = Some (dec n) \<longrightarrow> Setting env name fallback = Inr n) \<and>
    (\<forall>str m. env name = Some str \<and> Setting env name fallback = Inr m \<longrightarrow> 0 < m \<and> m < 2 ^ 64) \<and>
    (env name = Some (chars ''-'' @ dec n) \<longrightarrow> Setting env name fallback = Inl (Invalid_argument name)) \<and>
    (env name = Some (chars '' -'' @ dec n) \<longrightarrow> Setting env name fallback = Inr (2 ^ 64 - n))"
proof -
  have n: "\<not> n \<ge> sz_mod" "(sz_mod - n) mod sz_mod = 2 ^ 64 - n" "2 ^ 64 - n \<noteq> 0"
    using assms by (simp_all add: sz_mod_def)
  have d: "hd (dec n) \<noteq> 45" "dec n \<noteq> []" "n \<noteq> 0"
    using dec_first [of n] digit_not assms(1) by auto
  have "stoull (dec n) = Inr (n, length (dec n))" "stoull (chars '' -'' @ dec n) = Inr (2 ^ 64 - n, length (dec n) + 2)"
    using n by (simp_all add: stoull_def scan_dec scan_minus_dec chars_def)
  then have "env name = Some (dec n) \<Longrightarrow> Setting env name fallback = Inr n"
      "env name = Some (chars '' -'' @ dec n) \<Longrightarrow> Setting env name fallback = Inr (2 ^ 64 - n)"
    using d n(3) by (simp_all add: Setting_def chars_def)
  moreover have "env name = Some (chars ''-'' @ dec n) \<Longrightarrow> Setting env name fallback = Inl (Invalid_argument name)"
      "env name = None \<Longrightarrow> Setting env name fallback = Inr fallback"
    by (simp_all add: Setting_def chars_def)
  moreover have "0 < m \<and> m < 2 ^ 64" if "env name = Some str" "Setting env name fallback = Inr m" for str m
    using that stoull_less [of str m] by (auto simp: Setting_def sz_mod_def split: if_splits)
  ultimately show ?thesis
    by blast
qed

theorem setting_values_witness:
  "Setting [''KVRPC_CONNECTIONS'' \<mapsto> chars ''-'' @ dec 5] ''KVRPC_CONNECTIONS'' 4096 = Inl (Invalid_argument ''KVRPC_CONNECTIONS'') \<and>
   Setting [''KVRPC_CONNECTIONS'' \<mapsto> chars '' -'' @ dec 5] ''KVRPC_CONNECTIONS'' 4096 = Inr (2 ^ 64 - 5)"
proof -
  note v = setting_values [of 5 _ "''KVRPC_CONNECTIONS''" 4096]
  show ?thesis
    using v [of "[''KVRPC_CONNECTIONS'' \<mapsto> chars ''-'' @ dec 5]"] v [of "[''KVRPC_CONNECTIONS'' \<mapsto> chars '' -'' @ dec 5]"]
    by simp
qed

text \<open>The thread stops the server when SIGINT or SIGTERM arrives before the server has ended by itself.\<close>

lemma shutdown_thread_stops:
  "ts_stopping (shutdown_thread turns srv) \<longleftrightarrow>
     ts_stopping srv \<or> list_ex (\<lambda>turn. snd turn = SIGINT \<or> snd turn = SIGTERM) (takeWhile (\<lambda>turn. \<not> fst turn) turns)"
  by (induction turns srv rule: shutdown_thread.induct) (simp_all add: server_stop_def)

section \<open>The configured server\<close>

lemma decodeHeader_append: "HEADER_SIZE \<le> length bs \<Longrightarrow> decodeHeader (bs @ r) = decodeHeader bs"
  by (simp add: decodeHeader_def HEADER_SIZE_def nth_append)

interpretation kv: frame_sizer kv_frame_size
  by unfold_locales (auto simp: kv_frame_size_def decodeHeader_append Let_def split: if_splits)

definition counters_ok :: "server_stats \<Rightarrow> bool" where
  "counters_ok s \<longleftrightarrow> ss_active s < sz_mod \<and> ss_rejected s < sz_mod \<and> ss_queued_tasks s < sz_mod \<and> ss_queued_bytes s < sz_mod \<and>
     ss_timeouts s < sz_mod \<and> ss_handler_us s < sz_mod \<and> ss_handler_errors s < sz_mod"

lemma metrics_text_ok:
  assumes "\<And>i. counters_ok (stats i)"
  shows "metrics_ok (Some (\<lambda>i. metrics_text (stats i)))"
proof -
  have "length (metrics_text (stats i)) \<le> 300" for i
  proof -
    note c = assms [of i, unfolded counters_ok_def]
    have "length (dec (ss_active (stats i))) \<le> 20" "length (dec (ss_rejected (stats i))) \<le> 20"
      "length (dec (ss_queued_tasks (stats i))) \<le> 20" "length (dec (ss_queued_bytes (stats i))) \<le> 20"
      "length (dec (ss_timeouts (stats i))) \<le> 20" "length (dec (ss_handler_us (stats i))) \<le> 20"
      "length (dec (ss_handler_errors (stats i))) \<le> 20"
      using c dec_length_64 by blast+
    then show ?thesis
      by (simp add: metrics_text_def chars_def)
  qed
  then have "length (metrics_text (stats i)) \<le> MAX_VALUE_SIZE - 400" for i
    by (rule order_trans) (simp add: MAX_VALUE_SIZE_def)
  then show ?thesis
    by (simp add: metrics_ok_def metrics_small_def)
qed

lemma main_options_size:
  assumes "main_options env = Inr opts"
  shows "options_size opts" and "so_workers opts = 1" and "so_pipeline opts = 1"
proof -
  obtain io_threads capacity queue_bytes output_bytes idle where
    s: "Setting env ''KVRPC_QUEUE_CAPACITY'' 1024 = Inr capacity" "Setting env ''KVRPC_QUEUE_BYTES'' (64 * 1024 * 1024) = Inr queue_bytes"
      "Setting env ''KVRPC_OUTPUT_BYTES'' (8 * 1024 * 1024) = Inr output_bytes"
    and opts: "opts = \<lparr>so_io_threads = io_threads, so_workers = 1, so_queue_capacity = capacity, so_queue_bytes = queue_bytes,
      so_output_bytes = output_bytes, so_pipeline = 1, so_idle_timeout = milliseconds idle\<rparr>"
    using assms unfolding main_options_def rbind_eq_Inr by blast
  show "options_size opts"
    using s [THEN Setting_bounds] by (simp add: opts options_size_def sz_mod_def)
  show "so_workers opts = 1" "so_pipeline opts = 1"
    by (simp_all add: opts)
qed

lemma main_port_range: "main_port args = Inr port \<Longrightarrow> 1 \<le> port \<and> port \<le> 65535"
  by (auto simp: main_port_def Let_def split: if_splits)

lemma main_server_ok:
  assumes "main_server env address_ok port args = Inr srv"
  shows "config_ok srv" and "ts_sizer srv = Some kv_frame_size" and "worker_threads srv = 1" and "pipeline_limit srv = 1"
    and "ts_port srv = port" and "ts_handler srv = (if main_sync args = Inr (chars ''group'') then Batch_handler else One_handler)"
    and "fst (server_start srv) = Inr ()"
proof -
  obtain sync connections srv0 options where m: "main_sync args = Inr sync"
      "Setting env ''KVRPC_CONNECTIONS'' 4096 = Inr connections" "tcp_server_new port address_ok connections MAX_FRAME_SIZE = Inr srv0"
      "main_options env = Inr options" "fst (configure options srv0) = Inr ()"
    and srv: "srv = (if sync = chars ''group'' then setBatchHandler else setHandler) (setFrameSizer kv_frame_size (snd (configure options srv0)))"
    using assms by (auto simp: main_server_def split_beta Let_def)
  have "connections < sz_mod"
    using Setting_bounds [OF m(2)] by (simp add: sz_mod_def)
  then have "config_ok (snd (configure options srv0))"
    using config_ok_configure config_ok_new [OF m(3)] main_options_size(1) [OF m(4)] m(5) by blast
  then show "config_ok srv"
    by (simp add: srv config_ok_def server_ok_def setFrameSizer_def setBatchHandler_def setHandler_def)
  have o: "ts_options (snd (configure options srv0)) = options" "ts_port (snd (configure options srv0)) = ts_port srv0"
      "ts_started (snd (configure options srv0)) = ts_started srv0" "ts_port srv0 = port" "\<not> ts_started srv0"
    using m(3,5) by (auto simp: configure_def tcp_server_new_def split: if_splits)
  note defs = srv o main_options_size [OF m(4)] m(1) setFrameSizer_def setBatchHandler_def setHandler_def
  show "ts_sizer srv = Some kv_frame_size" "worker_threads srv = 1" "pipeline_limit srv = 1" "ts_port srv = port"
      "ts_handler srv = (if main_sync args = Inr (chars ''group'') then Batch_handler else One_handler)"
      "fst (server_start srv) = Inr ()"
    by (simp_all add: defs worker_threads_def pipeline_limit_def server_start_def)
qed

text \<open>What has happened when the program reaches the call of \<open>start\<close>.\<close>

lemma main_startD:
  assumes "main_start hash cd now env masked address_ok stats args w = (Done (Some (sv, srv)), w')"
  obtains port entries shards aof_bytes cache_bytes sv0 where "main_port args = Inr port"
    and "main_limits env = Inr (entries, shards, aof_bytes, cache_bytes)"
    and "service_new hash cd now entries shards aof_bytes cache_bytes w = (Done sv0, w')"
    and "main_server env address_ok port args = Inr srv" and "sv = sv0\<lparr>sv_metrics := Some (\<lambda>i. metrics_text (stats i))\<rparr>"
  using assms
  by (auto simp: main_start_def iobind_Done ireturn_def SetTransportMetrics_def split: if_splits prod.splits)

lemma main_start_inv:
  assumes "main_start hash cd now env masked address_ok stats args w = (Done (Some (sv, srv)), w')"
    and "service_inv hash cd now (sv\<lparr>sv_metrics := None\<rparr>) w' st" and "\<And>i. counters_ok (stats i)"
  shows "service_inv hash cd now sv w' st"
proof -
  have "metrics_ok (sv_metrics sv)"
    using metrics_text_ok [of stats, OF assms(3)] by (rule_tac main_startD [OF assms(1)]) simp
  then show ?thesis
    using assms(2) by (simp add: service_inv_def)
qed

end
