(* ===== verification/Program_History.thy ===== *)
theory Program_History
  imports Server_Program
begin

text \<open>
  The running \<open>kv_server\<close>: the TCP server of \<open>Server_System\<close> with the handlers that \<open>main.cpp\<close>
  installs, which call the cache service. Every connection is answered in the order of its
  requests, and the answers to all connections together are those of a single map.
\<close>

section \<open>The handlers\<close>

text \<open>
  \<open>kv_turns\<close> counts the calls of a handler. \<open>clock n\<close> holds the clock readings of call \<open>n\<close>: during
  validation, for a compaction, and while requests are applied. \<open>kv_halted\<close> records that the
  machine stopped during a call; no statement is made about what such a state leads to.
\<close>

record kv_state =
  kv_service :: service
  kv_world :: world
  kv_turns :: nat
  kv_halted :: bool

type_synonym clock = "nat \<Rightarrow> (nat \<Rightarrow> nat) \<times> nat \<times> (nat \<Rightarrow> nat)"

definition kv_state_new :: "service \<Rightarrow> world \<Rightarrow> kv_state" where
  "kv_state_new sv w = \<lparr>kv_service = sv, kv_world = w, kv_turns = 0, kv_halted = False\<rparr>"

definition kv_return :: "'a io \<times> service \<times> world \<Rightarrow> kv_state \<Rightarrow> 'a result \<times> kv_state" where
  "kv_return out s = (case out of (r, sv, w) \<Rightarrow>
     let s' = s\<lparr>kv_service := sv, kv_world := w, kv_turns := Suc (kv_turns s)\<rparr>
     in case r of Done x \<Rightarrow> (Inr x, s') | Throws e \<Rightarrow> (Inl e, s')
        | Halted \<Rightarrow> (Inl (Runtime_error ''''), s'\<lparr>kv_halted := True\<rparr>))"

definition kv_batch_handler :: "(bytes \<Rightarrow> nat) \<Rightarrow> codec \<Rightarrow> clock \<Rightarrow> bytes list \<Rightarrow> kv_state \<Rightarrow> reply list result \<times> kv_state" where
  "kv_batch_handler hash cd clock inputs s =
     (case clock (kv_turns s) of (tv, tc, ta) \<Rightarrow>
        kv_return (HandleBatch hash cd tv tc ta inputs (kv_service s) (kv_world s)) s)"

definition kv_handler :: "(bytes \<Rightarrow> nat) \<Rightarrow> codec \<Rightarrow> clock \<Rightarrow> bytes \<Rightarrow> kv_state \<Rightarrow> (bytes \<times> nat) result \<times> kv_state" where
  "kv_handler hash cd clock data s =
     (case clock (kv_turns s) of (tv, tc, ta) \<Rightarrow>
        kv_return (Handle hash cd (tv 0) tc (ta 0) data (kv_service s) (kv_world s)) s)"

text \<open>The clock does not run backwards from call to call; a batch has at most 64 requests.\<close>

definition clocks_ok :: "nat \<Rightarrow> clock \<Rightarrow> bool" where
  "clocks_ok now clock \<longleftrightarrow> now \<le> fst (snd (clock 0)) \<and>
     (\<forall>n. case clock n of (tv, tc, ta) \<Rightarrow>
        tc \<le> ta 0 \<and> mono ta \<and> (\<forall>j. clock_ok (tv j)) \<and> ta 64 \<le> fst (snd (clock (Suc n))))"

section \<open>Histories of a map\<close>

text \<open>
  A list of frames and replies is a history of a map when every reply is a refusal, which leaves
  the map as it is, or the answer to the request in the frame on the map as it is then.
\<close>

inductive kv_history :: "(bytes \<Rightarrow> nat) \<Rightarrow> codec \<Rightarrow> store \<Rightarrow> (bytes \<times> reply) list \<Rightarrow> store \<Rightarrow> bool" for hash cd st where
  history_start: "kv_history hash cd st [] st"
| history_answer: "kv_history hash cd st trace m \<Longrightarrow> check_request hash cd tv cache b = Inr (Valid q n ms) \<Longrightarrow>
    allowed_response cd ta m q resp \<Longrightarrow> encode (rq_command q) (rq_key q) resp = Inr bs \<Longrightarrow>
    kv_history hash cd st (trace @ [(b, \<lparr>rp_consumed = n, rp_bytes = bs, rp_close = False\<rparr>)]) (req_step q m)"
| history_refuse: "kv_history hash cd st trace m \<Longrightarrow> rp_consumed r = 0 \<Longrightarrow> rp_bytes r = [] \<Longrightarrow> kv_history hash cd st (trace @ [(b, r)]) m"

lemma history_refuse_all:
  assumes "kv_history hash cd st trace m"
  shows "kv_history hash cd st (trace @ map (\<lambda>b. (b, \<lparr>rp_consumed = 0, rp_bytes = [], rp_close = True\<rparr>)) bs) m"
proof (induction bs rule: rev_induct)
  case (snoc b bs)
  from history_refuse [OF snoc, of "\<lparr>rp_consumed = 0, rp_bytes = [], rp_close = True\<rparr>" b] show ?case
    by simp
qed (simp add: assms)

lemma check_request_total: "check_request hash cd t cache b = Inr (Valid q n ms) \<Longrightarrow> 0 < n"
  by (auto simp: check_request_def Let_def frame_total_def HEADER_SIZE_def split: if_splits option.splits)

lemma served_history:
  assumes "validate_inputs hash cd tv cache i inputs = Inr (rs, ms)" and "served cd ta i m rs replies"
    and "kv_history hash cd st trace m"
  shows "kv_history hash cd st (trace @ zip inputs replies) (run_store rs m)"
  using assms
proof (induction inputs arbitrary: i rs ms m replies trace)
  case (Cons b inputs)
  obtain q rep rs' ms' where rs: "rs = (q, rep) # rs'" and v: "validate_inputs hash cd tv cache (Suc i) inputs = Inr (rs', ms')"
    and qr: "rep = default_reply \<or> rep = default_reply\<lparr>rp_close := True\<rparr> \<or>
      (\<exists>n ms1. rep = default_reply\<lparr>rp_consumed := n\<rparr> \<and> check_request hash cd (tv i) cache b = Inr (Valid q n ms1))"
    using Cons.prems(1) by (auto split: sum.splits verdict.splits if_splits)
  obtain rep' replies' where r: "replies = rep' # replies'"
    using Cons.prems(2) rs by (cases replies) auto
  show ?case
  proof (cases "accepted rep")
    case True
    then obtain n ms1 where n: "rep = default_reply\<lparr>rp_consumed := n\<rparr>" "check_request hash cd (tv i) cache b = Inr (Valid q n ms1)"
      using qr by (auto simp: default_reply_def)
    obtain resp bs where a: "encode (rq_command q) (rq_key q) resp = Inr bs" "allowed_response cd (ta i) m q resp"
      "rep' = rep\<lparr>rp_bytes := bs\<rparr>" "served cd ta (Suc i) (req_step q m) rs' replies'"
      using Cons.prems(2) True rs r by (auto simp del: req_step.simps)
    from history_answer [OF Cons.prems(3) n(2) a(2,1)]
    have "kv_history hash cd st (trace @ [(b, rep')]) (req_step q m)"
      by (simp add: a(3) n(1) default_reply_def del: req_step.simps)
    from Cons.IH [OF v a(4) this] True show ?thesis
      by (simp add: rs r del: req_step.simps)
  next
    case False
    then have s: "rep' = rep" "served cd ta (Suc i) m rs' replies'"
      using Cons.prems(2) rs r by auto
    have "rp_consumed rep = 0" "rp_bytes rep = []"
      using qr False check_request_total by (auto simp: default_reply_def)
    from Cons.IH [OF v s(2) history_refuse [OF Cons.prems(3) this, of b]] False show ?thesis
      by (auto simp: rs r s(1) simp del: req_step.simps)
  qed
qed simp

inductive_cases kv_history_snocE: "kv_history hash cd st (trace @ [(b, r)]) m"

lemma history_close:
  assumes "kv_history hash cd st (trace @ [(b, r)]) m" and "rp_close r"
  shows "kv_history hash cd st trace m"
  using assms by (auto elim: kv_history_snocE)

section \<open>Calls of the handlers\<close>

text \<open>The service has answered \<open>trace\<close> so far, and agrees with the map unless it has failed.\<close>

definition agrees :: "(bytes \<Rightarrow> nat) \<Rightarrow> codec \<Rightarrow> store \<Rightarrow> nat \<Rightarrow> (bytes \<times> reply) list \<Rightarrow> service \<Rightarrow> world \<Rightarrow> bool" where
  "agrees hash cd st t trace sv w \<longleftrightarrow>
     (\<exists>m. kv_history hash cd st trace m \<and> (sv_failed sv \<or> (\<exists>now \<le> t. service_inv hash cd now sv w m)))"

definition closed_reply :: reply where
  "closed_reply = \<lparr>rp_consumed = 0, rp_bytes = [], rp_close = True\<rparr>"

lemma agrees_later: "agrees hash cd st t trace sv w \<Longrightarrow> t \<le> t' \<Longrightarrow> agrees hash cd st t' trace sv w"
  by (auto simp: agrees_def intro: order_trans)

lemma agrees_refused: "agrees hash cd st t trace sv w \<Longrightarrow> agrees hash cd st t (trace @ map (\<lambda>b. (b, closed_reply)) bs) sv w"
  by (auto simp: agrees_def closed_reply_def dest: history_refuse_all [of hash cd st trace _ bs])

lemma agrees_close: "agrees hash cd st t (trace @ [(b, r)]) sv w \<Longrightarrow> rp_close r \<Longrightarrow> agrees hash cd st t trace sv w"
  unfolding agrees_def using history_close by blast

lemma HandleBatch_agrees:
  assumes "codec_ok cd" and "agrees hash cd st tc trace sv w" and "\<And>now. now \<le> tc \<Longrightarrow> times_ok now tv tc ta"
    and "length inputs \<le> 64" and "HandleBatch hash cd tv tc ta inputs sv w = (r, sv', w')" and "r \<noteq> Halted"
  shows "(\<forall>replies. r = Done replies \<longrightarrow> length replies = length inputs \<and> agrees hash cd st (ta (length inputs)) (trace @ zip inputs replies) sv' w') \<and>
    (\<forall>e. r = Throws e \<longrightarrow> agrees hash cd st tc trace sv' w')"
proof -
  obtain m where m: "kv_history hash cd st trace m" "sv_failed sv \<or> (\<exists>now \<le> tc. service_inv hash cd now sv w m)"
    using assms(2) by (auto simp: agrees_def)
  show ?thesis
  proof (cases "sv_failed sv")
    case True
    then show ?thesis
      using assms(2,5) by (auto simp: HandleBatch_def)
  next
    case False
    then obtain now where now: "now \<le> tc" "service_inv hash cd now sv w m"
      using m(2) by blast
    have "length inputs \<le> BATCH_LIMIT"
      using assms(4) by (simp add: BATCH_LIMIT_def)
    from assms(1) now(2) assms(3) [OF now(1)] this assms(5) show ?thesis
    proof (cases rule: HandleBatch_spec)
      case (ok rs ms replies)
      then show ?thesis
        using served_history [OF ok(1,5) m(1)] served_length [OF ok(5)] by (auto simp: agrees_def)
    next
      case bad
      have "agrees hash cd st tc trace sv' w'" if "r = Throws e" for e
        using bad(4,5) that m(1) by (cases e) (auto simp: agrees_def)
      then show ?thesis
        using bad(1) assms(6) by auto
    qed
  qed
qed

text \<open>\<open>r\<close> is what a handler returned for \<open>inputs\<close>, or threw.\<close>

definition outcome :: "bytes list \<Rightarrow> reply list result \<Rightarrow> (bytes \<times> reply) list" where
  "outcome inputs r = (case r of Inr replies \<Rightarrow> zip inputs replies | Inl _ \<Rightarrow> map (\<lambda>b. (b, closed_reply)) inputs)"

definition kv_sound :: "(bytes \<Rightarrow> nat) \<Rightarrow> codec \<Rightarrow> clock \<Rightarrow> store \<Rightarrow> (bytes \<times> reply) list \<Rightarrow> kv_state \<Rightarrow> bool" where
  "kv_sound hash cd clock st trace s \<longleftrightarrow>
     kv_halted s \<or> agrees hash cd st (fst (snd (clock (kv_turns s)))) trace (kv_service s) (kv_world s)"

lemma clocks_okD:
  assumes "clocks_ok now clock" and "clock n = (tv, tc, ta)"
  shows "t \<le> tc \<Longrightarrow> times_ok t tv tc ta" and "k \<le> 64 \<Longrightarrow> ta k \<le> fst (snd (clock (Suc n)))" and "tc \<le> ta k"
proof -
  have c: "tc \<le> ta 0" "mono ta" "\<forall>j. clock_ok (tv j)" "ta 64 \<le> fst (snd (clock (Suc n)))"
    using assms(1) [unfolded clocks_ok_def, THEN conjunct2, THEN spec, of n] by (simp_all add: assms(2))
  then show "t \<le> tc \<Longrightarrow> times_ok t tv tc ta"
    by (simp add: times_ok_def)
  show "k \<le> 64 \<Longrightarrow> ta k \<le> fst (snd (clock (Suc n)))"
    using c(4) monoD [OF c(2), of k 64] by simp
  show "tc \<le> ta k"
    using c(1) monoD [OF c(2), of 0 k] by simp
qed

lemma kv_batch_sound:
  assumes "codec_ok cd" and clk: "clocks_ok now clock" and "kv_sound hash cd clock st trace s" and "length inputs \<le> 64"
    and "kv_batch_handler hash cd clock inputs s = (r, s')"
  shows "kv_sound hash cd clock st (trace @ outcome inputs r) s' \<and> (kv_halted s' \<or> (\<forall>replies. r = Inr replies \<longrightarrow> length replies = length inputs))"
proof -
  obtain tv tc ta where c: "clock (kv_turns s) = (tv, tc, ta)"
    by (metis surj_pair)
  obtain out sv' w' where hb: "HandleBatch hash cd tv tc ta inputs (kv_service s) (kv_world s) = (out, sv', w')"
    by (metis surj_pair)
  note ret = assms(5) [unfolded kv_batch_handler_def c prod.case hb kv_return_def Let_def]
  show ?thesis
  proof (cases "kv_halted s \<or> out = Halted")
    case True
    then show ?thesis
      using ret by (auto simp: kv_sound_def split: io.splits)
  next
    case False
    then have a: "agrees hash cd st tc trace (kv_service s) (kv_world s)" "out \<noteq> Halted"
      using assms(3) by (simp_all add: kv_sound_def c)
    note h = HandleBatch_agrees [OF assms(1) a(1) clocks_okD(1) [OF clk c] assms(4) hb a(2)]
    have le: "ta (length inputs) \<le> fst (snd (clock (Suc (kv_turns s))))" "tc \<le> fst (snd (clock (Suc (kv_turns s))))"
      using clocks_okD(2,3) [OF clk c, of "length inputs"] assms(4) by auto
    from ret h show ?thesis
      by (cases out) (auto simp: a(2) kv_sound_def outcome_def intro: agrees_later [OF _ le(1)] agrees_later [OF agrees_refused le(2)])
  qed
qed

text \<open>The single handler turns a closing reply into an exception.\<close>

lemma Handle_agrees:
  assumes "codec_ok cd" and "agrees hash cd st tc trace sv w" and "\<And>now. now \<le> tc \<Longrightarrow> times_ok now (\<lambda>_. tv) tc (\<lambda>_. ta)"
    and "Handle hash cd tv tc ta b sv w = (r, sv', w')" and "r \<noteq> Halted" and "tc \<le> ta"
  shows "(\<forall>bytes n. r = Done (bytes, n) \<longrightarrow>
      agrees hash cd st ta (trace @ [(b, \<lparr>rp_consumed = n, rp_bytes = bytes, rp_close = False\<rparr>)]) sv' w') \<and>
    (\<forall>e. r = Throws e \<longrightarrow> agrees hash cd st ta trace sv' w')"
proof -
  obtain out where hb: "HandleBatch hash cd (\<lambda>_. tv) tc (\<lambda>_. ta) [b] sv w = (out, sv', w')"
    and r: "r = (case out of Halted \<Rightarrow> Halted | Throws e \<Rightarrow> Throws e
      | Done replies \<Rightarrow> if rp_close (hd replies) then Throws (Runtime_error ''Invalid request or unavailable storage'')
                      else Done (rp_bytes (hd replies), rp_consumed (hd replies)))"
    using assms(4) by (auto simp: Handle_def Let_def split: prod.splits io.splits if_splits)
  have "out \<noteq> Halted"
    using r assms(5) by auto
  from HandleBatch_agrees [OF assms(1,2,3) _ hb this]
  have h: "out = Done replies \<Longrightarrow> length replies = 1 \<and> agrees hash cd st ta (trace @ zip [b] replies) sv' w'"
    "out = Throws e \<Longrightarrow> agrees hash cd st tc trace sv' w'" for replies e
    by simp_all
  show ?thesis
  proof (cases out)
    case (Done replies)
    then obtain rep where rep: "replies = [rep]" "agrees hash cd st ta (trace @ [(b, rep)]) sv' w'"
      using h(1) by (auto simp: length_Suc_conv)
    then show ?thesis
      using r Done agrees_close [OF rep(2)] by (cases rep) auto
  qed (use r h(2) agrees_later [OF _ assms(6)] in auto)
qed

lemma kv_handler_sound:
  assumes "codec_ok cd" and clk: "clocks_ok now clock" and "kv_sound hash cd clock st trace s"
    and "kv_handler hash cd clock b s = (r, s')"
  shows "kv_sound hash cd clock st
    (trace @ outcome [b] (rbind r (\<lambda>(bytes, n). Inr [\<lparr>rp_consumed = n, rp_bytes = bytes, rp_close = False\<rparr>]))) s'"
proof -
  obtain tv tc ta where c: "clock (kv_turns s) = (tv, tc, ta)"
    by (metis surj_pair)
  obtain out sv' w' where hb: "Handle hash cd (tv 0) tc (ta 0) b (kv_service s) (kv_world s) = (out, sv', w')"
    by (metis surj_pair)
  note ret = assms(4) [unfolded kv_handler_def c prod.case hb kv_return_def Let_def]
  show ?thesis
  proof (cases "kv_halted s \<or> out = Halted")
    case True
    then show ?thesis
      using ret by (auto simp: kv_sound_def split: io.splits)
  next
    case False
    then have a: "agrees hash cd st tc trace (kv_service s) (kv_world s)" "out \<noteq> Halted"
      using assms(3) by (simp_all add: kv_sound_def c)
    have "times_ok t (\<lambda>_. tv 0) tc (\<lambda>_. ta 0)" if "t \<le> tc" for t
      using clocks_okD(1) [OF clk c that] by (simp add: times_ok_def mono_def)
    note h = Handle_agrees [OF assms(1) a(1) this hb a(2) clocks_okD(3) [OF clk c, of 0]]
    have le: "ta 0 \<le> fst (snd (clock (Suc (kv_turns s))))"
      using clocks_okD(2) [OF clk c, of 0] by simp
    from ret h show ?thesis
      using agrees_refused [of hash cd st _ trace sv' w' "[b]"] agrees_later [OF _ le]
      by (cases out) (auto simp: a(2) kv_sound_def outcome_def split_beta)
  qed
qed

lemma run_batch_sound:
  assumes "codec_ok cd" and "clocks_ok now clock" and "kv_sound hash cd clock st trace s" and "length batch \<le> 64"
    and "ts_handler srv \<noteq> Batch_handler \<Longrightarrow> length batch = 1"
    and run: "run_batch srv (kv_handler hash cd clock) (kv_batch_handler hash cd clock) us batch s rt = (replies, s', rt')"
  shows "kv_sound hash cd clock st (trace @ zip (map jb_input batch) replies) s'"
proof (cases "ts_handler srv = Batch_handler")
  case True
  obtain r s1 where b: "kv_batch_handler hash cd clock (map jb_input batch) s = (r, s1)"
    by (metis surj_pair)
  have "length (map jb_input batch) \<le> 64"
    using assms(4) by simp
  note h = kv_batch_sound [OF assms(1-3) this b]
  have s': "s' = s1" and rep: "replies = (case rbind r (\<lambda>replies. rbind (throw_if (length replies \<noteq> length batch)
      (Runtime_error ''Invalid batch reply count'')) (\<lambda>_. Inr replies)) of Inr rs \<Rightarrow> rs | Inl _ \<Rightarrow> replicate (length batch) closed_reply)"
    using run True b by (auto simp: run_batch_def Let_def closed_reply_def split: sum.splits)
  have "zip (map jb_input batch) replies = outcome (map jb_input batch) r" if "\<not> kv_halted s1"
    using h that rep by (cases r) (auto simp: outcome_def zip_replicate2)
  with h s' show ?thesis
    by (cases "kv_halted s1") (simp_all add: kv_sound_def)
next
  case False
  then obtain j where j: "batch = [j]"
    using assms(5) by (auto simp: length_Suc_conv)
  obtain r s1 where b: "kv_handler hash cd clock (jb_input j) s = (r, s1)"
    by (metis surj_pair)
  from kv_handler_sound [OF assms(1-3) b] run False b j show ?thesis
    by (cases r) (auto simp: run_batch_def outcome_def closed_reply_def Let_def)
qed

section \<open>The running program\<close>

definition kv_trace :: "'s server_sys \<Rightarrow> (bytes \<times> reply) list" where
  "kv_trace sys = map (\<lambda>(j, r). (jb_input j, r)) (sy_trace sys)"

lemma accept_ready_frame:
  "sy_trace (snd (accept_ready srv n rs sys)) = sy_trace sys \<and> sy_state (snd (accept_ready srv n rs sys)) = sy_state sys \<and>
   sy_batches (snd (accept_ready srv n rs sys)) = sy_batches sys"
proof (induction rs arbitrary: n sys)
  case (Cons r rs)
  then show ?case
    by (cases r) (simp_all add: admit_def Let_def)
qed simp

lemma take_jobs_length: "length (fst (take_jobs n rt)) \<le> n"
  by (induction n rt rule: take_jobs.induct) (auto split: list.splits simp: Let_def split_beta)

lemma take_batch_length: "length (fst (take_batch srv rt)) \<le> 64"
  unfolding take_batch_def by (rule order_trans [OF take_jobs_length]) simp

lemma reachable_sound:
  assumes "codec_ok cd" and "clocks_ok now clock" and "service_inv hash cd now sv w st" and "config_ok srv" and "ts_sizer srv = Some sizer"
    and "sys_reachable srv (kv_handler hash cd clock) (kv_batch_handler hash cd clock) (kv_state_new sv w) sys"
  shows "kv_sound hash cd clock st (kv_trace sys) (sy_state sys) \<and> (\<forall>b \<in> set (sy_batches sys). length b \<le> 64)"
  using assms(6)
proof (induction rule: sys_reachable.induct)
  case (sys_start envs)
  have "now \<le> fst (snd (clock 0))"
    using assms(2) by (simp add: clocks_ok_def)
  then show ?case
    using assms(3) history_start [of hash cd st]
    by (auto simp: sys_new_def kv_trace_def kv_sound_def agrees_def kv_state_new_def)
next
  case (sys_next sys sys')
  have inv: "sys_inv srv sys"
    by (rule sys_reachable_inv [OF assms(4,5) sys_next(1)])
  from sys_next(2) show ?case
  proof (cases rule: sys_step.cases)
    case (worker_done n us)
    let ?b = "sy_batches sys ! n"
    obtain rs s rt where r: "run_batch srv (kv_handler hash cd clock) (kv_batch_handler hash cd clock) us ?b (sy_state sys) (sy_rt sys) = (rs, s, rt)"
      by (metis surj_pair)
    have b: "length ?b \<le> 64" "ts_handler srv \<noteq> Batch_handler \<Longrightarrow> length ?b = 1"
      using inv worker_done(2) sys_next(3) by (simp_all add: sys_inv_def batches_ok_def)
    from run_batch_sound [OF assms(1,2) conjunct1 [OF sys_next(3)] b r] sys_next(3)
    show ?thesis
      by (auto simp: worker_done(1) work_done_def r Let_def kv_trace_def zip_map1 dest: in_set_takeD in_set_dropD)
  next
    case worker_take
    then show ?thesis
      using sys_next(3) take_batch_length [of srv "sy_rt sys"] by (auto simp: work_take_def kv_trace_def split_beta)
  qed (use sys_next(3) in \<open>simp_all add: begin_finish_def end_finish_def kv_trace_def accept_ready_frame Server_System.set_io_def\<close>)
qed

text \<open>With one worker the frames of a connection are handled in the order in which they were received.\<close>

lemma reachable_in_order:
  assumes "config_ok srv" and "ts_sizer srv = Some sizer" and "frame_sizer sizer" and "worker_threads srv = 1"
    and "sys_reachable srv handler batch_handler s sys"
    and "i < length (sy_ios sys)" and "\<not> io_failed (snd (sy_ios sys ! i))" and "io_peers (snd (sy_ios sys ! i)) k = Some p"
  shows "prefix (map (\<lambda>(j, r). jb_input j) (jobs_of i k (sy_trace sys))) (fst (frames sizer (rx_bytes k (io_log (snd (sy_ios sys ! i))))))"
    and "prefix (tx_bytes k (io_log (snd (sy_ios sys ! i)))) (concat (map (\<lambda>(j, r). rp_bytes r) (jobs_of i k (sy_trace sys))))"
proof -
  define rs where "rs = tx_replies k (io_log (snd (sy_ios sys ! i)))"
  define fs where "fs = rx_frames k (io_log (snd (sy_ios sys ! i)))"
  note peer = reachable_peer [OF assms(1,2,5-8), folded rs_def fs_def]
  have "prefix (map (\<lambda>(j, r). jb_input j) (jobs_of i k (sy_trace sys))) fs"
    using peer(2) assms(4) by (simp add: same_frames_def all_jobs_def queued_trace prefix_def) (metis append.assoc)
  moreover have "prefix fs (fst (frames sizer (rx_bytes k (io_log (snd (sy_ios sys ! i))))))"
    using peer(1) assms(2,3) by (auto simp: peer_inv_def in_inv_def fs_def)
  ultimately show "prefix (map (\<lambda>(j, r). jb_input j) (jobs_of i k (sy_trace sys))) (fst (frames sizer (rx_bytes k (io_log (snd (sy_ios sys ! i))))))"
    by (rule prefix_order.trans)
  have "prefix (map rp_bytes rs) (map (\<lambda>(j, r). rp_bytes r) (jobs_of i k (sy_trace sys)))"
    using map_mono_prefix [OF peer(3), of rp_bytes] by (simp add: case_prod_unfold comp_def)
  then have "prefix (concat (map rp_bytes rs)) (concat (map (\<lambda>(j, r). rp_bytes r) (jobs_of i k (sy_trace sys))))"
    by (auto simp: prefix_def)
  moreover have "prefix (tx_bytes k (io_log (snd (sy_ios sys ! i)))) (concat (map rp_bytes rs))"
    using peer(1) by (auto simp: peer_inv_def out_inv_def prefix_def rs_def dest: sym)
  ultimately show "prefix (tx_bytes k (io_log (snd (sy_ios sys ! i)))) (concat (map (\<lambda>(j, r). rp_bytes r) (jobs_of i k (sy_trace sys))))"
    by (rule prefix_order.trans [rotated])
qed


section \<open>Example\<close>

text \<open>A client connects and asks for a key that is not there.\<close>

definition setting_example :: environment where
  "setting_example = [''KVRPC_CACHE_ENTRIES'' \<mapsto> chars ''4'', ''KVRPC_CACHE_SHARDS'' \<mapsto> chars ''2'',
     ''KVRPC_AOF_BYTES'' \<mapsto> chars ''1000'', ''KVRPC_CACHE_BYTES'' \<mapsto> chars ''400'', ''KVRPC_IO_THREADS'' \<mapsto> chars ''1'']"

definition clock_example :: clock where
  "clock_example n = ((\<lambda>_. 9), 9, (\<lambda>_. 9))"

definition get_example :: bytes where
  "get_example = [0xCA, 0xFE, 1, 2, 0, 0, 0, 1, 0, 0, 0, 0, 107]"

abbreviation handler_example :: "bytes \<Rightarrow> kv_state \<Rightarrow> (bytes \<times> nat) result \<times> kv_state" where
  "handler_example \<equiv> kv_handler length example_codec clock_example"

abbreviation batch_example :: "bytes list \<Rightarrow> kv_state \<Rightarrow> reply list result \<times> kv_state" where
  "batch_example \<equiv> kv_batch_handler length example_codec clock_example"

definition start_example :: "(service \<times> tcp_server) option io \<times> world" where
  "start_example = main_start length example_codec 9 setting_example True True (\<lambda>_. stats_new) [chars ''9'']
     (world_example [] (replicate 8 (Sys_ok 1)))"

definition serve_example :: "service \<Rightarrow> tcp_server \<Rightarrow> world \<Rightarrow> kv_state server_sys option" where
  "serve_example sv srv w = sys_run srv handler_example batch_example
     [A_accept [Accepted 7], A_wake 0, A_task 0, A_event 0 1 1, A_take, A_done 0 5, A_wake 0, A_task 0]
     (sys_new srv [[no_input, no_input\<lparr>in_recv := [Got get_example]\<rparr>, no_input\<lparr>in_send := [Sent 13]\<rparr>]] (kv_state_new sv w))"

definition program_example :: "kv_state server_sys option" where
  "program_example = (case start_example of (Done (Some (sv, srv)), w) \<Rightarrow> serve_example sv srv w | _ \<Rightarrow> None)"

lemma program_example_facts:
  "map_option (\<lambda>sys. (kv_halted (sy_state sys), length (sy_ios sys), io_failed (snd (sy_ios sys ! 0)),
     map_option pr_pending (io_peers (snd (sy_ios sys ! 0)) 1), map (\<lambda>(j, r). (jb_input j, rp_bytes r)) (sy_trace sys),
     tx_bytes 1 (io_log (snd (sy_ios sys ! 0))))) program_example =
   Some (False, 1, False, Some 0, [(get_example, get_example)], get_example)"
  by code_simp

lemma start_example_threads:
  "case start_example of (Done (Some (sv, srv)), w) \<Rightarrow> so_io_threads (ts_options srv) = 1 | _ \<Rightarrow> True"
  by code_simp

lemma start_example_limits: "main_limits setting_example = Inr (4, 2, 1000, 400)"
  by code_simp

lemma program_example_runs:
  obtains sv srv w sys where "start_example = (Done (Some (sv, srv)), w)" and "serve_example sv srv w = Some sys"
    and "program_example = Some sys" and "\<not> kv_halted (sy_state sys)"
    and "map (\<lambda>(j, r). (jb_input j, rp_bytes r)) (sy_trace sys) = [(get_example, get_example)]"
proof -
  obtain sys where sys: "program_example = Some sys" "\<not> kv_halted (sy_state sys)"
    "map (\<lambda>(j, r). (jb_input j, rp_bytes r)) (sy_trace sys) = [(get_example, get_example)]"
    using program_example_facts unfolding map_option_eq_Some prod.inject by (elim exE conjE) simp
  then obtain sv srv w where "start_example = (Done (Some (sv, srv)), w)" "serve_example sv srv w = Some sys"
    by (auto simp: program_example_def split: prod.splits io.splits option.splits)
  from that [OF this sys] show thesis .
qed

lemma start_example_inv:
  assumes "start_example = (Done (Some (sv, srv)), w)"
  shows "service_inv length example_codec 9 sv w Map.empty"
proof (rule service_example)
  fix c
  assume c: "sharded_new 4 2 400 = Inr c"
    and inv: "\<forall>rs. service_inv length example_codec 0 (sv_example c) (world_example [] rs) Map.empty"
  have "\<exists>sv2 w3. service_new length example_codec 9 4 2 1000 400 (world_example [] (replicate 8 (Sys_ok 1))) = (Done sv2, w3) \<and>
      service_inv length example_codec 9 sv2 w3 Map.empty"
    by (rule restart_progress [OF inv [rule_format, of "[]"] c, where i = 0 and rs = "[]"])
      (simp_all add: sv_example_def aof_example_def world_example_def sz_mod_def healthy_def log_data_def)
  then obtain sv2 w3 where n: "service_new length example_codec 9 4 2 1000 400 (world_example [] (replicate 8 (Sys_ok 1))) = (Done sv2, w3)"
    and i: "service_inv length example_codec 9 sv2 w3 Map.empty"
    by blast
  note st = assms [unfolded start_example_def]
  obtain sv0 where "service_new length example_codec 9 4 2 1000 400 (world_example [] (replicate 8 (Sys_ok 1))) = (Done sv0, w)"
    "sv = sv0\<lparr>sv_metrics := Some (\<lambda>i. metrics_text stats_new)\<rparr>"
    by (rule main_startD [OF st]) (simp add: start_example_limits)
  with n i have "service_inv length example_codec 9 (sv\<lparr>sv_metrics := None\<rparr>) w Map.empty"
    by (simp add: service_inv_def metrics_ok_def metrics_small_def)
  then show ?thesis
    by (rule main_start_inv [OF st]) (simp add: counters_ok_def stats_new_def sz_mod_def)
qed

lemma clock_example_ok: "clocks_ok 9 clock_example"
  by (simp add: clocks_ok_def clock_example_def clock_ok_def mono_def)


end
