(* ===== verification/Client_Types.thy ===== *)
theory Client_Types
  imports Prelude
begin

text \<open>
  Options of the client side: \<open>ClientOptions\<close> of \<open>include/kvrpc/executor.h\<close>, \<open>TransportOptions\<close> and
  \<open>ClientEndpoint\<close> of \<open>include/kvrpc/tcp_connection.h\<close>. Durations are milliseconds of a signed type.
\<close>

record client_options =
  co_workers :: nat
  co_queue_capacity :: nat
  co_max_frame_bytes :: nat
  co_queue_bytes :: nat
  co_max_inflight :: nat

definition default_client_options :: client_options where
  "default_client_options = \<lparr>co_workers = 4, co_queue_capacity = 64, co_max_frame_bytes = 2 * 1024 * 1024,
     co_queue_bytes = 64 * 1024 * 1024, co_max_inflight = 16\<rparr>"

record transport_options =
  to_connect_timeout :: int
  to_io_timeout :: int

definition default_transport_options :: transport_options where
  "default_transport_options = \<lparr>to_connect_timeout = 2000, to_io_timeout = 5000\<rparr>"

record client_endpoint =
  ce_address :: string
  ce_port :: nat
  ce_connections :: nat
  ce_timeouts :: transport_options

definition default_client_endpoint :: client_endpoint where
  "default_client_endpoint = \<lparr>ce_address = ''127.0.0.1'', ce_port = 8080, ce_connections = 4, ce_timeouts = default_transport_options\<rparr>"

end
