(* ===== verification/Async_Transport.thy ===== *)
theory Async_Transport
  imports Client_Types Net_Buffer Socket_Calls Event_Loop
begin

text \<open>
  The transport of the clients (\<open>include/kvrpc/async_transport.h\<close>, \<open>src/async_transport.cpp\<close>): one
  event loop drives a fixed number of connections. Requests are admitted by \<open>Submit\<close>, wait for a
  connection with room, are written to it, and are completed by a response, by their deadline
  or by the loss of the connection. Responses carry the identifier of their request, or, without
  identifiers, come in the order of the requests.
\<close>

section \<open>State\<close>

text \<open>
  A request is named by its identifier. \<open>SIZE_MAX\<close>, the slot of a request without connection, is
  \<open>None\<close>. The completion callback gets the response and the exception, and says whether the
  response was valid.
\<close>

record pending_request =
  pq_timer :: nat
  pq_bytes :: bytes
  pq_complete :: "bytes \<Rightarrow> exn option \<Rightarrow> bool"
  pq_slot :: "nat option"
  pq_sent :: bool

record tr_conn =
  tc_fd :: int
  tc_token :: nat
  tc_connect_timer :: nat
  tc_connecting :: bool
  tc_scheduled :: bool
  tc_input :: buffer
  tc_output :: "(64 word \<times> bytes) list"
  tc_order :: "64 word list"
  tc_sent :: nat
  tc_inflight :: nat
  tc_retired :: "64 word set"

definition tr_conn_new :: tr_conn where
  "tr_conn_new = \<lparr>tc_fd = -1, tc_token = 0, tc_connect_timer = 0, tc_connecting = False, tc_scheduled = False, tc_input = buffer_new,
     tc_output = [], tc_order = [], tc_sent = 0, tc_inflight = 0, tc_retired = {}\<rparr>"

text \<open>
  What the constructor fixes. \<open>tg_iterate\<close> is the order in which the hash table \<open>requests\<close> is
  iterated, which the language leaves open.
\<close>

record tr_config =
  tg_timeouts :: transport_options
  tg_options :: client_options
  tg_framing :: "bytes \<Rightarrow> nat result"
  tg_ids :: "(bytes \<Rightarrow> (64 word) result) option"
  tg_iterate :: "64 word list \<Rightarrow> 64 word list"

text \<open>
  The inputs of one call of \<open>Connect\<close> or \<open>Pump\<close>: the clock, the descriptor that \<open>socket\<close> returns,
  the outcome of \<open>connect\<close>, whether \<open>SO_ERROR\<close> reports a failure and whether \<open>getpeername\<close> works,
  the results of \<open>send\<close> and \<open>recv\<close>, and whether \<open>epoll_ctl\<close> succeeds.
\<close>

record tr_input =
  ti_now :: nat
  ti_socket :: int
  ti_connect :: connect_result
  ti_error :: bool
  ti_peer :: bool
  ti_send :: "send_result list"
  ti_recv :: "recv_result list"
  ti_ctl :: bool

definition tr_no_input :: tr_input where
  "tr_no_input = \<lparr>ti_now = 0, ti_socket = -1, ti_connect = Connect_failed, ti_error = False, ti_peer = False, ti_send = [], ti_recv = [],
     ti_ctl = True\<rparr>"

datatype tr_task =
  X_register "64 word" pending_request nat
| X_deadline "64 word"
| X_connect_deadline nat
| X_pump nat
| X_drain
| X_nothing

text \<open>
  History: a request was put on a connection, a connection was reset, bytes were written to it or
  read from it, a frame was cut off, a completion callback was called.
\<close>

datatype tr_event =
  Tr_assigned nat "64 word" bytes
| Tr_reset nat
| Tr_sent nat bytes
| Tr_received nat bytes
| Tr_frame nat bytes
| Tr_completed "64 word" bytes "exn option"

record transport =
  tp_sockets :: "tr_conn list"
  tp_waiting :: "64 word list"
  tp_requests :: "(64 word \<times> pending_request) list"
  tp_admitted :: nat
  tp_bytes :: nat
  tp_closing :: bool
  tp_draining :: bool
  tp_env :: "tr_input list"
  tp_dead :: bool
  tp_log :: "tr_event list"

type_synonym tr_state = "(tr_task, nat, transport) machine"

text \<open>\<open>address_ok\<close> says that \<open>inet_pton\<close> accepts the address.\<close>

definition transport_new :: "bool \<Rightarrow> nat \<Rightarrow> nat \<Rightarrow> tr_config \<Rightarrow> tr_input list \<Rightarrow> transport result" where
  "transport_new address_ok port n cfg env =
     (if port = 0 \<or> \<not> address_ok \<or> to_io_timeout (tg_timeouts cfg) \<le> 0 \<or> to_connect_timeout (tg_timeouts cfg) \<le> 0 \<or> n = 0 \<or>
         co_queue_capacity (tg_options cfg) = 0 \<or> co_max_frame_bytes (tg_options cfg) = 0 \<or> co_queue_bytes (tg_options cfg) = 0 \<or>
         co_max_inflight (tg_options cfg) = 0
      then Inl (Rpc_error EC_invalid_argument ''Invalid asynchronous transport limits'')
      else Inr \<lparr>tp_sockets = replicate n tr_conn_new, tp_waiting = [], tp_requests = [], tp_admitted = 0, tp_bytes = 0,
                tp_closing = False, tp_draining = False, tp_env = env, tp_dead = False, tp_log = []\<rparr>)"

section \<open>Helpers on the state\<close>

definition tr_log :: "tr_event \<Rightarrow> tr_state \<Rightarrow> tr_state" where
  "tr_log e s = (fst s, (snd s)\<lparr>tp_log := tp_log (snd s) @ [e]\<rparr>)"

definition conn :: "nat \<Rightarrow> tr_state \<Rightarrow> tr_conn" where
  "conn i s = tp_sockets (snd s) ! i"

definition put_conn :: "nat \<Rightarrow> tr_conn \<Rightarrow> tr_state \<Rightarrow> tr_state" where
  "put_conn i c s = (fst s, (snd s)\<lparr>tp_sockets := (tp_sockets (snd s))[i := c]\<rparr>)"

definition lookup_request :: "64 word \<Rightarrow> tr_state \<Rightarrow> pending_request option" where
  "lookup_request rid s = map_of (tp_requests (snd s)) rid"

text \<open>
  An update of the request object, which the table and the queues of connections share. Requests
  have distinct identifiers, which the clients take from a counter; the objects of two requests
  with one identifier are not told apart.
\<close>

definition update_request :: "64 word \<Rightarrow> (pending_request \<Rightarrow> pending_request) \<Rightarrow> tr_state \<Rightarrow> tr_state" where
  "update_request rid f s = (fst s, (snd s)\<lparr>tp_requests := map (\<lambda>(n, q). (n, if n = rid then f q else q)) (tp_requests (snd s))\<rparr>)"

definition tr_next_input :: "tr_state \<Rightarrow> tr_input \<times> tr_state" where
  "tr_next_input s =
     (case tp_env (snd s) of
        [] \<Rightarrow> (tr_no_input, s)
      | inp # rest \<Rightarrow> (inp, (fst s, (snd s)\<lparr>tp_env := rest\<rparr>)))"

section \<open>Finish and Disconnect\<close>

text \<open>
  \<open>Finish\<close> and \<open>Disconnect\<close> call each other: an invalid response disconnects, and a disconnect
  finishes the requests of the connection. Their nesting is bounded by the number of requests,
  which the first argument counts down; \<open>None\<close> would mean that it was not enough.
\<close>

definition release :: "64 word \<Rightarrow> pending_request \<Rightarrow> tr_state \<Rightarrow> tr_state" where
  "release rid q s =
     (let a = snd s;
          a1 = a\<lparr>tp_requests := filter (\<lambda>(n, _). n \<noteq> rid) (tp_requests a)\<rparr>;
          a2 = (case pq_slot q of
                  Some i \<Rightarrow> a1\<lparr>tp_sockets := (tp_sockets a1)[i := (tp_sockets a1 ! i)\<lparr>tc_inflight := sz_sub (tc_inflight (tp_sockets a1 ! i)) 1\<rparr>]\<rparr>
                | None \<Rightarrow> a1\<lparr>tp_waiting := filter (\<lambda>n. n \<noteq> rid) (tp_waiting a1)\<rparr>)
      in (Cancel (pq_timer q) (fst s),
          a2\<lparr>tp_admitted := sz_sub (tp_admitted a2) 1, tp_bytes := sz_sub (tp_bytes a2) (length (pq_bytes q))\<rparr>))"

definition reset_conn :: "tr_conn \<Rightarrow> tr_conn" where
  "reset_conn c = c\<lparr>tc_fd := -1, tc_input := buffer_new, tc_output := [], tc_order := [], tc_retired := {}, tc_sent := 0,
     tc_connecting := False\<rparr>"

definition drop_conn :: "nat \<Rightarrow> tr_state \<Rightarrow> tr_state" where
  "drop_conn i s =
     (let c = conn i s; l = (if tc_fd c \<ge> 0 then Remove (tc_token c) (fst s) else fst s)
      in tr_log (Tr_reset i) (put_conn i (reset_conn c) (Cancel (tc_connect_timer c) l, snd s)))"

definition requests_on :: "nat \<Rightarrow> tr_state \<Rightarrow> 64 word list" where
  "requests_on i s = map fst (filter (\<lambda>(_, q). pq_slot q = Some i) (tp_requests (snd s)))"

primrec finish_all ::
  "(64 word \<Rightarrow> bytes \<Rightarrow> exn option \<Rightarrow> tr_state \<Rightarrow> tr_state option) \<Rightarrow> exn \<Rightarrow> 64 word list \<Rightarrow> tr_state \<Rightarrow> tr_state option" where
  "finish_all fin e [] s = Some s"
| "finish_all fin e (rid # rids) s = Option.bind (fin rid [] (Some e) s) (finish_all fin e rids)"

definition disconnect_with ::
  "(64 word \<Rightarrow> bytes \<Rightarrow> exn option \<Rightarrow> tr_state \<Rightarrow> tr_state option) \<Rightarrow> tr_config \<Rightarrow> nat \<Rightarrow> error_code \<Rightarrow> string \<Rightarrow> tr_state \<Rightarrow>
   tr_state option" where
  "disconnect_with fin cfg i code msg s =
     (let s1 = drop_conn i s in finish_all fin (Rpc_error code msg) (tg_iterate cfg (requests_on i s1)) s1)"

definition stop_if_drained :: "tr_state \<Rightarrow> tr_state" where
  "stop_if_drained s = (if tp_draining (snd s) \<and> tp_requests (snd s) = [] then (loop_Stop X_nothing (fst s), snd s) else s)"

primrec finish_fuel :: "nat \<Rightarrow> tr_config \<Rightarrow> 64 word \<Rightarrow> bytes \<Rightarrow> exn option \<Rightarrow> tr_state \<Rightarrow> tr_state option" where
  "finish_fuel 0 cfg rid response error s = None"
| "finish_fuel (Suc n) cfg rid response error s =
     (case lookup_request rid s of
        None \<Rightarrow> Some s
      | Some q \<Rightarrow>
          (let s1 = tr_log (Tr_completed rid response error) (release rid q s)
           in map_option stop_if_drained
                (case pq_slot q of
                   Some i \<Rightarrow> if \<not> pq_complete q response error
                             then disconnect_with (finish_fuel n cfg) cfg i EC_protocol ''Invalid response payload'' s1 else Some s1
                 | None \<Rightarrow> Some s1)))"

definition tr_Finish :: "tr_config \<Rightarrow> 64 word \<Rightarrow> bytes \<Rightarrow> exn option \<Rightarrow> tr_state \<Rightarrow> tr_state" where
  "tr_Finish cfg rid response error s =
     (case finish_fuel (Suc (length (tp_requests (snd s)))) cfg rid response error s of Some s' \<Rightarrow> s' | None \<Rightarrow> s)"

definition tr_Disconnect :: "tr_config \<Rightarrow> nat \<Rightarrow> error_code \<Rightarrow> string \<Rightarrow> tr_state \<Rightarrow> tr_state" where
  "tr_Disconnect cfg i code msg s =
     (case disconnect_with (finish_fuel (Suc (length (tp_requests (snd s)))) cfg) cfg i code msg s of Some s' \<Rightarrow> s' | None \<Rightarrow> s)"

section \<open>Connect and Schedule\<close>

text \<open>
  An exception from \<open>Add\<close> or \<open>Modify\<close> leaves the loop thread and ends the process; \<open>tp_dead\<close>
  records it, and the rest of the closure has no counterpart in the program.
\<close>

definition tr_die :: "tr_state \<Rightarrow> tr_state" where
  "tr_die s = (fst s, (snd s)\<lparr>tp_dead := True\<rparr>)"

definition watch_conn :: "tr_config \<Rightarrow> nat \<Rightarrow> tr_input \<Rightarrow> tr_state \<Rightarrow> tr_state" where
  "watch_conn cfg i inp s =
     (let c = (conn i s)\<lparr>tc_connecting := (ti_connect inp = Connect_pending)\<rparr>
      in case Add (ti_ctl inp) (tc_fd c) (EPOLLIN + EPOLLOUT + EPOLLRDHUP) i (fst s) of
          (Inl _, l) \<Rightarrow> tr_die (put_conn i c (l, snd s))
        | (Inr tok, l) \<Rightarrow>
            (let s1 = put_conn i (c\<lparr>tc_token := tok\<rparr>) (l, snd s)
             in if tc_connecting c
                then let (tid, l1) = At (ti_now inp + nat (to_connect_timeout (tg_timeouts cfg)) * 1000000) (X_connect_deadline i) (fst s1)
                     in put_conn i ((conn i s1)\<lparr>tc_connect_timer := tid\<rparr>) (l1, snd s1)
                else s1))"

definition tr_Connect :: "tr_config \<Rightarrow> nat \<Rightarrow> tr_state \<Rightarrow> tr_state" where
  "tr_Connect cfg i s =
     (let (inp, s) = tr_next_input s; s1 = put_conn i ((conn i s)\<lparr>tc_fd := ti_socket inp\<rparr>) s
      in if ti_socket inp < 0 then tr_Disconnect cfg i EC_connection ''Cannot create connection'' s1
         else if ti_connect inp = Connect_failed then tr_Disconnect cfg i EC_connection ''Connection failed'' s1
         else watch_conn cfg i inp s1)"

definition tr_Schedule :: "nat \<Rightarrow> tr_state \<Rightarrow> tr_state" where
  "tr_Schedule i s =
     (if tc_scheduled (conn i s) then s else put_conn i ((conn i s)\<lparr>tc_scheduled := True\<rparr>) (Post (X_pump i) (fst s), snd s))"

section \<open>Pump\<close>

text \<open>
  The loops return whether \<open>Pump\<close> goes on after them, with what is left of the budget.
\<close>

definition TR_BUDGET :: nat where
  "TR_BUDGET = 256 * 1024"

primrec tr_send_loop :: "tr_config \<Rightarrow> nat \<Rightarrow> nat \<Rightarrow> send_result list \<Rightarrow> tr_state \<Rightarrow> bool \<times> nat \<times> tr_state" where
  "tr_send_loop cfg i budget [] s = (True, budget, s)"
| "tr_send_loop cfg i budget (r # rs) s =
     (case tc_output (conn i s) of
        [] \<Rightarrow> (True, budget, s)
      | (rid, data) # output \<Rightarrow>
          if budget = 0 then (True, budget, s)
          else (case r of
              Sent n \<Rightarrow>
                (let c = conn i s; n = min n (min budget (length data - tc_sent c))
                 in if n = 0 then (False, budget, tr_Disconnect cfg i EC_transport ''Send failed'' s)
                    else let s1 = tr_log (Tr_sent i (take n (drop (tc_sent c) data))) s; c1 = c\<lparr>tc_sent := sz_add (tc_sent c) n\<rparr>
                         in tr_send_loop cfg i (budget - n) rs
                              (if tc_sent c1 = length data
                               then put_conn i (c1\<lparr>tc_output := output, tc_sent := 0\<rparr>) (update_request rid (pq_sent_update (\<lambda>_. True)) s1)
                               else put_conn i c1 s1))
            | Send_intr \<Rightarrow> tr_send_loop cfg i budget rs s
            | Send_again \<Rightarrow> (True, budget, s)
            | Send_error \<Rightarrow> (False, budget, tr_Disconnect cfg i EC_transport ''Send failed'' s)))"

definition response_size :: "tr_config \<Rightarrow> tr_conn \<Rightarrow> nat result" where
  "response_size cfg c =
     rbind (tg_framing cfg (buf_data (tc_input c))) (\<lambda>n.
     rbind (throw_if (n > sz_add (co_max_frame_bytes (tg_options cfg)) (if tg_ids cfg = None then 0 else 16))
             (Rpc_error EC_protocol ''Response frame too large'')) (\<lambda>_. Inr n))"

definition response_id :: "tr_config \<Rightarrow> tr_conn \<Rightarrow> bytes \<Rightarrow> (64 word) result" where
  "response_id cfg c response =
     (case tg_ids cfg of
        Some ids \<Rightarrow> ids response
      | None \<Rightarrow> Inr (case tc_order c of [] \<Rightarrow> 0 | rid # _ \<Rightarrow> rid))"

text \<open>
  One round of the loop over the buffered frames: \<open>None\<close> goes on with the next round, \<open>Some\<close> leaves
  the loop and says whether \<open>Pump\<close> goes on.
\<close>

definition invalid_response :: "tr_config \<Rightarrow> nat \<Rightarrow> tr_state \<Rightarrow> bool option \<times> tr_state" where
  "invalid_response cfg i s = (Some False, tr_Disconnect cfg i EC_protocol ''Invalid response frame'' s)"

definition deliver :: "tr_config \<Rightarrow> nat \<Rightarrow> bytes \<Rightarrow> tr_state \<Rightarrow> bool option \<times> tr_state" where
  "deliver cfg i response s =
     (let c = conn i s
      in case response_id cfg c response of
          Inl _ \<Rightarrow> invalid_response cfg i s
        | Inr rid \<Rightarrow>
            if tg_ids cfg \<noteq> None \<and> rid \<in> tc_retired c then (None, put_conn i (c\<lparr>tc_retired := tc_retired c - {rid}\<rparr>) s)
            else case lookup_request rid s of
                None \<Rightarrow> invalid_response cfg i s
              | Some q \<Rightarrow>
                  if pq_slot q \<noteq> Some i then invalid_response cfg i s
                  else let s1 = tr_Finish cfg rid response None
                             (if tg_ids cfg = None then put_conn i (c\<lparr>tc_order := tl (tc_order c)\<rparr>) s else s)
                       in (if tc_fd (conn i s1) < 0 then Some False else None, s1))"

definition response_step :: "tr_config \<Rightarrow> nat \<Rightarrow> tr_state \<Rightarrow> bool option \<times> tr_state" where
  "response_step cfg i s =
     (let c = conn i s
      in if buf_size (tc_input c) = 0 then (Some True, s)
         else case response_size cfg c of
             Inl _ \<Rightarrow> invalid_response cfg i s
           | Inr n \<Rightarrow>
               if n = 0 \<or> n > buf_size (tc_input c) then (Some True, s)
               else deliver cfg i (buf_copy n (tc_input c))
                      (tr_log (Tr_frame i (buf_copy n (tc_input c))) (put_conn i (c\<lparr>tc_input := consume n (tc_input c)\<rparr>) s)))"

text \<open>
  The first argument bounds the number of frames, each of which takes at least one byte from the
  buffer.
\<close>

primrec response_loop :: "nat \<Rightarrow> tr_config \<Rightarrow> nat \<Rightarrow> tr_state \<Rightarrow> bool \<times> tr_state" where
  "response_loop 0 cfg i s = (True, s)"
| "response_loop (Suc left) cfg i s =
     (case response_step cfg i s of (None, s') \<Rightarrow> response_loop left cfg i s' | (Some go, s') \<Rightarrow> (go, s'))"

primrec tr_recv_loop :: "tr_config \<Rightarrow> nat \<Rightarrow> nat \<Rightarrow> recv_result list \<Rightarrow> tr_state \<Rightarrow> bool \<times> nat \<times> tr_state" where
  "tr_recv_loop cfg i budget [] s = (True, budget, s)"
| "tr_recv_loop cfg i budget (r # rs) s =
     (if budget = 0 then (True, budget, s)
      else case r of
          Got bytes \<Rightarrow>
            (let bytes = take (min 16384 budget) bytes
             in if bytes = [] then (False, budget, tr_Disconnect cfg i EC_transport ''Peer disconnected'' s)
                else let c = conn i s; input = buf_append bytes (tc_input c);
                         (go, s1) = response_loop (Suc (buf_size input)) cfg i
                           (put_conn i (c\<lparr>tc_input := input\<rparr>) (tr_log (Tr_received i bytes) s))
                     in if go then tr_recv_loop cfg i (budget - length bytes) rs s1 else (False, budget - length bytes, s1))
        | Recv_eof \<Rightarrow> (False, budget, tr_Disconnect cfg i EC_transport ''Peer disconnected'' s)
        | Recv_intr \<Rightarrow> tr_recv_loop cfg i budget rs s
        | Recv_again \<Rightarrow> (True, budget, s)
        | Recv_error \<Rightarrow> (False, budget, tr_Disconnect cfg i EC_transport ''Receive failed'' s))"

definition tr_interest :: "tr_input \<Rightarrow> nat \<Rightarrow> tr_state \<Rightarrow> tr_state" where
  "tr_interest inp i s =
     (case Modify (ti_ctl inp) (tc_token (conn i s)) (EPOLLIN + EPOLLRDHUP + (if tc_output (conn i s) \<noteq> [] then EPOLLOUT else 0)) (fst s) of
        (Inl _, l) \<Rightarrow> tr_die (l, snd s)
      | (Inr _, l) \<Rightarrow> (l, snd s))"

definition transfer :: "tr_config \<Rightarrow> nat \<Rightarrow> tr_input \<Rightarrow> tr_state \<Rightarrow> tr_state" where
  "transfer cfg i inp s =
     (let (go, budget, s1) = tr_send_loop cfg i TR_BUDGET (ti_send inp) s
      in if \<not> go then s1
         else let s2 = (if budget = 0 \<and> tc_output (conn i s1) \<noteq> [] then tr_Schedule i s1 else s1);
                  (go, budget, s3) = tr_recv_loop cfg i TR_BUDGET (ti_recv inp) s2
              in if \<not> go then s3 else tr_interest inp i (if budget = 0 then tr_Schedule i s3 else s3))"

definition tr_Pump :: "tr_config \<Rightarrow> nat \<Rightarrow> tr_state \<Rightarrow> tr_state" where
  "tr_Pump cfg i s =
     (if tc_fd (conn i s) < 0 then s
      else let (inp, s) = tr_next_input s; c = conn i s
           in if tc_connecting c
              then if ti_error inp then tr_Disconnect cfg i EC_connection ''Connection failed'' s
                   else if \<not> ti_peer inp then s
                   else transfer cfg i inp (put_conn i (c\<lparr>tc_connecting := False\<rparr>) (Cancel (tc_connect_timer c) (fst s), snd s))
              else transfer cfg i inp s)"

section \<open>Dispatch\<close>

definition tr_limit :: "tr_config \<Rightarrow> nat" where
  "tr_limit cfg = (if tg_ids cfg = None then 1 else co_max_inflight (tg_options cfg))"

definition has_room :: "tr_config \<Rightarrow> nat \<Rightarrow> tr_state \<Rightarrow> bool" where
  "has_room cfg i s \<longleftrightarrow> sz_add (tc_inflight (conn i s)) (card (tc_retired (conn i s))) < tr_limit cfg"

definition assign :: "tr_config \<Rightarrow> nat \<Rightarrow> 64 word \<Rightarrow> pending_request \<Rightarrow> tr_state \<Rightarrow> tr_state" where
  "assign cfg i rid q s =
     (let c = conn i s;
          s1 = put_conn i (c\<lparr>tc_inflight := sz_add (tc_inflight c) 1, tc_output := tc_output c @ [(rid, pq_bytes q)],
                 tc_order := (if tg_ids cfg = None then tc_order c @ [rid] else tc_order c)\<rparr>)
                 (tr_log (Tr_assigned i rid (pq_bytes q)) (update_request rid (pq_slot_update (\<lambda>_. Some i)) s))
      in tr_Pump cfg i (if tc_fd c < 0 then tr_Connect cfg i s1 else s1))"

text \<open>The first argument bounds the requests that are taken from \<open>waiting\<close>, one in each round.\<close>

primrec dispatch_to :: "nat \<Rightarrow> tr_config \<Rightarrow> nat \<Rightarrow> tr_state \<Rightarrow> tr_state" where
  "dispatch_to 0 cfg i s = s"
| "dispatch_to (Suc left) cfg i s =
     (if tp_dead (snd s) \<or> \<not> has_room cfg i s then s
      else case tp_waiting (snd s) of
          [] \<Rightarrow> s
        | rid # rest \<Rightarrow>
            (let s1 = (fst s, (snd s)\<lparr>tp_waiting := rest\<rparr>)
             in case lookup_request rid s1 of
                 None \<Rightarrow> dispatch_to left cfg i s1
               | Some q \<Rightarrow> dispatch_to left cfg i (assign cfg i rid q s1)))"

definition tr_Dispatch :: "tr_config \<Rightarrow> tr_state \<Rightarrow> tr_state" where
  "tr_Dispatch cfg s =
     fold (\<lambda>i s. dispatch_to (length (tp_waiting (snd s))) cfg i s) [0..<length (tp_sockets (snd s))] s"

section \<open>Submit, closures and destruction\<close>

definition request_new :: "bytes \<Rightarrow> (bytes \<Rightarrow> exn option \<Rightarrow> bool) \<Rightarrow> pending_request" where
  "request_new bytes complete = \<lparr>pq_timer = 0, pq_bytes = bytes, pq_complete = complete, pq_slot = None, pq_sent = False\<rparr>"

definition tr_Submit ::
  "tr_config \<Rightarrow> nat \<Rightarrow> 64 word \<Rightarrow> bytes \<Rightarrow> (bytes \<Rightarrow> exn option \<Rightarrow> bool) \<Rightarrow> tr_state \<Rightarrow> tr_state" where
  "tr_Submit cfg now rid bytes complete s =
     (let deadline = now + nat (to_io_timeout (tg_timeouts cfg)) * 1000000; a = snd s
      in if tp_closing a \<or> tp_admitted a \<ge> co_queue_capacity (tg_options cfg) \<or>
            length bytes > sz_sub (co_queue_bytes (tg_options cfg)) (tp_bytes a)
         then tr_log (Tr_completed rid []
                (Some (Rpc_error (if tp_closing a then EC_closed else EC_overloaded) ''Client admission limit reached''))) s
         else (Post (X_register rid (request_new bytes complete) deadline) (fst s),
               a\<lparr>tp_admitted := sz_add (tp_admitted a) 1, tp_bytes := sz_add (tp_bytes a) (length bytes)\<rparr>))"

text \<open>\<open>emplace\<close> keeps an entry that is already there.\<close>

definition register_request :: "tr_config \<Rightarrow> 64 word \<Rightarrow> pending_request \<Rightarrow> nat \<Rightarrow> tr_state \<Rightarrow> tr_state" where
  "register_request cfg rid q deadline s =
     (let (tid, l) = At deadline (X_deadline rid) (fst s); a = snd s
      in tr_Dispatch cfg
           (l, a\<lparr>tp_requests := (if lookup_request rid s = None then tp_requests a @ [(rid, q\<lparr>pq_timer := tid\<rparr>)] else tp_requests a),
                 tp_waiting := tp_waiting a @ [rid]\<rparr>))"

definition expire :: "tr_config \<Rightarrow> 64 word \<Rightarrow> pending_request \<Rightarrow> tr_state \<Rightarrow> tr_state" where
  "expire cfg rid q s =
     (case pq_slot q of
        Some i \<Rightarrow>
          if tg_ids cfg \<noteq> None \<and> pq_sent q
          then tr_Finish cfg rid [] (Some (Rpc_error EC_timeout ''Request deadline exceeded''))
                 (put_conn i ((conn i s)\<lparr>tc_retired := insert rid (tc_retired (conn i s))\<rparr>) s)
          else tr_Disconnect cfg i EC_timeout ''Request deadline exceeded'' s
      | None \<Rightarrow> tr_Finish cfg rid [] (Some (Rpc_error EC_timeout ''Request deadline exceeded in queue'')) s)"

definition request_deadline :: "tr_config \<Rightarrow> 64 word \<Rightarrow> tr_state \<Rightarrow> tr_state" where
  "request_deadline cfg rid s =
     (case lookup_request rid s of
        None \<Rightarrow> s
      | Some q \<Rightarrow> tr_Dispatch cfg (expire cfg rid q s))"

definition drain :: "tr_state \<Rightarrow> tr_state" where
  "drain s = stop_if_drained (fst s, (snd s)\<lparr>tp_draining := True\<rparr>)"

definition tr_destroy :: "tr_state \<Rightarrow> tr_state" where
  "tr_destroy s = (Post X_drain (fst s), (snd s)\<lparr>tp_closing := True\<rparr>)"

definition tr_exec :: "tr_config \<Rightarrow> tr_task \<Rightarrow> tr_state \<Rightarrow> tr_state" where
  "tr_exec cfg t s =
     (if tp_dead (snd s) then s
      else case t of
          X_register rid q deadline \<Rightarrow> register_request cfg rid q deadline s
        | X_deadline rid \<Rightarrow> request_deadline cfg rid s
        | X_connect_deadline i \<Rightarrow> tr_Dispatch cfg (tr_Disconnect cfg i EC_timeout ''Connection deadline exceeded'' s)
        | X_pump i \<Rightarrow> tr_Dispatch cfg (tr_Pump cfg i (put_conn i ((conn i s)\<lparr>tc_scheduled := False\<rparr>) s))
        | X_drain \<Rightarrow> drain s
        | X_nothing \<Rightarrow> s)"

definition tr_callback :: "tr_config \<Rightarrow> nat \<Rightarrow> nat \<Rightarrow> tr_state \<Rightarrow> tr_state" where
  "tr_callback cfg i events s = (if tp_dead (snd s) then s else tr_Dispatch cfg (tr_Pump cfg i s))"

end
