(* ===== verification/Transport_Steps.thy ===== *)
theory Transport_Steps
  imports Async_Transport
begin

text \<open>
  The operations of the transport as sequences of elementary changes. \<open>Finish\<close> and \<open>Disconnect\<close>
  terminate with the fuel they are given. The locale \<open>tr_keeps\<close> is the interface for invariants: a
  predicate that every elementary change keeps is kept by \<open>Finish\<close>, \<open>Disconnect\<close>, \<open>Connect\<close>, \<open>Pump\<close>
  and \<open>Dispatch\<close>.
\<close>

section \<open>Termination\<close>

lemma release_length:
  assumes "lookup_request rid s = Some q"
  shows "length (tp_requests (snd (release rid q s))) < length (tp_requests (snd s))"
proof -
  have "(rid, q) \<in> set (tp_requests (snd s))"
    using assms by (simp add: lookup_request_def map_of_SomeD)
  then have "length (filter (\<lambda>(n, _). n \<noteq> rid) (tp_requests (snd s))) < length (tp_requests (snd s))"
    by (intro length_filter_less [of "(rid, q)"]) simp_all
  then show ?thesis
    by (cases "pq_slot q") (simp_all add: release_def Let_def)
qed

lemma tr_log_fields [simp]: "fst (tr_log e s) = fst s" "tp_requests (snd (tr_log e s)) = tp_requests (snd s)"
  "tp_sockets (snd (tr_log e s)) = tp_sockets (snd s)" "tp_waiting (snd (tr_log e s)) = tp_waiting (snd s)"
  "tp_log (snd (tr_log e s)) = tp_log (snd s) @ [e]" "tp_dead (snd (tr_log e s)) = tp_dead (snd s)"
  "tp_admitted (snd (tr_log e s)) = tp_admitted (snd s)" "tp_bytes (snd (tr_log e s)) = tp_bytes (snd s)"
  "tp_draining (snd (tr_log e s)) = tp_draining (snd s)"
  by (simp_all add: tr_log_def)

lemma drop_conn_requests [simp]: "tp_requests (snd (drop_conn i s)) = tp_requests (snd s)"
  by (simp add: drop_conn_def put_conn_def Let_def)

lemma stop_if_drained_transport [simp]: "snd (stop_if_drained s) = snd s"
  by (simp add: stop_if_drained_def)

lemma finish_all_total:
  assumes "\<And>rid e s. length (tp_requests (snd s)) < n \<Longrightarrow> \<exists>s'. fin rid [] (Some e) s = Some s' \<and> length (tp_requests (snd s')) \<le> length (tp_requests (snd s))"
  shows "length (tp_requests (snd s)) < n \<Longrightarrow>
    \<exists>s'. finish_all fin e rids s = Some s' \<and> length (tp_requests (snd s')) \<le> length (tp_requests (snd s))"
proof (induction rids arbitrary: s)
  case (Cons rid rids)
  obtain s1 where s1: "fin rid [] (Some e) s = Some s1" "length (tp_requests (snd s1)) \<le> length (tp_requests (snd s))"
    using assms [OF Cons.prems] by blast
  with Cons.IH [of s1] Cons.prems show ?case
    by fastforce
qed simp

lemma finish_fuel_total:
  "length (tp_requests (snd s)) < n \<Longrightarrow>
   \<exists>s'. finish_fuel n cfg rid response error s = Some s' \<and> length (tp_requests (snd s')) \<le> length (tp_requests (snd s))"
proof (induction n arbitrary: rid response error s)
  case (Suc n)
  show ?case
  proof (cases "lookup_request rid s")
    case (Some q)
    let ?s = "tr_log (Tr_completed rid response error) (release rid q s)"
    have len: "length (tp_requests (snd ?s)) < length (tp_requests (snd s))"
      using release_length [OF Some] by simp
    have "\<exists>s'. finish_all (finish_fuel n cfg) e rids (drop_conn i ?s) = Some s' \<and> length (tp_requests (snd s')) \<le> length (tp_requests (snd ?s))"
      for e rids i
      using finish_all_total [of n "finish_fuel n cfg" "drop_conn i ?s" e rids] Suc.IH len Suc.prems by simp
    then have d: "\<exists>s'. disconnect_with (finish_fuel n cfg) cfg i EC_protocol ''Invalid response payload'' ?s = Some s' \<and>
        length (tp_requests (snd s')) \<le> length (tp_requests (snd ?s))" for i
      by (simp add: disconnect_with_def Let_def)
    show ?thesis
    proof (cases "pq_slot q")
      case None
      with Some len show ?thesis
        by simp
    next
      case (Some i)
      obtain s' where "disconnect_with (finish_fuel n cfg) cfg i EC_protocol ''Invalid response payload'' ?s = Some s'"
        "length (tp_requests (snd s')) \<le> length (tp_requests (snd ?s))"
        using d by blast
      with \<open>lookup_request rid s = Some q\<close> Some len show ?thesis
        by (cases "pq_complete q response error") (simp_all add: exI [of _ "stop_if_drained s'"])
    qed
  qed simp
qed simp

lemma tr_Finish_fuel:
  "finish_fuel (Suc (length (tp_requests (snd s)))) cfg rid response error s = Some (tr_Finish cfg rid response error s)"
  using finish_fuel_total [of s "Suc (length (tp_requests (snd s)))" cfg rid response error] by (auto simp: tr_Finish_def)

lemma tr_Disconnect_fuel:
  "disconnect_with (finish_fuel (Suc (length (tp_requests (snd s)))) cfg) cfg i code msg s = Some (tr_Disconnect cfg i code msg s)"
  using finish_all_total [of "Suc (length (tp_requests (snd s)))" "finish_fuel (Suc (length (tp_requests (snd s)))) cfg" "drop_conn i s"
      "Rpc_error code msg" "tg_iterate cfg (requests_on i (drop_conn i s))"]
    finish_fuel_total [of _ "Suc (length (tp_requests (snd s)))" cfg]
  by (auto simp: tr_Disconnect_def disconnect_with_def Let_def)

text \<open>More fuel does not change the result.\<close>

lemma finish_all_mono:
  assumes "\<And>rid s s'. fin rid [] (Some e) s = Some s' \<Longrightarrow> fin' rid [] (Some e) s = Some s'"
  shows "finish_all fin e rids s = Some s' \<Longrightarrow> finish_all fin' e rids s = Some s'"
  using assms by (induction rids arbitrary: s) (auto simp: bind_eq_Some_conv)

lemma finish_fuel_mono: "finish_fuel n cfg rid response error s = Some s' \<Longrightarrow> n \<le> m \<Longrightarrow> finish_fuel m cfg rid response error s = Some s'"
proof (induction n arbitrary: m rid response error s s')
  case (Suc n)
  then obtain k where m: "m = Suc k" "n \<le> k"
    by (cases m) auto
  have d: "disconnect_with (finish_fuel k cfg) cfg i code msg t = Some t'" if "disconnect_with (finish_fuel n cfg) cfg i code msg t = Some t'"
    for i code msg t t'
    using that unfolding disconnect_with_def Let_def by (rule finish_all_mono [rotated]) (rule Suc.IH [OF _ m(2)])
  show ?case
  proof (cases "\<exists>q i. lookup_request rid s = Some q \<and> pq_slot q = Some i \<and> \<not> pq_complete q response error")
    case True
    then obtain q i where q: "lookup_request rid s = Some q" "pq_slot q = Some i" "\<not> pq_complete q response error"
      by blast
    then obtain t where "disconnect_with (finish_fuel n cfg) cfg i EC_protocol ''Invalid response payload''
        (tr_log (Tr_completed rid response error) (release rid q s)) = Some t" "s' = stop_if_drained t"
      using Suc.prems(1) by auto
    with d [OF this(1)] q m(1) show ?thesis
      by simp
  qed (use Suc.prems(1) m(1) in \<open>auto simp: Let_def split: option.splits if_splits\<close>)
qed simp

section \<open>Elementary changes\<close>

text \<open>
  \<open>n\<close> is the number of connections. A change is given with the conditions under which the
  operations make it.
\<close>

locale tr_keeps =
  fixes cfg :: tr_config and n :: nat and P :: "tr_state \<Rightarrow> bool"
  assumes sockets: "\<And>s. P s \<Longrightarrow> length (tp_sockets (snd s)) = n"
    and slot_less: "\<And>s rid q i. P s \<Longrightarrow> lookup_request rid s = Some q \<Longrightarrow> pq_slot q = Some i \<Longrightarrow> i < n"
    and completed: "\<And>s rid q e. P s \<Longrightarrow> lookup_request rid s = Some q \<Longrightarrow> P (tr_log (Tr_completed rid [] (Some e)) (release rid q s))"
    and dropped: "\<And>s i. P s \<Longrightarrow> i < n \<Longrightarrow> P (drop_conn i s)"
    and stopped: "\<And>s. P s \<Longrightarrow> P (stop_if_drained s)"
    and popped: "\<And>s. P s \<Longrightarrow> P (snd (tr_next_input s))"
    and fd_set: "\<And>s i fd. P s \<Longrightarrow> i < n \<Longrightarrow> P (put_conn i ((conn i s)\<lparr>tc_fd := fd\<rparr>) s)"
    and opened: "\<And>s i ok fd ev tok l b. P s \<Longrightarrow> i < n \<Longrightarrow> Add ok fd ev i (fst s) = (Inr tok, l) \<Longrightarrow> P (put_conn i ((conn i s)\<lparr>tc_connecting := b, tc_token := tok\<rparr>) (l, snd s))"
    and timed: "\<And>s i d tid l. P s \<Longrightarrow> i < n \<Longrightarrow> At d (X_connect_deadline i) (fst s) = (tid, l) \<Longrightarrow> P (put_conn i ((conn i s)\<lparr>tc_connect_timer := tid\<rparr>) (l, snd s))"
    and failed_add: "\<And>s i ok fd ev e l b. P s \<Longrightarrow> i < n \<Longrightarrow> Add ok fd ev i (fst s) = (Inl e, l) \<Longrightarrow> P (tr_die (put_conn i ((conn i s)\<lparr>tc_connecting := b\<rparr>) (l, snd s)))"
    and scheduled: "\<And>s i. P s \<Longrightarrow> i < n \<Longrightarrow> P (put_conn i ((conn i s)\<lparr>tc_scheduled := True\<rparr>) (Post (X_pump i) (fst s), snd s))"
    and unscheduled: "\<And>s i. P s \<Longrightarrow> i < n \<Longrightarrow> P (put_conn i ((conn i s)\<lparr>tc_scheduled := False\<rparr>) s)"
    and established: "\<And>s i. P s \<Longrightarrow> i < n \<Longrightarrow> P (put_conn i ((conn i s)\<lparr>tc_connecting := False\<rparr>) (Cancel (tc_connect_timer (conn i s)) (fst s), snd s))"
    and sent_part: "\<And>s i rid data out m. P s \<Longrightarrow> i < n \<Longrightarrow> tc_output (conn i s) = (rid, data) # out \<Longrightarrow> 0 < m \<Longrightarrow> m \<le> length data - tc_sent (conn i s) \<Longrightarrow>
      sz_add (tc_sent (conn i s)) m \<noteq> length data \<Longrightarrow>
      P (put_conn i ((conn i s)\<lparr>tc_sent := sz_add (tc_sent (conn i s)) m\<rparr>) (tr_log (Tr_sent i (take m (drop (tc_sent (conn i s)) data))) s))"
    and sent_all: "\<And>s i rid data out m. P s \<Longrightarrow> i < n \<Longrightarrow> tc_output (conn i s) = (rid, data) # out \<Longrightarrow> 0 < m \<Longrightarrow> m \<le> length data - tc_sent (conn i s) \<Longrightarrow>
      sz_add (tc_sent (conn i s)) m = length data \<Longrightarrow>
      P (put_conn i ((conn i s)\<lparr>tc_sent := sz_add (tc_sent (conn i s)) m, tc_output := out, tc_sent := 0\<rparr>)
           (update_request rid (pq_sent_update (\<lambda>_. True)) (tr_log (Tr_sent i (take m (drop (tc_sent (conn i s)) data))) s)))"
    and received: "\<And>s i b. P s \<Longrightarrow> i < n \<Longrightarrow> b \<noteq> [] \<Longrightarrow> length b \<le> 16384 \<Longrightarrow>
      P (put_conn i ((conn i s)\<lparr>tc_input := buf_append b (tc_input (conn i s))\<rparr>) (tr_log (Tr_received i b) s))"
    and cut: "\<And>s i m. P s \<Longrightarrow> i < n \<Longrightarrow> response_size cfg (conn i s) = Inr m \<Longrightarrow> 0 < m \<Longrightarrow> m \<le> buf_size (tc_input (conn i s)) \<Longrightarrow>
      P (tr_log (Tr_frame i (buf_copy m (tc_input (conn i s)))) (put_conn i ((conn i s)\<lparr>tc_input := consume m (tc_input (conn i s))\<rparr>) s))"
    and unretired: "\<And>s i rid. P s \<Longrightarrow> i < n \<Longrightarrow> rid \<in> tc_retired (conn i s) \<Longrightarrow> P (put_conn i ((conn i s)\<lparr>tc_retired := tc_retired (conn i s) - {rid}\<rparr>) s)"
    and delivered: "\<And>s i response rid q. P s \<Longrightarrow> i < n \<Longrightarrow> response_id cfg (conn i s) response = Inr rid \<Longrightarrow> lookup_request rid s = Some q \<Longrightarrow> pq_slot q = Some i \<Longrightarrow>
      tg_ids cfg = None \<or> rid \<notin> tc_retired (conn i s) \<Longrightarrow>
      P (tr_log (Tr_completed rid response None) (release rid q
           (if tg_ids cfg = None then put_conn i ((conn i s)\<lparr>tc_order := tl (tc_order (conn i s))\<rparr>) s else s)))"
    and interest: "\<And>s i inp. P s \<Longrightarrow> i < n \<Longrightarrow> P (tr_interest inp i s)"
    and skipped: "\<And>s rid rest. P s \<Longrightarrow> tp_waiting (snd s) = rid # rest \<Longrightarrow> lookup_request rid s = None \<Longrightarrow> P (fst s, (snd s)\<lparr>tp_waiting := rest\<rparr>)"
    and assigned: "\<And>s i rid rest q. P s \<Longrightarrow> i < n \<Longrightarrow> has_room cfg i s \<Longrightarrow> tp_waiting (snd s) = rid # rest \<Longrightarrow> lookup_request rid s = Some q \<Longrightarrow>
      P (put_conn i ((conn i s)\<lparr>tc_inflight := sz_add (tc_inflight (conn i s)) 1, tc_output := tc_output (conn i s) @ [(rid, pq_bytes q)],
             tc_order := (if tg_ids cfg = None then tc_order (conn i s) @ [rid] else tc_order (conn i s))\<rparr>)
           (tr_log (Tr_assigned i rid (pq_bytes q))
             (update_request rid (pq_slot_update (\<lambda>_. Some i)) (fst s, (snd s)\<lparr>tp_waiting := rest\<rparr>))))"
begin

lemma finish_all_keeps:
  assumes "\<And>rid e s s'. P s \<Longrightarrow> fin rid [] (Some e) s = Some s' \<Longrightarrow> P s'"
  shows "P s \<Longrightarrow> finish_all fin e rids s = Some s' \<Longrightarrow> P s'"
proof (induction rids arbitrary: s)
  case (Cons rid rids)
  then obtain t where "fin rid [] (Some e) s = Some t" "finish_all fin e rids t = Some s'"
    by (auto simp: bind_eq_Some_conv)
  then show ?case
    using Cons.IH assms Cons.prems(1) by blast
qed simp

lemma disconnect_keeps:
  assumes "\<And>rid e s s'. P s \<Longrightarrow> fin rid [] (Some e) s = Some s' \<Longrightarrow> P s'"
  shows "P s \<Longrightarrow> i < n \<Longrightarrow> disconnect_with fin cfg i code msg s = Some s' \<Longrightarrow> P s'"
  unfolding disconnect_with_def Let_def by (rule finish_all_keeps [OF assms dropped])

lemma finish_step:
  assumes "\<And>rid e s s'. P s \<Longrightarrow> finish_fuel k cfg rid [] (Some e) s = Some s' \<Longrightarrow> P s'" and "lookup_request rid s = Some q"
    and "\<And>i. pq_slot q = Some i \<Longrightarrow> i < n" and "P (tr_log (Tr_completed rid response error) (release rid q s))"
    and "finish_fuel (Suc k) cfg rid response error s = Some s'"
  shows "P s'"
proof (cases "\<exists>i. pq_slot q = Some i \<and> \<not> pq_complete q response error")
  case True
  then obtain i t where i: "pq_slot q = Some i" "disconnect_with (finish_fuel k cfg) cfg i EC_protocol ''Invalid response payload''
      (tr_log (Tr_completed rid response error) (release rid q s)) = Some t" "s' = stop_if_drained t"
    using assms(2,5) by auto
  then show ?thesis
    using disconnect_keeps [OF assms(1) assms(4) assms(3) i(2)] stopped by simp
next
  case False
  then have "s' = stop_if_drained (tr_log (Tr_completed rid response error) (release rid q s))"
    using assms(2,5) by (auto simp: Let_def split: option.splits if_splits)
  then show ?thesis
    using stopped [OF assms(4)] by simp
qed

lemma finish_fuel_keeps: "P s \<Longrightarrow> finish_fuel k cfg rid [] (Some e) s = Some s' \<Longrightarrow> P s'"
proof (induction k arbitrary: rid e s s')
  case (Suc k)
  show ?case
  proof (cases "lookup_request rid s")
    case (Some q)
    show ?thesis
      by (rule finish_step [OF Suc.IH Some _ _ Suc.prems(2)]) (use slot_less completed Suc.prems(1) Some in auto)
  qed (use Suc.prems in simp)
qed simp

lemma Finish_error: "P s \<Longrightarrow> P (tr_Finish cfg rid [] (Some e) s)"
  using finish_fuel_keeps [OF _ tr_Finish_fuel] by blast

lemma Finish_released:
  assumes "lookup_request rid s = Some q" and "\<And>i. pq_slot q = Some i \<Longrightarrow> i < n" and "P (tr_log (Tr_completed rid response error) (release rid q s))"
  shows "P (tr_Finish cfg rid response error s)"
  by (rule finish_step [OF _ assms(1) _ assms(3) tr_Finish_fuel]) (erule (1) finish_fuel_keeps, rule assms(2))

lemma Disconnect: "P s \<Longrightarrow> i < n \<Longrightarrow> P (tr_Disconnect cfg i code msg s)"
  by (rule disconnect_keeps [OF _ _ _ tr_Disconnect_fuel]) (erule (1) finish_fuel_keeps)

lemma Schedule: "P s \<Longrightarrow> i < n \<Longrightarrow> P (tr_Schedule i s)"
  by (simp add: tr_Schedule_def scheduled)

lemma send_loop: "P s \<Longrightarrow> i < n \<Longrightarrow> P (snd (snd (tr_send_loop cfg i budget rs s)))"
proof (induction rs arbitrary: budget s)
  case (Cons r rs)
  show ?case
  proof (cases "tc_output (conn i s)")
    case (Cons x out)
    obtain rid data where x: "x = (rid, data)"
      by fastforce
    show ?thesis
    proof (cases r)
      case (Sent m)
      let ?m = "min m (min budget (length data - tc_sent (conn i s)))"
      have "0 < ?m \<Longrightarrow> sz_add (tc_sent (conn i s)) ?m = length data \<Longrightarrow>
          P (put_conn i ((conn i s)\<lparr>tc_sent := sz_add (tc_sent (conn i s)) ?m, tc_output := out, tc_sent := 0\<rparr>)
           (update_request rid (pq_sent_update (\<lambda>_. True)) (tr_log (Tr_sent i (take ?m (drop (tc_sent (conn i s)) data))) s)))"
        using Cons.prems Cons x by (intro sent_all [where rid = rid]) simp_all
      moreover have "0 < ?m \<Longrightarrow> sz_add (tc_sent (conn i s)) ?m \<noteq> length data \<Longrightarrow>
          P (put_conn i ((conn i s)\<lparr>tc_sent := sz_add (tc_sent (conn i s)) ?m\<rparr>) (tr_log (Tr_sent i (take ?m (drop (tc_sent (conn i s)) data))) s))"
        using Cons.prems Cons x by (intro sent_part [where rid = rid and out = out]) simp_all
      ultimately show ?thesis
        using Cons.prems Cons.IH Cons x Sent by (simp add: Let_def Disconnect)
    qed (use Cons.prems Cons.IH Cons x in \<open>simp_all add: Disconnect\<close>)
  qed (use Cons.prems in simp)
qed simp

lemma deliver:
  assumes "P s" and "i < n"
  shows "P (snd (deliver cfg i response s))"
proof -
  have "P (tr_Finish cfg rid response None
      (if tg_ids cfg = None then put_conn i ((conn i s)\<lparr>tc_order := tl (tc_order (conn i s))\<rparr>) s else s))"
    if "response_id cfg (conn i s) response = Inr rid" "tg_ids cfg = None \<or> rid \<notin> tc_retired (conn i s)"
      "lookup_request rid s = Some q" "pq_slot q = Some i" for rid q
    using that assms(2) delivered [OF assms that(1,3,4,2)]
    by (intro Finish_released [where q = q]) (auto simp: lookup_request_def put_conn_def)
  then show ?thesis
    using assms unretired [OF assms]
    by (auto simp: deliver_def invalid_response_def Disconnect Let_def split: sum.splits option.splits)
qed

lemma response_step: "P s \<Longrightarrow> i < n \<Longrightarrow> P (snd (response_step cfg i s))"
  using cut [of s i] by (auto simp: response_step_def invalid_response_def Disconnect Let_def split: sum.splits intro: deliver)

lemma response_loop: "P s \<Longrightarrow> i < n \<Longrightarrow> P (snd (response_loop left cfg i s))"
proof (induction left arbitrary: s)
  case (Suc left)
  show ?case
    using Suc.IH [OF response_step [OF Suc.prems] Suc.prems(2)] response_step [OF Suc.prems]
    by (auto split: prod.splits option.splits)
qed simp

lemma recv_loop: "P s \<Longrightarrow> i < n \<Longrightarrow> P (snd (snd (tr_recv_loop cfg i budget rs s)))"
proof (induction rs arbitrary: budget s)
  case (Cons r rs)
  show ?case
  proof (cases r)
    case (Got b)
    let ?b = "take (min 16384 budget) b"
    let ?s = "response_loop (Suc (buf_size (buf_append ?b (tc_input (conn i s))))) cfg i
      (put_conn i ((conn i s)\<lparr>tc_input := buf_append ?b (tc_input (conn i s))\<rparr>) (tr_log (Tr_received i ?b) s))"
    have "P (snd ?s)" if "?b \<noteq> []"
      using that Cons.prems by (intro response_loop received) simp_all
    then show ?thesis
      using Cons Got by (auto simp: Let_def Disconnect split_beta simp del: take_eq_Nil response_loop.simps)
  qed (use Cons in \<open>simp_all add: Disconnect\<close>)
qed simp

lemma transfer:
  assumes "P s" and "i < n"
  shows "P (transfer cfg i inp s)"
proof -
  obtain go b s1 where s1: "tr_send_loop cfg i TR_BUDGET (ti_send inp) s = (go, b, s1)"
    by (metis prod.exhaust)
  have p1: "P s1"
    using send_loop [OF assms, of TR_BUDGET "ti_send inp"] s1 by simp
  define s2 where "s2 = (if b = 0 \<and> tc_output (conn i s1) \<noteq> [] then tr_Schedule i s1 else s1)"
  have p2: "P s2"
    using p1 assms(2) by (simp add: s2_def Schedule)
  obtain go' b' s3 where s3: "tr_recv_loop cfg i TR_BUDGET (ti_recv inp) s2 = (go', b', s3)"
    by (metis prod.exhaust)
  have "P s3"
    using recv_loop [OF p2 assms(2), of TR_BUDGET "ti_recv inp"] s3 by simp
  then show ?thesis
    using p1 assms(2) s3 by (simp add: transfer_def s1 s2_def [symmetric] interest Schedule)
qed

lemma Pump: "P s \<Longrightarrow> i < n \<Longrightarrow> P (tr_Pump cfg i s)"
  using popped [of s] established [of "snd (tr_next_input s)" i]
  by (simp add: tr_Pump_def split_beta Let_def Disconnect transfer)

lemma watch_conn:
  assumes "P s" and "i < n"
  shows "P (watch_conn cfg i inp s)"
proof (cases "Add (ti_ctl inp) (tc_fd (conn i s)) (EPOLLIN + EPOLLOUT + EPOLLRDHUP) i (fst s)")
  case (Pair r l)
  show ?thesis
  proof (cases r)
    case (Inl e)
    with Pair failed_add [OF assms] show ?thesis
      by (simp add: watch_conn_def)
  next
    case (Inr tok)
    with Pair opened [OF assms]
    have p: "P (put_conn i ((conn i s)\<lparr>tc_connecting := ti_connect inp = Connect_pending, tc_token := tok\<rparr>) (l, snd s))"
      by blast
    show ?thesis
      using Pair Inr p timed [OF p assms(2)]
      by (cases "ti_connect inp = Connect_pending") (auto simp: watch_conn_def Let_def split: prod.splits)
  qed
qed

lemma Connect: "P s \<Longrightarrow> i < n \<Longrightarrow> P (tr_Connect cfg i s)"
  using popped [of s] fd_set [of "snd (tr_next_input s)" i]
  by (simp add: tr_Connect_def split_beta Let_def Disconnect watch_conn)

lemma assign:
  assumes "P s" and "i < n" and "has_room cfg i s" and "tp_waiting (snd s) = rid # rest" and "lookup_request rid s = Some q"
  shows "P (assign cfg i rid q (fst s, (snd s)\<lparr>tp_waiting := rest\<rparr>))"
proof -
  have "conn i (fst s, (snd s)\<lparr>tp_waiting := rest\<rparr>) = conn i s"
    by (simp add: conn_def)
  then show ?thesis
    using assigned [OF assms] assms(2) by (simp add: assign_def Let_def Pump Connect)
qed

lemma dispatch_to: "P s \<Longrightarrow> i < n \<Longrightarrow> P (dispatch_to left cfg i s)"
proof (induction left arbitrary: s)
  case (Suc left)
  show ?case
  proof (cases "tp_dead (snd s) \<or> \<not> has_room cfg i s \<or> tp_waiting (snd s) = []")
    case False
    then obtain rid rest where w: "has_room cfg i s" "tp_waiting (snd s) = rid # rest" "\<not> tp_dead (snd s)"
      by (cases "tp_waiting (snd s)") auto
    show ?thesis
    proof (cases "lookup_request rid s")
      case None
      with w skipped [OF Suc.prems(1) w(2)] Suc.IH Suc.prems(2) show ?thesis
        by (simp add: lookup_request_def)
    next
      case (Some q)
      with w assign [OF Suc.prems w(1,2)] Suc.IH Suc.prems(2) show ?thesis
        by (simp add: lookup_request_def)
    qed
  qed (use Suc.prems in \<open>auto\<close>)
qed simp

lemma Dispatch:
  assumes "P s"
  shows "P (tr_Dispatch cfg s)"
proof -
  have "P s \<Longrightarrow> (\<forall>i \<in> set is. i < n) \<Longrightarrow> P (fold (\<lambda>i s. dispatch_to (length (tp_waiting (snd s))) cfg i s) is s)" for s "is"
    by (induction "is" arbitrary: s) (simp_all add: dispatch_to)
  from this [OF assms, of "[0..<n]"] show ?thesis
    by (simp add: tr_Dispatch_def sockets [OF assms])
qed

end

end
