(* ===== verification/Transport_Inv.thy ===== *)
theory Transport_Inv
  imports Transport_Steps
begin

text \<open>
  The invariant of the transport: the table of requests, the queue of waiting ones, the counters of
  the connections and the admission counters agree; every outstanding request has its deadline
  armed; every submitted request is completed at most once.
\<close>

section \<open>Invariant\<close>

text \<open>
  What the invariant reads of a connection, and the registrations among the tasks of the loop.
\<close>

definition proj :: "tr_conn \<Rightarrow> nat \<times> 64 word set \<times> nat" where
  "proj c = (tc_inflight c, tc_retired c, tc_connect_timer c)"

fun registration :: "tr_task \<Rightarrow> (64 word \<times> pending_request \<times> nat) list" where
  "registration (X_register rid q d) = [(rid, q, d)]"
| "registration _ = []"

abbreviation registrations :: "tr_task list \<Rightarrow> (64 word \<times> pending_request \<times> nat) list" where
  "registrations ts \<equiv> concat (map registration ts)"

fun completion :: "tr_event \<Rightarrow> 64 word list" where
  "completion (Tr_completed rid r e) = [rid]"
| "completion _ = []"

abbreviation completions :: "tr_event list \<Rightarrow> 64 word list" where
  "completions es \<equiv> concat (map completion es)"

definition slot_count :: "nat \<Rightarrow> (64 word \<times> pending_request) list \<Rightarrow> nat" where
  "slot_count i reqs = length (filter (\<lambda>(_, q). pq_slot q = Some i) reqs)"

definition slots_ok ::
  "tr_config \<Rightarrow> nat \<Rightarrow> (nat \<times> 64 word set \<times> nat) list \<Rightarrow> (64 word \<times> pending_request) list \<Rightarrow> 64 word list \<Rightarrow> bool" where
  "slots_ok cfg n cs reqs waiting \<longleftrightarrow>
     length cs = n \<and> distinct (map fst reqs) \<and> (\<forall>rid q i. (rid, q) \<in> set reqs \<longrightarrow> pq_slot q = Some i \<longrightarrow> i < n) \<and>
     distinct waiting \<and> set waiting = {rid. \<exists>q. (rid, q) \<in> set reqs \<and> pq_slot q = None} \<and> tr_limit cfg < sz_mod \<and>
     (\<forall>i < n. fst (cs ! i) = slot_count i reqs \<and> finite (fst (snd (cs ! i))) \<and> fst (cs ! i) + card (fst (snd (cs ! i))) \<le> tr_limit cfg)"

text \<open>
  \<open>X\<close> are requests whose timer has just fired, \<open>D\<close> gives the deadlines.
\<close>

definition timers_ok ::
  "64 word set \<Rightarrow> (64 word \<Rightarrow> nat) \<Rightarrow> (tr_task, nat) event_loop \<Rightarrow> (nat \<times> 64 word set \<times> nat) list \<Rightarrow>
   (64 word \<times> pending_request) list \<Rightarrow> bool" where
  "timers_ok X D l cs reqs \<longleftrightarrow>
     loop_inv l \<and> distinct (map (pq_timer \<circ> snd) reqs) \<and> (\<forall>c \<in> set cs. snd (snd c) < el_next l) \<and>
     (\<forall>rid q. (rid, q) \<in> set reqs \<longrightarrow> 0 < pq_timer q \<and> pq_timer q < el_next l \<and> (\<forall>c \<in> set cs. snd (snd c) \<noteq> pq_timer q) \<and>
        (rid \<notin> X \<longrightarrow> (D rid, pq_timer q, X_deadline rid) \<in> set (el_timers l)))"

definition admission_ok ::
  "tr_config \<Rightarrow> (64 word \<times> pending_request) list \<Rightarrow> (64 word \<times> pending_request \<times> nat) list \<Rightarrow> nat \<Rightarrow> nat \<Rightarrow> bool" where
  "admission_ok cfg reqs regs admitted bytes \<longleftrightarrow>
     admitted = length reqs + length regs \<and>
     bytes = sum_list (map (\<lambda>(_, q). length (pq_bytes q)) reqs) + sum_list (map (\<lambda>(_, q, _). length (pq_bytes q)) regs) \<and>
     admitted \<le> co_queue_capacity (tg_options cfg) \<and> co_queue_capacity (tg_options cfg) < sz_mod \<and>
     bytes \<le> co_queue_bytes (tg_options cfg) \<and> co_queue_bytes (tg_options cfg) < sz_mod"

text \<open>\<open>U\<close> are the identifiers that were submitted.\<close>

definition once_ok ::
  "64 word set \<Rightarrow> (64 word \<Rightarrow> nat) \<Rightarrow> tr_event list \<Rightarrow> (64 word \<times> pending_request) list \<Rightarrow> (64 word \<times> pending_request \<times> nat) list \<Rightarrow> bool" where
  "once_ok U D es reqs regs \<longleftrightarrow>
     distinct (completions es @ map fst reqs @ map fst regs) \<and> set (completions es @ map fst reqs @ map fst regs) = U \<and>
     (\<forall>(rid, q, d) \<in> set regs. pq_slot q = None \<and> d = D rid)"

definition responses_ok :: "tr_config \<Rightarrow> tr_event list \<Rightarrow> bool" where
  "responses_ok cfg es \<longleftrightarrow> (\<forall>rid r ids. Tr_completed rid r None \<in> set es \<longrightarrow> tg_ids cfg = Some ids \<longrightarrow> ids r = Inr rid)"

definition tr_inv ::
  "tr_config \<Rightarrow> nat \<Rightarrow> 64 word set \<Rightarrow> tr_task list \<Rightarrow> 64 word set \<Rightarrow> (64 word \<Rightarrow> nat) \<Rightarrow> tr_state \<Rightarrow> bool" where
  "tr_inv cfg n X R U D s \<longleftrightarrow>
     slots_ok cfg n (map proj (tp_sockets (snd s))) (tp_requests (snd s)) (tp_waiting (snd s)) \<and>
     timers_ok X D (fst s) (map proj (tp_sockets (snd s))) (tp_requests (snd s)) \<and>
     admission_ok cfg (tp_requests (snd s)) (registrations (R @ el_tasks (fst s))) (tp_admitted (snd s)) (tp_bytes (snd s)) \<and>
     once_ok U D (tp_log (snd s)) (tp_requests (snd s)) (registrations (R @ el_tasks (fst s))) \<and>
     responses_ok cfg (tp_log (snd s))"

text \<open>Changes that the invariant does not see.\<close>

lemma tr_inv_quiet:
  assumes "tr_inv cfg n X R U D s" and "map proj (tp_sockets (snd s')) = map proj (tp_sockets (snd s))"
    and "tp_requests (snd s') = tp_requests (snd s)" and "tp_waiting (snd s') = tp_waiting (snd s)"
    and "tp_admitted (snd s') = tp_admitted (snd s)" and "tp_bytes (snd s') = tp_bytes (snd s)"
    and "loop_inv (fst s')" and "set (el_timers (fst s)) \<subseteq> set (el_timers (fst s'))" and "el_next (fst s) \<le> el_next (fst s')"
    and "registrations (el_tasks (fst s')) = registrations (el_tasks (fst s))"
    and "completions (tp_log (snd s')) = completions (tp_log (snd s))" and "responses_ok cfg (tp_log (snd s'))"
  shows "tr_inv cfg n X R U D s'"
proof -
  have "timers_ok X D (fst s') (map proj (tp_sockets (snd s))) (tp_requests (snd s))"
    using assms(1,7-9) by (fastforce simp: tr_inv_def timers_ok_def)
  with assms show ?thesis
    by (simp add: tr_inv_def once_ok_def)
qed

lemma map_proj_put: "i < length cs \<Longrightarrow> proj c = proj (cs ! i) \<Longrightarrow> map proj (cs[i := c]) = map proj cs"
  by (simp add: map_update list_update_same_conv)

section \<open>Elementary changes keep the invariant\<close>

lemma tr_inv_parts:
  assumes "tr_inv cfg n X R U D s"
  shows "loop_inv (fst s)" "length (tp_sockets (snd s)) = n" "responses_ok cfg (tp_log (snd s))"
  using assms by (auto simp: tr_inv_def timers_ok_def slots_ok_def dest: arg_cong [of _ _ length])

lemma responses_other: "responses_ok cfg es \<Longrightarrow> completion e = [] \<Longrightarrow> responses_ok cfg (es @ [e])"
  by (auto simp: responses_ok_def)

lemma responses_error: "responses_ok cfg es \<Longrightarrow> responses_ok cfg (es @ [Tr_completed rid r (Some e)])"
  by (auto simp: responses_ok_def)

lemma put_conn_fields [simp]:
  "fst (put_conn i c s) = fst s" "tp_sockets (snd (put_conn i c s)) = (tp_sockets (snd s))[i := c]"
  "tp_requests (snd (put_conn i c s)) = tp_requests (snd s)" "tp_waiting (snd (put_conn i c s)) = tp_waiting (snd s)"
  "tp_admitted (snd (put_conn i c s)) = tp_admitted (snd s)" "tp_bytes (snd (put_conn i c s)) = tp_bytes (snd s)"
  "tp_log (snd (put_conn i c s)) = tp_log (snd s)"
  by (simp_all add: put_conn_def)

text \<open>A change of one connection outside of what the invariant reads, with a loop that keeps its timers.\<close>

lemma tr_inv_put:
  assumes "tr_inv cfg n X R U D s" and "i < n" and "proj c = proj (conn i s)" and "loop_inv l"
    and "set (el_timers (fst s)) \<subseteq> set (el_timers l)" and "el_next (fst s) \<le> el_next l"
    and "registrations (el_tasks l) = registrations (el_tasks (fst s))" and "concat (map completion es) = []"
  shows "tr_inv cfg n X R U D (l, (snd s)\<lparr>tp_sockets := (tp_sockets (snd s))[i := c], tp_log := tp_log (snd s) @ es\<rparr>)"
proof -
  have "responses_ok cfg (tp_log (snd s) @ es)"
    using tr_inv_parts(3) [OF assms(1)] assms(8) by (fastforce simp: responses_ok_def)
  moreover have "map proj ((tp_sockets (snd s))[i := c]) = map proj (tp_sockets (snd s))"
    using assms(2,3) tr_inv_parts(2) [OF assms(1)] by (intro map_proj_put) (simp_all add: conn_def)
  ultimately show ?thesis
    using assms by (intro tr_inv_quiet [OF assms(1)]) simp_all
qed

lemma put_conn_log: "put_conn i c (tr_log e s) = tr_log e (put_conn i c s)"
  by (cases s, cases "snd s") (simp add: put_conn_def tr_log_def)

lemma tr_inv_put_same:
  assumes "tr_inv cfg n X R U D s" and "i < n" and "proj c = proj (conn i s)"
  shows "tr_inv cfg n X R U D (put_conn i c s)" and "completion e = [] \<Longrightarrow> tr_inv cfg n X R U D (put_conn i c (tr_log e s))"
    and "completion e = [] \<Longrightarrow> tr_inv cfg n X R U D (tr_log e (put_conn i c s))"
  using tr_inv_put [OF assms tr_inv_parts(1) [OF assms(1)], of "[]"] tr_inv_put [OF assms tr_inv_parts(1) [OF assms(1)], of "[e]"]
  unfolding put_conn_log by (simp_all add: put_conn_def tr_log_def)

section \<open>Releasing a request\<close>

lemma release_split:
  assumes "distinct (map fst reqs)" and "(rid, q) \<in> set reqs"
  shows "\<exists>xs ys. reqs = xs @ (rid, q) # ys \<and> filter (\<lambda>(m, _). m \<noteq> rid) reqs = xs @ ys"
proof -
  obtain xs ys where r: "reqs = xs @ (rid, q) # ys"
    using assms(2) by (meson split_list)
  then have "filter (\<lambda>(m, _). m \<noteq> rid) xs = xs" "filter (\<lambda>(m, _). m \<noteq> rid) ys = ys"
    using assms(1) by (auto simp: filter_id_conv rev_image_eqI)
  with r show ?thesis
    by auto
qed

lemma slot_count_append: "slot_count i (xs @ ys) = slot_count i xs + slot_count i ys"
  by (simp add: slot_count_def)

lemma slot_count_release:
  assumes "distinct (map fst reqs)" and "(rid, q) \<in> set reqs"
  shows "slot_count i reqs = slot_count i (filter (\<lambda>(m, _). m \<noteq> rid) reqs) + (if pq_slot q = Some i then 1 else 0)"
proof -
  obtain xs ys where r: "reqs = xs @ (rid, q) # ys" "filter (\<lambda>(m, _). m \<noteq> rid) reqs = xs @ ys"
    using release_split [OF assms] by blast
  show ?thesis
    unfolding r(2) unfolding r(1) slot_count_append by (simp add: slot_count_def)
qed

lemma sum_release:
  fixes f :: "pending_request \<Rightarrow> nat"
  assumes "distinct (map fst reqs)" and "(rid, q) \<in> set reqs"
  shows "sum_list (map (\<lambda>(_, q). f q) reqs) = sum_list (map (\<lambda>(_, q). f q) (filter (\<lambda>(m, _). m \<noteq> rid) reqs)) + f q"
    and "length reqs = Suc (length (filter (\<lambda>(m, _). m \<noteq> rid) reqs))"
proof -
  obtain xs ys where r: "reqs = xs @ (rid, q) # ys" "filter (\<lambda>(m, _). m \<noteq> rid) reqs = xs @ ys"
    using release_split [OF assms] by blast
  show "sum_list (map (\<lambda>(_, q). f q) reqs) = sum_list (map (\<lambda>(_, q). f q) (filter (\<lambda>(m, _). m \<noteq> rid) reqs)) + f q"
    "length reqs = Suc (length (filter (\<lambda>(m, _). m \<noteq> rid) reqs))"
    unfolding r(2) unfolding r(1) by simp_all
qed

lemma map_fst_release: "map fst (filter (\<lambda>(m, _). m \<noteq> rid) reqs) = filter (\<lambda>m. m \<noteq> rid) (map fst reqs)"
  by (induction reqs) auto

text \<open>\<open>S\<close> is the set of retired identifiers of the connection afterwards: the same, or with one more.\<close>

lemma slots_okD:
  assumes "slots_ok cfg n cs reqs waiting"
  shows "distinct (map fst reqs)" and "length cs = n" and "tr_limit cfg < sz_mod" and "(rid, q) \<in> set reqs \<Longrightarrow> pq_slot q = Some i \<Longrightarrow> i < n"
    and "k < n \<Longrightarrow> fst (cs ! k) = slot_count k reqs" and "k < n \<Longrightarrow> finite (fst (snd (cs ! k)))"
    and "k < n \<Longrightarrow> fst (cs ! k) + card (fst (snd (cs ! k))) \<le> tr_limit cfg"
    and "distinct waiting" and "set waiting = {rid. \<exists>q. (rid, q) \<in> set reqs \<and> pq_slot q = None}"
  using assms unfolding slots_ok_def by (blast, blast, blast, blast, blast, blast, blast, blast, blast)

lemma slots_okI:
  assumes "distinct (map fst reqs)" and "length cs = n" and "tr_limit cfg < sz_mod" and "\<And>rid q i. (rid, q) \<in> set reqs \<Longrightarrow> pq_slot q = Some i \<Longrightarrow> i < n"
    and "distinct waiting" and "set waiting = {rid. \<exists>q. (rid, q) \<in> set reqs \<and> pq_slot q = None}"
    and "\<And>k. k < n \<Longrightarrow> fst (cs ! k) = slot_count k reqs \<and> finite (fst (snd (cs ! k))) \<and> fst (cs ! k) + card (fst (snd (cs ! k))) \<le> tr_limit cfg"
  shows "slots_ok cfg n cs reqs waiting"
  using assms unfolding slots_ok_def by blast

lemma slots_release:
  assumes "slots_ok cfg n cs reqs waiting" and "(rid, q) \<in> set reqs" and "pq_slot q = Some i"
    and "finite S" and "card S \<le> Suc (card (fst (snd (cs ! i))))"
  shows "slots_ok cfg n (cs[i := (fst (cs ! i) - 1, S, snd (snd (cs ! i)))]) (filter (\<lambda>(m, _). m \<noteq> rid) reqs) waiting"
    and "1 \<le> fst (cs ! i)" and "fst (cs ! i) < sz_mod" and "i < n"
proof -
  note d = slots_okD [OF assms(1)]
  have i: "i < n"
    using d(4) assms(2,3) by blast
  have c: "fst (cs ! k) = slot_count k (filter (\<lambda>(m, _). m \<noteq> rid) reqs) + (if k = i then 1 else 0)" if "k < n" for k
    using slot_count_release [OF d(1) assms(2), of k] assms(3) d(5) [OF that] by simp
  have "q' = q" if "(rid, q') \<in> set reqs" for q'
    using that assms(2) d(1) by (meson eq_key_imp_eq_value)
  then have w: "set waiting = {m. \<exists>q. (m, q) \<in> set (filter (\<lambda>(m, _). m \<noteq> rid) reqs) \<and> pq_slot q = None}"
    using assms(3) unfolding d(9) by auto
  have l: "fst (cs ! i) - 1 + card S \<le> tr_limit cfg"
    using c [OF i] assms(5) d(7) [OF i] by simp
  have k: "fst (cs' ! k) = slot_count k (filter (\<lambda>(m, _). m \<noteq> rid) reqs) \<and> finite (fst (snd (cs' ! k))) \<and>
      fst (cs' ! k) + card (fst (snd (cs' ! k))) \<le> tr_limit cfg" if "k < n" "cs' = cs[i := (fst (cs ! i) - 1, S, snd (snd (cs ! i)))]" for k cs'
    using l c [OF that(1)] c [OF i] d(2) d(6) [OF that(1)] d(7) [OF that(1)] assms(4) that by (cases "k = i") simp_all
  show "slots_ok cfg n (cs[i := (fst (cs ! i) - 1, S, snd (snd (cs ! i)))]) (filter (\<lambda>(m, _). m \<noteq> rid) reqs) waiting"
    using d(2,3,4,8) w d(1) by (intro slots_okI k [OF _ refl]) (auto simp: map_fst_release)
  show "1 \<le> fst (cs ! i)" "fst (cs ! i) < sz_mod" "i < n"
    using c [OF i] d(3,7) i by force+
qed

lemma slots_release_waiting:
  assumes "slots_ok cfg n cs reqs waiting" and "(rid, q) \<in> set reqs" and "pq_slot q = None"
  shows "slots_ok cfg n cs (filter (\<lambda>(m, _). m \<noteq> rid) reqs) (filter (\<lambda>m. m \<noteq> rid) waiting)"
proof -
  have d: "distinct (map fst reqs)"
    using assms(1) by (simp add: slots_ok_def)
  have "slot_count k (filter (\<lambda>(m, _). m \<noteq> rid) reqs) = slot_count k reqs" for k
    using slot_count_release [OF d assms(2), of k] assms(3) by simp
  with assms(1) show ?thesis
    unfolding slots_ok_def map_fst_release by auto
qed

lemma timers_okD:
  assumes "timers_ok X D l cs reqs"
  shows "loop_inv l" and "distinct (map (pq_timer \<circ> snd) reqs)" and "c \<in> set cs \<Longrightarrow> snd (snd c) < el_next l"
    and "(rid, q) \<in> set reqs \<Longrightarrow> 0 < pq_timer q \<and> pq_timer q < el_next l"
    and "(rid, q) \<in> set reqs \<Longrightarrow> c \<in> set cs \<Longrightarrow> snd (snd c) \<noteq> pq_timer q"
    and "(rid, q) \<in> set reqs \<Longrightarrow> rid \<notin> X \<Longrightarrow> (D rid, pq_timer q, X_deadline rid) \<in> set (el_timers l)"
  using assms unfolding timers_ok_def by (blast, blast, blast, blast, blast, blast)

lemma timers_okI:
  assumes "loop_inv l" and "distinct (map (pq_timer \<circ> snd) reqs)" and "\<And>c. c \<in> set cs \<Longrightarrow> snd (snd c) < el_next l"
    and "\<And>rid q. (rid, q) \<in> set reqs \<Longrightarrow> 0 < pq_timer q \<and> pq_timer q < el_next l"
    and "\<And>rid q c. (rid, q) \<in> set reqs \<Longrightarrow> c \<in> set cs \<Longrightarrow> snd (snd c) \<noteq> pq_timer q"
    and "\<And>rid q. (rid, q) \<in> set reqs \<Longrightarrow> rid \<notin> X \<Longrightarrow> (D rid, pq_timer q, X_deadline rid) \<in> set (el_timers l)"
  shows "timers_ok X D l cs reqs"
  using assms unfolding timers_ok_def by blast

lemma timers_release:
  assumes "timers_ok X D l cs reqs" and "(rid, q) \<in> set reqs"
    and "\<And>c. c \<in> set cs' \<Longrightarrow> \<exists>c' \<in> set cs. snd (snd c) = snd (snd c')"
  shows "timers_ok X D (Cancel (pq_timer q) l) cs' (filter (\<lambda>(m, _). m \<noteq> rid) reqs)"
proof -
  note t = timers_okD [OF assms(1)]
  have ne: "pq_timer q' \<noteq> pq_timer q" if "(m, q') \<in> set reqs" "m \<noteq> rid" for m q'
    using t(2) assms(2) that by (fastforce simp: distinct_map inj_on_def)
  have "distinct (map (pq_timer \<circ> snd) (filter P reqs))" for P
    using t(2) by (auto simp: distinct_map inj_on_def)
  moreover have "snd (snd c) < el_next l \<and> (\<forall>(m, q) \<in> set reqs. snd (snd c) \<noteq> pq_timer q)" if "c \<in> set cs'" for c
    using assms(3) [OF that] t(3,5) by force
  ultimately show ?thesis
    using t(1,4,6) ne by (intro timers_okI) (fastforce simp: Cancel_timers [OF t(1)] Cancel_inv)+
qed

lemma admission_release:
  assumes "admission_ok cfg reqs regs admitted bytes" and "(rid, q) \<in> set reqs" and "distinct (map fst reqs)"
  shows "admission_ok cfg (filter (\<lambda>(m, _). m \<noteq> rid) reqs) regs (sz_sub admitted 1) (sz_sub bytes (length (pq_bytes q)))"
proof -
  have s: "sz_sub admitted 1 = admitted - 1" "sz_sub bytes (length (pq_bytes q)) = bytes - length (pq_bytes q)"
    using assms(1) sum_release(1) [OF assms(3,2), of "\<lambda>q. length (pq_bytes q)"] sum_release(2) [OF assms(3,2)] by (intro sz_sub_exact; simp add: admission_ok_def)+
  show ?thesis
    using assms(1) sum_release(1) [OF assms(3,2), of "\<lambda>q. length (pq_bytes q)"] sum_release(2) [OF assms(3,2)]
    unfolding s admission_ok_def by linarith
qed

lemma once_release:
  assumes "once_ok U D es reqs regs" and "(rid, q) \<in> set reqs"
  shows "once_ok U D (es @ [Tr_completed rid r e]) (filter (\<lambda>(m, _). m \<noteq> rid) reqs) regs"
proof -
  have "rid \<in> fst ` set reqs"
    using assms(2) by force
  with assms(1) show ?thesis
    unfolding once_ok_def map_fst_release map_append concat_append by auto
qed

lemma lookup_requestD: "lookup_request rid s = Some q \<Longrightarrow> (rid, q) \<in> set (tp_requests (snd s))"
  by (simp add: lookup_request_def map_of_SomeD)

lemma update_timer: "i < length cs \<Longrightarrow> x \<in> set (cs[i := (a, b, snd (snd (cs ! i)))]) \<Longrightarrow> \<exists>c \<in> set cs. snd (snd x) = snd (snd c)"
  using set_update_subset_insert [of cs i "(a, b, snd (snd (cs ! i)))"] nth_mem [of i cs] by (metis insertE snd_conv subsetD)

lemma release_waiting_inv:
  assumes "tr_inv cfg n X R U D s" and "lookup_request rid s = Some q" and "pq_slot q = None"
    and "responses_ok cfg (tp_log (snd s) @ [Tr_completed rid r e])"
  shows "tr_inv cfg n X R U D (tr_log (Tr_completed rid r e) (release rid q s))"
proof -
  note inv = assms(1) [unfolded tr_inv_def] and m = lookup_requestD [OF assms(2)]
  have "timers_ok X D (Cancel (pq_timer q) (fst s)) (map proj (tp_sockets (snd s))) (filter (\<lambda>(m, _). m \<noteq> rid) (tp_requests (snd s)))"
    using inv by (intro timers_release [OF _ m]) auto
  then show ?thesis
    using inv slots_release_waiting [OF _ m assms(3)] admission_release [OF _ m slots_okD(1) [OF inv [THEN conjunct1]]]
      once_release [OF _ m] assms(3,4)
    unfolding tr_inv_def by (simp add: release_def Let_def loop_frame)
qed

lemma release_slot_inv:
  assumes "tr_inv cfg n X R U D s" and "lookup_request rid s = Some q" and "pq_slot q = Some i"
    and "responses_ok cfg (tp_log (snd s) @ [Tr_completed rid r e])"
    and "tc_inflight c = tc_inflight (conn i s)" and "tc_connect_timer c = tc_connect_timer (conn i s)"
    and "finite (tc_retired c)" and "card (tc_retired c) \<le> Suc (card (tc_retired (conn i s)))"
  shows "tr_inv cfg n X R U D (tr_log (Tr_completed rid r e) (release rid q (put_conn i c s)))"
proof -
  note inv = assms(1) [unfolded tr_inv_def] and m = lookup_requestD [OF assms(2)]
  define cs where "cs = map proj (tp_sockets (snd s))"
  note d = slots_okD [OF inv [THEN conjunct1]]
  have i: "i < length (tp_sockets (snd s))"
    using d(2,4) m assms(3) by simp
  have csi: "cs ! i = (tc_inflight c, tc_retired (conn i s), tc_connect_timer c)"
    using i assms(5,6) by (simp add: cs_def proj_def conn_def)
  note r = slots_release [OF inv [THEN conjunct1, folded cs_def] m assms(3,7), unfolded csi fst_conv snd_conv, OF assms(8)]
  have "sz_sub (tc_inflight c) 1 = tc_inflight c - 1"
    using r(2,3) by (rule sz_sub_exact)
  then have cs': "map proj ((tp_sockets (snd s))[i := c\<lparr>tc_inflight := sz_sub (tc_inflight c) 1\<rparr>]) =
      cs[i := (tc_inflight c - 1, tc_retired c, tc_connect_timer c)]"
    by (simp add: cs_def map_update proj_def)
  have "\<exists>c' \<in> set cs. snd (snd x) = snd (snd c')" if "x \<in> set (cs[i := (tc_inflight c - 1, tc_retired c, tc_connect_timer c)])" for x
    using that update_timer [of i cs x] csi i by (simp add: cs_def)
  then have "timers_ok X D (Cancel (pq_timer q) (fst s)) (cs[i := (tc_inflight c - 1, tc_retired c, tc_connect_timer c)])
      (filter (\<lambda>(m, _). m \<noteq> rid) (tp_requests (snd s)))"
    using inv m by (intro timers_release [of _ _ _ cs]) (simp_all add: cs_def)
  then show ?thesis
    using inv r(1) admission_release [OF _ m d(1)] once_release [OF _ m] assms(3,4) i
    unfolding tr_inv_def by (simp add: release_def put_conn_def Let_def loop_frame cs' [unfolded One_nat_def])
qed

section \<open>Changes of a connection\<close>

text \<open>
  A change of connection \<open>i\<close> that keeps its number of requests and adds no retired identifiers,
  with a loop that keeps the timers of the requests.
\<close>

lemma tr_inv_conn:
  assumes "tr_inv cfg n X R U D s" and "i < n" and "tc_inflight c = tc_inflight (conn i s)" and "tc_retired c \<subseteq> tc_retired (conn i s)"
    and "loop_inv l" and "el_next (fst s) \<le> el_next l" and "tc_connect_timer c < el_next l"
    and "\<And>rid q. (rid, q) \<in> set (tp_requests (snd s)) \<Longrightarrow> tc_connect_timer c \<noteq> pq_timer q"
    and "\<And>rid q d t. (rid, q) \<in> set (tp_requests (snd s)) \<Longrightarrow> (d, pq_timer q, t) \<in> set (el_timers (fst s)) \<Longrightarrow> (d, pq_timer q, t) \<in> set (el_timers l)"
    and "registrations (el_tasks l) = registrations (el_tasks (fst s))" and "completions es = []"
  shows "tr_inv cfg n X R U D (l, (snd s)\<lparr>tp_sockets := (tp_sockets (snd s))[i := c], tp_log := tp_log (snd s) @ es\<rparr>)"
proof -
  note inv = assms(1) [unfolded tr_inv_def]
  define cs where "cs = map proj (tp_sockets (snd s))"
  note d = slots_okD [OF inv [THEN conjunct1, folded cs_def]] and t = timers_okD [OF inv [THEN conjunct2, THEN conjunct1, folded cs_def]]
  have i: "i < length cs" and csi: "cs ! i = proj (conn i s)"
    using assms(2) d(2) by (simp_all add: cs_def conn_def)
  have ret: "finite (tc_retired (conn i s))" "card (tc_retired c) \<le> card (tc_retired (conn i s))"
    using d(6) [OF assms(2)] assms(4) by (auto simp: csi proj_def intro: card_mono)
  have c: "fst (cs[i := proj c] ! k) = slot_count k (tp_requests (snd s)) \<and> finite (fst (snd (cs[i := proj c] ! k))) \<and>
      fst (cs[i := proj c] ! k) + card (fst (snd (cs[i := proj c] ! k))) \<le> tr_limit cfg" if "k < n" for k
    using d(5) [OF that] d(6) [OF that] d(7) [OF that] csi i ret assms(3,4)
    by (cases "k = i") (auto simp: proj_def dest: finite_subset)
  have "slots_ok cfg n (cs[i := proj c]) (tp_requests (snd s)) (tp_waiting (snd s))"
    by (rule slots_okI [OF d(1) _ d(3) d(4) d(8,9) c]) (simp_all add: d(2))
  moreover have "timers_ok X D l (cs[i := proj c]) (tp_requests (snd s))"
  proof (rule timers_okI [OF assms(5) t(2)])
    show "snd (snd x) < el_next l" if "x \<in> set (cs[i := proj c])" for x
      using subsetD [OF set_update_subset_insert that] t(3) [of x] assms(6,7) by (auto simp: proj_def)
    show "snd (snd x) \<noteq> pq_timer q" if "(rid, q) \<in> set (tp_requests (snd s))" "x \<in> set (cs[i := proj c])" for rid q x
      using subsetD [OF set_update_subset_insert that(2)] t(5) [OF that(1), of x] assms(8) [OF that(1)] by (auto simp: proj_def)
    show "(D rid, pq_timer q, X_deadline rid) \<in> set (el_timers l)" if "(rid, q) \<in> set (tp_requests (snd s))" "rid \<notin> X" for rid q
      using t(6) [OF that] assms(9) [OF that(1)] by blast
  qed (use t(4) assms(6) in force)
  moreover have "responses_ok cfg (tp_log (snd s) @ es)"
    using inv assms(11) by (fastforce simp: responses_ok_def)
  moreover have "once_ok U D (tp_log (snd s) @ es) reqs regs = once_ok U D (tp_log (snd s)) reqs regs" for reqs regs
    unfolding once_ok_def map_append concat_append assms(11) by simp
  ultimately show ?thesis
    using inv assms(10) by (simp add: tr_inv_def cs_def map_update)
qed

section \<open>Changes of a request\<close>

lemma update_split:
  assumes "distinct (map fst reqs)" and "(rid, q) \<in> set reqs"
  shows "\<exists>xs ys. reqs = xs @ (rid, q) # ys \<and> map (\<lambda>(m, q). (m, if m = rid then f q else q)) reqs = xs @ (rid, f q) # ys"
proof -
  obtain xs ys where r: "reqs = xs @ (rid, q) # ys"
    using assms(2) by (meson split_list)
  then have "map (\<lambda>(m, q). (m, if m = rid then f q else q)) xs = xs" "map (\<lambda>(m, q). (m, if m = rid then f q else q)) ys = ys"
    using assms(1) by (auto intro!: map_idI simp: rev_image_eqI)
  with r show ?thesis
    by auto
qed

lemma update_fst: "map fst (map (\<lambda>(m, q). (m, if m = rid then f q else q)) reqs) = map fst reqs"
  by (induction reqs) auto

lemma timers_update:
  assumes "timers_ok X D l cs (xs @ (rid, q) # ys)" and "pq_timer q' = pq_timer q"
  shows "timers_ok X D l cs (xs @ (rid, q') # ys)"
proof -
  note t = timers_okD [OF assms(1)]
  have old: "\<exists>p. (m, p) \<in> set (xs @ (rid, q) # ys) \<and> pq_timer p = pq_timer p'" if "(m, p') \<in> set (xs @ (rid, q') # ys)" for m p'
    using that assms(2) by auto
  show ?thesis
  proof (rule timers_okI [OF t(1) _ t(3)])
    show "distinct (map (pq_timer \<circ> snd) (xs @ (rid, q') # ys))"
      using t(2) assms(2) by simp
  qed (use old t(4-6) in metis)+
qed

lemma timers_conns:
  assumes "timers_ok X D l cs reqs" and "\<And>c. c \<in> set cs' \<Longrightarrow> \<exists>c' \<in> set cs. snd (snd c) = snd (snd c')"
  shows "timers_ok X D l cs' reqs"
proof -
  note t = timers_okD [OF assms(1)]
  show ?thesis
    by (rule timers_okI [OF t(1,2)]) (use assms(2) t(3-6) in metis)+
qed

lemma admission_update: "admission_ok cfg (xs @ (rid, q) # ys) regs a b \<Longrightarrow> pq_bytes q' = pq_bytes q \<Longrightarrow> admission_ok cfg (xs @ (rid, q') # ys) regs a b"
  by (simp add: admission_ok_def)

lemma once_update: "once_ok U D es (xs @ (rid, q) # ys) regs \<Longrightarrow> once_ok U D es (xs @ (rid, q') # ys) regs"
  by (simp add: once_ok_def)

lemma slots_update:
  assumes "slots_ok cfg n cs (xs @ (rid, q) # ys) waiting" and "pq_slot q' = pq_slot q"
  shows "slots_ok cfg n cs (xs @ (rid, q') # ys) waiting"
proof -
  note d = slots_okD [OF assms(1)]
  have c: "slot_count k (xs @ (rid, q') # ys) = slot_count k (xs @ (rid, q) # ys)" for k
    using assms(2) by (simp add: slot_count_def)
  have w: "{m. \<exists>p. (m, p) \<in> set (xs @ (rid, q') # ys) \<and> pq_slot p = None} = {m. \<exists>p. (m, p) \<in> set (xs @ (rid, q) # ys) \<and> pq_slot p = None}"
    using assms(2) by auto
  have "k < n" if "(m, p) \<in> set (xs @ (rid, q') # ys)" "pq_slot p = Some k" for m p k
    using that d(4) [of m p k] d(4) [of rid q k] assms(2) by auto
  then show ?thesis
    using d by (intro slots_okI) (simp_all only: c w, simp)
qed

lemma slots_assign:
  assumes "slots_ok cfg n cs (xs @ (rid, q) # ys) (rid # rest)" and "pq_slot q' = Some i" and "i < n"
    and "fst (cs ! i) + card (fst (snd (cs ! i))) < tr_limit cfg"
  shows "slots_ok cfg n (cs[i := (Suc (fst (cs ! i)), snd (cs ! i))]) (xs @ (rid, q') # ys) rest"
proof -
  note d = slots_okD [OF assms(1)]
  have new: "(rid, p) \<notin> set (xs @ ys)" for p
    using d(1) by force
  have "\<exists>p. (rid, p) \<in> set (xs @ (rid, q) # ys) \<and> pq_slot p = None"
    using d(9) by auto
  then have q: "pq_slot q = None"
    using new by auto
  have "slot_count k (xs @ (rid, q') # ys) = slot_count k (xs @ (rid, q) # ys) + (if k = i then 1 else 0)" for k
    using assms(2) q by (simp add: slot_count_def)
  then have c: "fst (cs' ! k) = slot_count k (xs @ (rid, q') # ys) \<and> finite (fst (snd (cs' ! k))) \<and>
      fst (cs' ! k) + card (fst (snd (cs' ! k))) \<le> tr_limit cfg" if "k < n" "cs' = cs[i := (Suc (fst (cs ! i)), snd (cs ! i))]" for k cs'
    using d(2) d(5) [OF that(1)] d(6) [OF that(1)] d(7) [OF that(1)] assms(3,4) that by (cases "k = i") simp_all
  have "m \<in> set rest \<longleftrightarrow> (\<exists>p. (m, p) \<in> set (xs @ (rid, q') # ys) \<and> pq_slot p = None)" for m
  proof (cases "m = rid")
    case True
    with d(8) new assms(2) show ?thesis
      by auto
  next
    case False
    then have "m \<in> set rest \<longleftrightarrow> m \<in> set (rid # rest)"
      by simp
    then show ?thesis
      unfolding d(9) using False by simp
  qed
  then have w: "set rest = {m. \<exists>p. (m, p) \<in> set (xs @ (rid, q') # ys) \<and> pq_slot p = None}"
    by blast
  have "k < n" if "(m, p) \<in> set (xs @ (rid, q') # ys)" "pq_slot p = Some k" for m p k
    using that d(4) [of m p k] assms(2,3) by auto
  then show ?thesis
    using d(1,2,3,8) by (intro slots_okI [OF _ _ _ _ _ w c [OF _ refl]]) simp_all
qed

lemma update_request_inv:
  assumes "tr_inv cfg n X R U D s" and "\<And>q. pq_slot (f q) = pq_slot q" and "\<And>q. pq_timer (f q) = pq_timer q" and "\<And>q. pq_bytes (f q) = pq_bytes q"
  shows "tr_inv cfg n X R U D (update_request rid f s)"
proof (cases "\<exists>q. (rid, q) \<in> set (tp_requests (snd s))")
  case True
  note inv = assms(1) [unfolded tr_inv_def]
  from True obtain q xs ys where r: "tp_requests (snd s) = xs @ (rid, q) # ys"
    "map (\<lambda>(m, q). (m, if m = rid then f q else q)) (tp_requests (snd s)) = xs @ (rid, f q) # ys"
    using update_split [OF slots_okD(1) [OF inv [THEN conjunct1]]] by blast
  show ?thesis
    using inv slots_update [of _ _ _ xs rid q ys] timers_update [of _ _ _ _ xs rid q ys] admission_update [of _ xs rid q ys] once_update [of _ _ _ xs rid q ys] assms(2-4)
    unfolding tr_inv_def update_request_def fst_conv snd_conv by (simp add: r(2)) (simp add: r(1))
next
  case False
  then have "map (\<lambda>(m, q). (m, if m = rid then f q else q)) (tp_requests (snd s)) = tp_requests (snd s)"
    by (force intro: map_idI)
  with assms(1) show ?thesis
    by (simp add: update_request_def)
qed

lemma assign_inv:
  assumes "tr_inv cfg n X R U D s" and "i < n" and "has_room cfg i s" and "tp_waiting (snd s) = rid # rest" and "lookup_request rid s = Some q"
    and "tc_inflight c = sz_add (tc_inflight (conn i s)) 1" and "tc_retired c = tc_retired (conn i s)" and "tc_connect_timer c = tc_connect_timer (conn i s)"
  shows "tr_inv cfg n X R U D (put_conn i c (tr_log (Tr_assigned i rid b) (update_request rid (pq_slot_update (\<lambda>_. Some i)) (fst s, (snd s)\<lparr>tp_waiting := rest\<rparr>))))"
proof -
  note inv = assms(1) [unfolded tr_inv_def]
  define cs where "cs = map proj (tp_sockets (snd s))"
  note d = slots_okD [OF inv [THEN conjunct1, folded cs_def]]
  have i: "i < length (tp_sockets (snd s))" and csi: "cs ! i = proj (conn i s)"
    using assms(2) d(2) by (simp_all add: cs_def conn_def)
  have le: "tc_inflight (conn i s) + card (tc_retired (conn i s)) < sz_mod"
    using d(3) d(7) [OF assms(2)] by (simp add: csi proj_def)
  then have room: "tc_inflight (conn i s) + card (tc_retired (conn i s)) < tr_limit cfg"
    using assms(3) by (simp add: has_room_def sz_add_exact)
  then have "tc_inflight c = Suc (tc_inflight (conn i s))"
    using assms(6) d(3) by (simp add: sz_add_exact)
  then have cs': "map proj ((tp_sockets (snd s))[i := c]) = cs[i := (Suc (fst (cs ! i)), snd (cs ! i))]"
    by (simp add: cs_def [symmetric] map_update csi) (simp add: proj_def assms(7,8))
  obtain xs ys where r: "tp_requests (snd s) = xs @ (rid, q) # ys"
    "map (\<lambda>(m, q). (m, if m = rid then pq_slot_update (\<lambda>_. Some i) q else q)) (tp_requests (snd s)) = xs @ (rid, pq_slot_update (\<lambda>_. Some i) q) # ys"
    using update_split [OF d(1) lookup_requestD [OF assms(5)]] by blast
  let ?q = "q\<lparr>pq_slot := Some i\<rparr>"
  have "slots_ok cfg n (cs[i := (Suc (fst (cs ! i)), snd (cs ! i))]) (xs @ (rid, ?q) # ys) rest"
    using inv room assms(2,4) by (rule_tac slots_assign [where q = q]) (simp_all add: r(1) csi cs_def [symmetric], simp add: proj_def)
  moreover have "timers_ok X D (fst s) (cs[i := (Suc (fst (cs ! i)), snd (cs ! i))]) (xs @ (rid, ?q) # ys)"
  proof (rule timers_conns [of _ _ _ cs])
    show "timers_ok X D (fst s) cs (xs @ (rid, ?q) # ys)"
      using inv by (rule_tac timers_update [where q = q]) (simp_all add: r(1) cs_def)
    show "\<exists>c' \<in> set cs. snd (snd x) = snd (snd c')" if "x \<in> set (cs[i := (Suc (fst (cs ! i)), snd (cs ! i))])" for x
      using update_timer [of i cs x "Suc (fst (cs ! i))" "fst (snd (cs ! i))"] that i by (simp add: cs_def)
  qed
  moreover have "admission_ok cfg (xs @ (rid, ?q) # ys) (registrations (R @ el_tasks (fst s))) (tp_admitted (snd s)) (tp_bytes (snd s))"
    using inv unfolding r(1) by (rule_tac admission_update [where q = q]) simp_all
  moreover have "once_ok U D (tp_log (snd s) @ [Tr_assigned i rid b]) (xs @ (rid, ?q) # ys) (registrations (R @ el_tasks (fst s)))"
    using inv once_update [of U D "tp_log (snd s)" xs rid q ys _ ?q] unfolding r(1) by (simp add: once_ok_def)
  ultimately show ?thesis
    using responses_other [of cfg "tp_log (snd s)" "Tr_assigned i rid b"] inv
    by (simp add: tr_inv_def update_request_def put_conn_def tr_log_def r(2) cs')
qed

section \<open>Every elementary change keeps the invariant\<close>

lemma completed_inv:
  assumes "tr_inv cfg n X R U D s" and "lookup_request rid s = Some q"
  shows "tr_inv cfg n X R U D (tr_log (Tr_completed rid [] (Some e)) (release rid q s))"
proof (cases "pq_slot q")
  case None
  then show ?thesis
    by (rule release_waiting_inv [OF assms]) (simp add: responses_error tr_inv_parts(3) [OF assms(1)])
next
  case (Some i)
  have "put_conn i (conn i s) s = s"
    by (simp add: put_conn_def conn_def)
  moreover have "i < n" "finite (tc_retired (conn i s))"
    using assms Some slots_okD(2,4,6) [OF assms(1) [unfolded tr_inv_def, THEN conjunct1]] lookup_requestD [OF assms(2)]
    by (fastforce simp: proj_def conn_def)+
  ultimately show ?thesis
    using release_slot_inv [OF assms Some, of "[]" "Some e" "conn i s"] by (simp add: responses_error tr_inv_parts(3) [OF assms(1)])
qed

lemma dropped_inv:
  assumes "tr_inv cfg n X R U D s" and "i < n"
  shows "tr_inv cfg n X R U D (drop_conn i s)"
proof -
  note t = timers_okD [OF assms(1) [unfolded tr_inv_def, THEN conjunct2, THEN conjunct1]]
  have c: "proj (conn i s) \<in> set (map proj (tp_sockets (snd s)))"
    using assms(2) tr_inv_parts(2) [OF assms(1)] by (simp add: conn_def)
  define l where "l = Cancel (tc_connect_timer (conn i s)) (if tc_fd (conn i s) \<ge> 0 then Remove (tc_token (conn i s)) (fst s) else fst s)"
  have l: "loop_inv l" "el_next l = el_next (fst s)" "el_tasks l = el_tasks (fst s)"
    "set (el_timers l) = {x \<in> set (el_timers (fst s)). fst (snd x) \<noteq> tc_connect_timer (conn i s)}"
    using t(1) by (auto simp: l_def loop_invs loop_frame Cancel_timers)
  have "tr_inv cfg n X R U D (l, (snd s)\<lparr>tp_sockets := (tp_sockets (snd s))[i := reset_conn (conn i s)], tp_log := tp_log (snd s) @ [Tr_reset i]\<rparr>)"
    using t(3) [OF c] t(5) [OF _ c] t(5) [OF _ c, THEN not_sym] assms l by (intro tr_inv_conn) (auto simp: reset_conn_def proj_def)
  then show ?thesis
    by (simp add: drop_conn_def Let_def put_conn_def tr_log_def l_def)
qed

lemma timed_inv:
  assumes "tr_inv cfg n X R U D s" and "i < n" and "At d (X_connect_deadline i) (fst s) = (tid, l)"
  shows "tr_inv cfg n X R U D (put_conn i ((conn i s)\<lparr>tc_connect_timer := tid\<rparr>) (l, snd s))"
proof -
  note t = timers_okD [OF assms(1) [unfolded tr_inv_def, THEN conjunct2, THEN conjunct1]]
  have l: "tid = el_next (fst s)" "l = snd (At d (X_connect_deadline i) (fst s))"
    using assms(3) by (auto simp: At_def Let_def)
  have "tr_inv cfg n X R U D (l, (snd s)\<lparr>tp_sockets := (tp_sockets (snd s))[i := (conn i s)\<lparr>tc_connect_timer := tid\<rparr>], tp_log := tp_log (snd s) @ []\<rparr>)"
    using t(1) t(4) [THEN conjunct2, THEN less_imp_neq, THEN not_sym] assms(1,2) by (intro tr_inv_conn) (auto simp: l loop_invs loop_frame)
  then show ?thesis
    by (simp add: put_conn_def)
qed

lemma added_inv:
  assumes "tr_inv cfg n X R U D s" and "i < n" and "Add ok fd ev i (fst s) = (r, l)" and "proj c = proj (conn i s)"
  shows "tr_inv cfg n X R U D (put_conn i c (l, snd s))"
proof -
  have "l = snd (Add ok fd ev i (fst s))"
    using assms(3) by simp
  then show ?thesis
    using tr_inv_put [OF assms(1,2,4), of l "[]"] tr_inv_parts(1) [OF assms(1)] by (simp add: loop_invs loop_frame put_conn_def)
qed

lemma established_inv:
  assumes "tr_inv cfg n X R U D s" and "i < n"
  shows "tr_inv cfg n X R U D (put_conn i ((conn i s)\<lparr>tc_connecting := False\<rparr>) (Cancel (tc_connect_timer (conn i s)) (fst s), snd s))"
proof -
  note t = timers_okD [OF assms(1) [unfolded tr_inv_def, THEN conjunct2, THEN conjunct1]]
  have c: "proj (conn i s) \<in> set (map proj (tp_sockets (snd s)))"
    using assms(2) tr_inv_parts(2) [OF assms(1)] by (simp add: conn_def)
  have "tr_inv cfg n X R U D (Cancel (tc_connect_timer (conn i s)) (fst s),
      (snd s)\<lparr>tp_sockets := (tp_sockets (snd s))[i := (conn i s)\<lparr>tc_connecting := False\<rparr>], tp_log := tp_log (snd s) @ []\<rparr>)"
    using t(1) t(3) [OF c] t(5) [OF _ c] t(5) [OF _ c, THEN not_sym] assms
    by (intro tr_inv_conn) (auto simp: proj_def loop_invs loop_frame Cancel_timers)
  then show ?thesis
    by (simp add: put_conn_def)
qed

lemma unretired_inv:
  assumes "tr_inv cfg n X R U D s" and "i < n"
  shows "tr_inv cfg n X R U D (put_conn i ((conn i s)\<lparr>tc_retired := tc_retired (conn i s) - {rid}\<rparr>) s)"
proof -
  note t = timers_okD [OF assms(1) [unfolded tr_inv_def, THEN conjunct2, THEN conjunct1]]
  have c: "proj (conn i s) \<in> set (map proj (tp_sockets (snd s)))"
    using assms(2) tr_inv_parts(2) [OF assms(1)] by (simp add: conn_def)
  have "tr_inv cfg n X R U D (fst s, (snd s)\<lparr>tp_sockets := (tp_sockets (snd s))[i := (conn i s)\<lparr>tc_retired := tc_retired (conn i s) - {rid}\<rparr>],
      tp_log := tp_log (snd s) @ []\<rparr>)"
    using t(1) t(3) [OF c] t(5) [OF _ c] assms by (intro tr_inv_conn) (auto simp: proj_def)
  then show ?thesis
    by (simp add: put_conn_def)
qed

lemma delivered_inv:
  assumes "tr_inv cfg n X R U D s" and "i < n" and "response_id cfg (conn i s) response = Inr rid" and "lookup_request rid s = Some q" and "pq_slot q = Some i"
  shows "tr_inv cfg n X R U D (tr_log (Tr_completed rid response None) (release rid q
           (if tg_ids cfg = None then put_conn i ((conn i s)\<lparr>tc_order := tl (tc_order (conn i s))\<rparr>) s else s)))"
proof -
  have "put_conn i (conn i s) s = s"
    by (simp add: put_conn_def conn_def)
  moreover have "finite (tc_retired (conn i s))"
    using slots_okD(2,6) [OF assms(1) [unfolded tr_inv_def, THEN conjunct1]] assms(2) by (fastforce simp: proj_def conn_def)
  moreover have "responses_ok cfg (tp_log (snd s) @ [Tr_completed rid response None])"
    using tr_inv_parts(3) [OF assms(1)] assms(3) by (auto simp: responses_ok_def response_id_def)
  ultimately show ?thesis
    using release_slot_inv [OF assms(1,4,5), of response None "conn i s"]
      release_slot_inv [OF assms(1,4,5), of response None "(conn i s)\<lparr>tc_order := tl (tc_order (conn i s))\<rparr>"] by simp
qed

lemma popped_inv: "tr_inv cfg n X R U D s \<Longrightarrow> tr_inv cfg n X R U D (snd (tr_next_input s))"
  using tr_inv_parts [of cfg n X R U D s] by (auto simp: tr_next_input_def split: list.splits elim!: tr_inv_quiet)

lemma stopped_inv: "tr_inv cfg n X R U D s \<Longrightarrow> tr_inv cfg n X R U D (stop_if_drained s)"
  using tr_inv_parts [of cfg n X R U D s] by (auto simp: stop_if_drained_def loop_invs loop_frame elim!: tr_inv_quiet)

lemma died_inv: "tr_inv cfg n X R U D s \<Longrightarrow> tr_inv cfg n X R U D (tr_die s)"
  using tr_inv_parts [of cfg n X R U D s] by (auto simp: tr_die_def elim!: tr_inv_quiet)

lemma interest_inv: "tr_inv cfg n X R U D s \<Longrightarrow> tr_inv cfg n X R U D (tr_interest inp i s)"
proof -
  assume inv: "tr_inv cfg n X R U D s"
  obtain r l where m: "Modify (ti_ctl inp) (tc_token (conn i s)) (EPOLLIN + EPOLLRDHUP + (if tc_output (conn i s) \<noteq> [] then EPOLLOUT else 0)) (fst s) = (r, l)"
    by fastforce
  then have "tr_inv cfg n X R U D (l, snd s)"
    using tr_inv_parts [OF inv] by (intro tr_inv_quiet [OF inv]) (auto simp: loop_invs loop_frame dest!: arg_cong [of _ _ snd])
  with m show ?thesis
    using died_inv by (simp add: tr_interest_def split: sum.splits)
qed

lemma posted_inv:
  assumes "tr_inv cfg n X R U D s" and "i < n" and "proj c = proj (conn i s)" and "registration t = []"
  shows "tr_inv cfg n X R U D (put_conn i c (Post t (fst s), snd s))"
  using tr_inv_put [OF assms(1-3), of "Post t (fst s)" "[]"] tr_inv_parts(1) [OF assms(1)] assms(4) by (simp add: loop_invs loop_frame put_conn_def)

lemma sent_all_inv:
  assumes "tr_inv cfg n X R U D s" and "i < n" and "proj c = proj (conn i s)" and "completion e = []"
  shows "tr_inv cfg n X R U D (put_conn i c (update_request rid (pq_sent_update (\<lambda>_. True)) (tr_log e s)))"
proof -
  have "tr_log e s = tr_log e (put_conn i (conn i s) s)"
    by (simp add: put_conn_def conn_def)
  then have "tr_inv cfg n X R U D (tr_log e s)"
    using tr_inv_put_same(3) [OF assms(1,2) refl, of e] assms(4) by simp
  then show ?thesis
    using assms(2,3) by (intro tr_inv_put_same(1) update_request_inv) (simp_all add: conn_def update_request_def)
qed

lemma request_inv: "tr_inv cfg n X R U D s \<Longrightarrow> lookup_request rid s = Some q \<Longrightarrow> pq_slot q = Some i \<Longrightarrow> i < n"
  unfolding tr_inv_def using slots_okD(4) lookup_requestD by blast

lemma skipped_inv:
  assumes "tr_inv cfg n X R U D s" and "tp_waiting (snd s) = rid # rest"
  shows "lookup_request rid s \<noteq> None"
proof -
  have "rid \<in> {rid. \<exists>q. (rid, q) \<in> set (tp_requests (snd s)) \<and> pq_slot q = None}"
    using slots_okD(9) [OF assms(1) [unfolded tr_inv_def, THEN conjunct1]] assms(2) by (metis list.set_intros(1))
  then show ?thesis
    by (auto simp: lookup_request_def map_of_eq_None_iff rev_image_eqI)
qed

interpretation inv: tr_keeps cfg n "tr_inv cfg n X R U D" for cfg n X R U D
proof (unfold_locales, goal_cases)
  case 1 then show ?case by (rule tr_inv_parts)
next
  case 2 then show ?case by (rule request_inv)
next
  case (22 s i rid rest q) then show ?case by (intro assign_inv) simp_all
qed (simp_all add: completed_inv dropped_inv stopped_inv popped_inv tr_inv_put_same added_inv timed_inv died_inv posted_inv established_inv
  sent_all_inv skipped_inv unretired_inv delivered_inv interest_inv proj_def)

end
