(* ===== verification/Transport_Refs.thy ===== *)
theory Transport_Refs
  imports Transport_Steps
begin

text \<open>
  What the closures of the transport refer to, and that a completed request does not come back:
  connections named by tasks, timers, watches and requests exist, and an identifier that left
  the table of requests stays out of it.
\<close>

section \<open>References\<close>

fun posted :: "nat \<Rightarrow> tr_task \<Rightarrow> bool" where
  "posted n (X_register rid q d) \<longleftrightarrow> pq_slot q = None"
| "posted n (X_pump i) \<longleftrightarrow> i < n"
| "posted n X_drain \<longleftrightarrow> True"
| "posted n X_nothing \<longleftrightarrow> True"
| "posted n _ \<longleftrightarrow> False"

fun armed :: "nat \<Rightarrow> tr_task \<Rightarrow> bool" where
  "armed n (X_deadline rid) \<longleftrightarrow> True"
| "armed n (X_connect_deadline i) \<longleftrightarrow> i < n"
| "armed n _ \<longleftrightarrow> False"

definition loop_refs :: "nat \<Rightarrow> (tr_task, nat) event_loop \<Rightarrow> bool" where
  "loop_refs n l \<longleftrightarrow> (\<forall>t \<in> set (el_tasks l). posted n t) \<and> (\<forall>x \<in> set (el_timers l). armed n (snd (snd x))) \<and>
     (\<forall>k fd i. el_watches l k = Some (fd, i) \<longrightarrow> i < n)"

text \<open>\<open>G\<close> are identifiers that are gone.\<close>

definition table_refs :: "nat \<Rightarrow> 64 word set \<Rightarrow> transport \<Rightarrow> bool" where
  "table_refs n G a \<longleftrightarrow> length (tp_sockets a) = n \<and>
     (\<forall>rid q. (rid, q) \<in> set (tp_requests a) \<longrightarrow> rid \<notin> G \<and> (\<forall>i. pq_slot q = Some i \<longrightarrow> i < n))"

definition tr_refs :: "nat \<Rightarrow> 64 word set \<Rightarrow> tr_state \<Rightarrow> bool" where
  "tr_refs n G s \<longleftrightarrow> loop_refs n (fst s) \<and> table_refs n G (snd s)"

lemma loop_refs_ops:
  assumes "loop_refs n l"
  shows "loop_refs n (Cancel k l)" and "loop_refs n (Remove k l)" and "loop_refs n (snd (Modify ok k ev l))"
    and "posted n t \<Longrightarrow> loop_refs n (Post t l)" and "posted n t \<Longrightarrow> loop_refs n (loop_Stop t l)"
    and "i < n \<Longrightarrow> loop_refs n (snd (Add ok fd ev i l))" and "armed n t \<Longrightarrow> loop_refs n (snd (At d t l))"
  using assms
  by (auto simp: loop_refs_def Cancel_def Remove_def Modify_def Post_def loop_Stop_def Add_def At_def Let_def set_emplace split: option.splits if_splits)

lemma tr_refs_quiet:
  assumes "tr_refs n G s" and "loop_refs n (fst s')" and "length (tp_sockets (snd s')) = length (tp_sockets (snd s))"
    and "set (tp_requests (snd s')) \<subseteq> set (tp_requests (snd s))"
  shows "tr_refs n G s'"
  using assms by (auto simp: tr_refs_def table_refs_def)

lemma tr_refs_update:
  assumes "tr_refs n G s" and "\<And>q. pq_slot (f q) = pq_slot q \<or> (\<exists>i. pq_slot (f q) = Some i \<and> i < n)"
  shows "tr_refs n G (update_request rid f s)"
proof -
  have "\<forall>i. pq_slot (f q) = Some i \<longrightarrow> i < n" if "\<forall>i. pq_slot q = Some i \<longrightarrow> i < n" for q
    using assms(2) [of q] that by auto
  then have "\<forall>i. pq_slot (if m = rid then f q else q) = Some i \<longrightarrow> i < n" if "\<forall>i. pq_slot q = Some i \<longrightarrow> i < n" for m q
    using that by simp
  then show ?thesis
    using assms(1) unfolding tr_refs_def table_refs_def update_request_def by (auto simp del: if_split) blast
qed

lemma tr_refs_log: "tr_refs n G (tr_log e s) = tr_refs n G s"
  by (simp add: tr_refs_def table_refs_def)

lemma tr_refs_put: "tr_refs n G s \<Longrightarrow> loop_refs n l \<Longrightarrow> tr_refs n G (put_conn i c (l, snd s))"
  by (erule tr_refs_quiet) (simp_all add: put_conn_def)

lemma tr_refs_release:
  assumes "tr_refs n G s"
  shows "tr_refs n (insert rid G) (release rid q s)"
  using assms by (auto simp: tr_refs_def table_refs_def release_def Let_def loop_refs_ops split: option.splits)

lemma tr_refs_mono: "tr_refs n G s \<Longrightarrow> H \<subseteq> G \<Longrightarrow> tr_refs n H s"
  by (auto simp: tr_refs_def table_refs_def)

section \<open>Every elementary change keeps the references\<close>

lemma tr_refs_loop: "tr_refs n G s \<Longrightarrow> loop_refs n (fst s)"
  by (simp add: tr_refs_def)

lemma tr_refs_add: "tr_refs n G s \<Longrightarrow> i < n \<Longrightarrow> Add ok fd ev i (fst s) = (r, l) \<Longrightarrow> tr_refs n G (put_conn j c (l, snd s))"
  using loop_refs_ops(6) [OF tr_refs_loop, of n G s i ok fd ev] by (simp add: tr_refs_put)

lemma tr_refs_drop: "tr_refs n G s \<Longrightarrow> tr_refs n G (drop_conn i s)"
  unfolding drop_conn_def Let_def tr_refs_log by (rule tr_refs_put) (simp_all add: tr_refs_loop loop_refs_ops)

lemma tr_refs_interest: "tr_refs n G s \<Longrightarrow> tr_refs n G (tr_interest inp i s)"
  using loop_refs_ops(3) [of n "fst s" "ti_ctl inp" "tc_token (conn i s)" "EPOLLIN + EPOLLRDHUP + (if tc_output (conn i s) \<noteq> [] then EPOLLOUT else 0)"]
  by (auto simp: tr_refs_def table_refs_def tr_interest_def tr_die_def split: prod.splits sum.splits)

lemma tr_refs_at: "tr_refs n G s \<Longrightarrow> i < n \<Longrightarrow> At d (X_connect_deadline i) (fst s) = (tid, l) \<Longrightarrow> tr_refs n G (put_conn i c (l, snd s))"
  using loop_refs_ops(7) [OF tr_refs_loop, of n G s "X_connect_deadline i" d] by (simp add: tr_refs_put)

lemma tr_refs_released: "tr_refs n G s \<Longrightarrow> tr_refs n G (release rid q s)"
  by (rule tr_refs_mono [OF tr_refs_release [of n G s rid q]]) auto

lemma tr_refs_same: "tr_refs n G s \<Longrightarrow> tr_refs n G (put_conn i c s)" "tr_refs n G s \<Longrightarrow> tr_refs n G (tr_die s)"
  "tr_refs n G s \<Longrightarrow> tr_refs n G (snd (tr_next_input s))" "tr_refs n G s \<Longrightarrow> tr_refs n G (stop_if_drained s)"
  "tr_refs n G s \<Longrightarrow> tr_refs n G (fst s, (snd s)\<lparr>tp_waiting := rest\<rparr>)"
  by (auto simp: tr_refs_def table_refs_def put_conn_def tr_die_def tr_next_input_def stop_if_drained_def loop_refs_ops split: list.splits)

lemma tr_refs_slot: "tr_refs n G s \<Longrightarrow> lookup_request rid s = Some q \<Longrightarrow> pq_slot q = Some i \<Longrightarrow> i < n"
  by (auto simp: tr_refs_def table_refs_def lookup_request_def dest: map_of_SomeD)

interpretation refs: tr_keeps cfg n "tr_refs n G" for cfg n G
proof (unfold_locales, goal_cases)
  case 1 then show ?case by (simp add: tr_refs_def table_refs_def)
next
  case 2 then show ?case by (rule tr_refs_slot)
qed (simp_all add: tr_refs_log tr_refs_drop tr_refs_interest tr_refs_add tr_refs_at tr_refs_released tr_refs_same tr_refs_put tr_refs_loop loop_refs_ops tr_refs_update)

section \<open>Finished requests are gone\<close>

lemma tr_refs_gone: "tr_refs n G s \<Longrightarrow> rid \<in> G \<Longrightarrow> lookup_request rid s = None"
  by (auto simp: tr_refs_def table_refs_def lookup_request_def map_of_eq_None_iff)

lemma tr_refs_none: "tr_refs n G s \<Longrightarrow> lookup_request rid s = None \<Longrightarrow> tr_refs n (insert rid G) s"
  by (auto simp: tr_refs_def table_refs_def lookup_request_def map_of_eq_None_iff rev_image_eqI)

lemma finish_fuel_gone:
  assumes "finish_fuel k cfg rid response error s = Some s'" and "tr_refs n G s"
  shows "tr_refs n (insert rid G) s'"
proof (cases k)
  case (Suc m)
  show ?thesis
  proof (cases "lookup_request rid s")
    case None
    with assms Suc show ?thesis
      by (simp add: tr_refs_none)
  next
    case (Some q)
    have r: "tr_refs n (insert rid G) (tr_log (Tr_completed rid response error) (release rid q s))"
      unfolding tr_refs_log by (rule tr_refs_release [OF assms(2)])
    show ?thesis
      by (rule refs.finish_step [OF _ Some tr_refs_slot [OF assms(2) Some] r assms(1) [unfolded Suc]]) (erule (1) refs.finish_fuel_keeps)
  qed
qed (use assms in simp)

lemma finish_all_gone: "finish_all (finish_fuel k cfg) e rids s = Some s' \<Longrightarrow> tr_refs n G s \<Longrightarrow> tr_refs n (G \<union> set rids) s'"
proof (induction rids arbitrary: s G)
  case (Cons rid rids)
  then obtain t where t: "finish_fuel k cfg rid [] (Some e) s = Some t" "finish_all (finish_fuel k cfg) e rids t = Some s'"
    by (auto simp: bind_eq_Some_conv)
  show ?case
    using Cons.IH [OF t(2) finish_fuel_gone [OF t(1) Cons.prems(2)]] by simp
qed simp

lemma Finish_gone: "tr_refs n G s \<Longrightarrow> tr_refs n (insert rid G) (tr_Finish cfg rid response error s)"
  by (rule finish_fuel_gone [OF tr_Finish_fuel])

lemma requests_on_drop: "requests_on i (drop_conn i s) = requests_on i s"
  by (simp add: requests_on_def)

lemma Disconnect_gone:
  assumes "tr_refs n G s" and "\<And>rids. set (tg_iterate cfg rids) = set rids"
  shows "tr_refs n (G \<union> set (requests_on i s)) (tr_Disconnect cfg i code msg s)"
  using finish_all_gone [OF tr_Disconnect_fuel [of s cfg i code msg, unfolded disconnect_with_def Let_def] tr_refs_drop [OF assms(1)]]
  by (simp add: assms(2) requests_on_drop)

end
