(* ===== verification/Transport_System.thy ===== *)
theory Transport_System
  imports Transport_Inv Transport_Refs
begin

text \<open>
  The transport as a system of threads: callers submit requests while the loop thread takes tasks,
  handles events and fires timers. The invariants hold in every reachable state.
\<close>

section \<open>Steps\<close>

text \<open>
  \<open>ty_running\<close> are the tasks that the loop thread has taken and not yet run; \<open>ty_submitted\<close> is the
  history of the submitted identifiers with their deadlines. Both clients take identifiers from
  a counter, so no identifier is submitted twice. The order in which the thread handles events and
  timers within a turn is left open. Nothing happens after an exception has left the thread.
\<close>

record tr_system =
  ty_running :: "tr_task list"
  ty_state :: tr_state
  ty_submitted :: "(64 word \<times> nat) list"

datatype tr_action =
  T_submit nat "64 word" bytes "bytes \<Rightarrow> exn option \<Rightarrow> bool"
| T_wake
| T_task
| T_event nat nat
| T_timer nat
| T_destroy

fun tr_act :: "tr_config \<Rightarrow> tr_action \<Rightarrow> tr_system \<Rightarrow> tr_system option" where
  "tr_act cfg (T_submit now rid bytes complete) sys =
     (if rid \<in> fst ` set (ty_submitted sys) then None
      else Some (sys\<lparr>ty_state := tr_Submit cfg now rid bytes complete (ty_state sys),
                     ty_submitted := ty_submitted sys @ [(rid, now + nat (to_io_timeout (tg_timeouts cfg)) * 1000000)]\<rparr>))"
| "tr_act cfg T_wake sys =
     (if ty_running sys \<noteq> [] then None
      else Some (let (l, a) = ty_state sys in sys\<lparr>ty_running := el_tasks l, ty_state := (l\<lparr>el_wake := False, el_tasks := []\<rparr>, a)\<rparr>))"
| "tr_act cfg T_task sys =
     (case ty_running sys of [] \<Rightarrow> None | t # R \<Rightarrow> Some (sys\<lparr>ty_running := R, ty_state := tr_exec cfg t (ty_state sys)\<rparr>))"
| "tr_act cfg (T_event k events) sys =
     (if ty_running sys \<noteq> [] then None
      else case el_watches (fst (ty_state sys)) k of
          None \<Rightarrow> None
        | Some (fd, i) \<Rightarrow> Some (sys\<lparr>ty_state := tr_callback cfg i events (ty_state sys)\<rparr>))"
| "tr_act cfg (T_timer now) sys =
     (if ty_running sys \<noteq> [] then None
      else case due_timer now (fst (ty_state sys)) of
          (None, _) \<Rightarrow> None
        | (Some t, l) \<Rightarrow> Some (sys\<lparr>ty_state := tr_exec cfg t (l, snd (ty_state sys))\<rparr>))"
| "tr_act cfg T_destroy sys = Some (sys\<lparr>ty_state := tr_destroy (ty_state sys)\<rparr>)"

definition tr_start :: "transport \<Rightarrow> tr_system" where
  "tr_start a = \<lparr>ty_running = [], ty_state = (loop_new, a), ty_submitted = []\<rparr>"

inductive tr_reachable :: "tr_config \<Rightarrow> nat \<Rightarrow> tr_system \<Rightarrow> bool" for cfg n where
  tr_begin: "transport_new address_ok port n cfg env = Inr a \<Longrightarrow> tr_reachable cfg n (tr_start a)"
| tr_next: "tr_reachable cfg n sys \<Longrightarrow> \<not> tp_dead (snd (ty_state sys)) \<Longrightarrow> tr_act cfg x sys = Some sys' \<Longrightarrow> tr_reachable cfg n sys'"

definition deadline_of :: "tr_system \<Rightarrow> 64 word \<Rightarrow> nat" where
  "deadline_of sys rid = (case map_of (ty_submitted sys) rid of Some d \<Rightarrow> d | None \<Rightarrow> 0)"

text \<open>The limits are values of \<open>size_t\<close>, and iterating the table visits its elements.\<close>

definition tr_config_ok :: "tr_config \<Rightarrow> bool" where
  "tr_config_ok cfg \<longleftrightarrow> co_queue_capacity (tg_options cfg) < sz_mod \<and> co_queue_bytes (tg_options cfg) < sz_mod \<and>
     co_max_inflight (tg_options cfg) < sz_mod \<and> (\<forall>rids. set (tg_iterate cfg rids) = set rids)"

definition tr_ok :: "tr_config \<Rightarrow> nat \<Rightarrow> tr_system \<Rightarrow> bool" where
  "tr_ok cfg n sys \<longleftrightarrow>
     tr_inv cfg n {} (ty_running sys) (fst ` set (ty_submitted sys)) (deadline_of sys) (ty_state sys) \<and>
     tr_refs n {} (ty_state sys) \<and> (\<forall>t \<in> set (ty_running sys). posted n t)"

section \<open>Submitting\<close>

lemma tr_invD:
  assumes "tr_inv cfg n X R U D s"
  shows "slots_ok cfg n (map proj (tp_sockets (snd s))) (tp_requests (snd s)) (tp_waiting (snd s))"
    and "timers_ok X D (fst s) (map proj (tp_sockets (snd s))) (tp_requests (snd s))"
    and "admission_ok cfg (tp_requests (snd s)) (registrations (R @ el_tasks (fst s))) (tp_admitted (snd s)) (tp_bytes (snd s))"
    and "once_ok U D (tp_log (snd s)) (tp_requests (snd s)) (registrations (R @ el_tasks (fst s)))"
    and "responses_ok cfg (tp_log (snd s))"
  using assms unfolding tr_inv_def by blast+

lemma once_okD:
  assumes "once_ok U D es reqs regs"
  shows "(rid, q) \<in> set reqs \<Longrightarrow> rid \<in> U" and "(rid, q, d) \<in> set regs \<Longrightarrow> rid \<in> U"
    and "(rid, q, d) \<in> set regs \<Longrightarrow> pq_slot q = None \<and> d = D rid" and "(rid, q, d) \<in> set regs \<Longrightarrow> rid \<notin> fst ` set reqs"
proof -
  have u: "fst ` set reqs \<subseteq> U" "fst ` set regs \<subseteq> U" "fst ` set reqs \<inter> fst ` set regs = {}" "\<forall>(rid, q, d) \<in> set regs. pq_slot q = None \<and> d = D rid"
    using assms unfolding once_ok_def by auto
  show "(rid, q) \<in> set reqs \<Longrightarrow> rid \<in> U"
    using subsetD [OF u(1) imageI, of "(rid, q)"] by simp
  show "(rid, q, d) \<in> set regs \<Longrightarrow> rid \<in> U"
    using subsetD [OF u(2) imageI, of "(rid, q, d)"] by simp
  show "(rid, q, d) \<in> set regs \<Longrightarrow> pq_slot q = None \<and> d = D rid"
    using bspec [OF u(4), of "(rid, q, d)"] by simp
  show "(rid, q, d) \<in> set regs \<Longrightarrow> rid \<notin> fst ` set reqs"
    using u(3) imageI [of "(rid, q, d)" "set regs" fst] by (simp add: disjoint_iff) blast
qed

lemma once_deadlines:
  assumes "once_ok U D es reqs regs" and "\<And>rid. rid \<in> U \<Longrightarrow> D' rid = D rid"
  shows "once_ok U D' es reqs regs"
proof -
  have "\<forall>x \<in> set regs. D' (fst x) = D (fst x)"
    using once_okD(2) [OF assms(1)] assms(2) by (metis prod.collapse)
  with assms(1) show ?thesis
    by (simp add: once_ok_def split_beta)
qed

lemma timers_deadlines: "timers_ok X D l cs reqs \<Longrightarrow> (\<And>rid q. (rid, q) \<in> set reqs \<Longrightarrow> D' rid = D rid) \<Longrightarrow> timers_ok X D' l cs reqs"
  unfolding timers_ok_def by metis

lemma tr_inv_deadlines:
  assumes "tr_inv cfg n X R U D s" and "\<And>rid. rid \<in> U \<Longrightarrow> D' rid = D rid"
  shows "tr_inv cfg n X R U D' s"
proof -
  note inv = tr_invD [OF assms(1)]
  have "timers_ok X D' (fst s) (map proj (tp_sockets (snd s))) (tp_requests (snd s))"
    by (rule timers_deadlines [OF inv(2)]) (erule assms(2) [OF once_okD(1) [OF inv(4)]])
  moreover have "once_ok U D' (tp_log (snd s)) (tp_requests (snd s)) (registrations (R @ el_tasks (fst s)))"
    by (rule once_deadlines [OF inv(4) assms(2)])
  ultimately show ?thesis
    using inv(1,3,5) unfolding tr_inv_def by blast
qed

lemma once_rejected: "once_ok U D es reqs regs \<Longrightarrow> rid \<notin> U \<Longrightarrow> once_ok (insert rid U) D (es @ [Tr_completed rid r e]) reqs regs"
  unfolding once_ok_def map_append concat_append by auto

lemma once_submitted:
  "once_ok U D es reqs regs \<Longrightarrow> rid \<notin> U \<Longrightarrow> pq_slot q = None \<Longrightarrow> once_ok (insert rid U) D es reqs (regs @ [(rid, q, D rid)])"
  unfolding once_ok_def map_append by auto

lemma admission_submitted:
  assumes "admission_ok cfg reqs regs admitted bytes" and "admitted < co_queue_capacity (tg_options cfg)"
    and "length b \<le> sz_sub (co_queue_bytes (tg_options cfg)) bytes" and "pq_bytes q = b"
  shows "admission_ok cfg reqs (regs @ [(rid, q, d)]) (sz_add admitted 1) (sz_add bytes (length b))"
proof -
  have le: "bytes \<le> co_queue_bytes (tg_options cfg)" "co_queue_bytes (tg_options cfg) < sz_mod" "co_queue_capacity (tg_options cfg) < sz_mod"
    using assms(1) by (simp_all add: admission_ok_def)
  then have "bytes + length b \<le> co_queue_bytes (tg_options cfg)"
    using assms(3) sz_sub_exact [OF le(1,2)] by simp
  moreover from this le have "sz_add admitted 1 = admitted + 1" "sz_add bytes (length b) = bytes + length b"
    using assms(2) by (simp_all add: sz_add_exact)
  ultimately show ?thesis
    using assms(1,2,4) by (simp add: admission_ok_def)
qed

lemma Submit_inv:
  assumes "tr_inv cfg n X R U D s" and "rid \<notin> U" and "D rid = now + nat (to_io_timeout (tg_timeouts cfg)) * 1000000"
  shows "tr_inv cfg n X R (insert rid U) D (tr_Submit cfg now rid b complete s)"
proof -
  note inv = tr_invD [OF assms(1)]
  have regs: "registrations (R @ el_tasks (Post t l)) = registrations (R @ el_tasks l) @ registration t" for t l
    by (simp add: loop_frame)
  have timers: "timers_ok X D (Post t (fst s)) (map proj (tp_sockets (snd s))) (tp_requests (snd s))" for t
    using inv by (simp add: timers_ok_def Post_inv)
  show ?thesis
  proof (cases "tp_closing (snd s) \<or> tp_admitted (snd s) \<ge> co_queue_capacity (tg_options cfg) \<or>
      length b > sz_sub (co_queue_bytes (tg_options cfg)) (tp_bytes (snd s))")
    case True
    then show ?thesis
      using inv once_rejected [OF _ assms(2)] responses_error unfolding tr_Submit_def Let_def tr_inv_def by simp
  next
    case False
    then have "tr_Submit cfg now rid b complete s = (Post (X_register rid (request_new b complete) (D rid)) (fst s),
        (snd s)\<lparr>tp_admitted := sz_add (tp_admitted (snd s)) 1, tp_bytes := sz_add (tp_bytes (snd s)) (length b)\<rparr>)"
      using assms(3) by (simp add: tr_Submit_def Let_def)
    moreover have "admission_ok cfg (tp_requests (snd s)) (registrations (R @ el_tasks (fst s)) @ [(rid, request_new b complete, D rid)])
        (sz_add (tp_admitted (snd s)) 1) (sz_add (tp_bytes (snd s)) (length b))"
      using inv False by (intro admission_submitted) (simp_all add: request_new_def)
    moreover have "once_ok (insert rid U) D (tp_log (snd s)) (tp_requests (snd s))
        (registrations (R @ el_tasks (fst s)) @ [(rid, request_new b complete, D rid)])"
      using inv assms(2) by (intro once_submitted) (simp_all add: request_new_def)
    ultimately show ?thesis
      using inv timers unfolding tr_inv_def by (simp add: regs del: map_append concat_append)
  qed
qed

section \<open>Registering\<close>

lemma slots_register:
  assumes "slots_ok cfg n cs reqs waiting" and "rid \<notin> fst ` set reqs" and "pq_slot q = None"
  shows "slots_ok cfg n cs (reqs @ [(rid, q)]) (waiting @ [rid])"
proof -
  note d = slots_okD [OF assms(1)]
  have c: "slot_count k (reqs @ [(rid, q)]) = slot_count k reqs" for k
    using assms(3) by (simp add: slot_count_def)
  have "(rid, p) \<notin> set reqs" for p
    using assms(2) imageI [of "(rid, p)" "set reqs" fst] by auto
  then have "rid \<notin> set waiting"
    unfolding d(9) by simp
  moreover have "set (waiting @ [rid]) = {m. \<exists>p. (m, p) \<in> set (reqs @ [(rid, q)]) \<and> pq_slot p = None}"
    using assms(3) unfolding set_append d(9) by auto
  moreover have "k < n" if "(m, p) \<in> set (reqs @ [(rid, q)])" "pq_slot p = Some k" for m p k
    using that d(4) [of m p k] assms(3) by auto
  ultimately show ?thesis
    using d(1,2,3,5-8) assms(2) by (intro slots_okI) (simp_all add: c)
qed

lemma timers_register:
  assumes "timers_ok X D l cs reqs" and "pq_timer q = el_next l"
  shows "timers_ok X D (snd (At (D rid) (X_deadline rid) l)) cs (reqs @ [(rid, q)])"
proof -
  note t = timers_okD [OF assms(1)]
  have next_pos: "0 < el_next l"
    using t(1) by (simp add: loop_inv_def watches_inv_def)
  have "el_next l \<notin> (pq_timer \<circ> snd) ` set reqs"
    using t(4) by force
  then show ?thesis
    using assms(2) t(1,2) t(3) [THEN less_SucI] t(4) [THEN conjunct1] t(4) [THEN conjunct2, THEN less_SucI] t(5) t(6) t(3) [THEN less_imp_neq] next_pos
    by (intro timers_okI) (auto simp: At_inv)
qed

lemma register_inv:
  assumes "tr_inv cfg n X (X_register rid q d # R) U D s"
  shows "tr_inv cfg n X R U D (register_request cfg rid q d s)"
proof -
  note inv = tr_invD [OF assms]
  let ?regs = "registrations (R @ el_tasks (fst s))" and ?q = "q\<lparr>pq_timer := el_next (fst s)\<rparr>"
  have regs: "registrations ((X_register rid q d # R) @ el_tasks (fst s)) = (rid, q, d) # ?regs"
    by simp
  note once = once_okD(2-4) [OF inv(4) [unfolded regs] list.set_intros(1)]
  have new: "lookup_request rid s = None"
    using once(3) by (simp add: lookup_request_def map_of_eq_None_iff)
  have "admission_ok cfg (tp_requests (snd s) @ [(rid, ?q)]) ?regs (tp_admitted (snd s)) (tp_bytes (snd s))"
    using inv(3) unfolding regs by (simp add: admission_ok_def)
  moreover have "once_ok U D (tp_log (snd s)) (tp_requests (snd s) @ [(rid, ?q)]) ?regs"
    using inv(4) unfolding regs once_ok_def by auto
  moreover have "slots_ok cfg n (map proj (tp_sockets (snd s))) (tp_requests (snd s) @ [(rid, ?q)]) (tp_waiting (snd s) @ [rid])"
    using inv(1) once(2,3) by (intro slots_register) simp_all
  moreover have "timers_ok X D (snd (At d (X_deadline rid) (fst s))) (map proj (tp_sockets (snd s))) (tp_requests (snd s) @ [(rid, ?q)])"
    using timers_register [OF inv(2), of ?q rid] once(2) by simp
  ultimately have "tr_inv cfg n X R U D (snd (At d (X_deadline rid) (fst s)),
      (snd s)\<lparr>tp_requests := tp_requests (snd s) @ [(rid, ?q)], tp_waiting := tp_waiting (snd s) @ [rid]\<rparr>)"
    using inv(5) by (simp add: tr_inv_def loop_frame)
  then show ?thesis
    unfolding register_request_def split_beta Let_def by (intro inv.Dispatch) (simp add: new)
qed

section \<open>Timers\<close>

lemma timer_inv:
  assumes "tr_inv cfg n {} R U D s" and "due_timer now (fst s) = (Some t, l)"
  shows "tr_inv cfg n (case t of X_deadline rid \<Rightarrow> {rid} | _ \<Rightarrow> {}) R U D (l, snd s)"
proof -
  note inv = tr_invD [OF assms(1)] and t = timers_okD [OF tr_invD(2) [OF assms(1)]]
  obtain d k where k: "(d, k, t) \<in> set (el_timers (fst s))" "l = Cancel k (fst s)"
    using due_timer_Cancel [OF t(1) assms(2)] by blast
  have "(D m, pq_timer q, X_deadline m) \<in> set (el_timers l)" if "(m, q) \<in> set (tp_requests (snd s))" "t \<noteq> X_deadline m" for m q
    using t(6) [OF that(1)] timer_unique [OF t(1) k(1)] that(2) by (auto simp: k(2) Cancel_timers [OF t(1)])
  then have "timers_ok (case t of X_deadline rid \<Rightarrow> {rid} | _ \<Rightarrow> {}) D l (map proj (tp_sockets (snd s))) (tp_requests (snd s))"
    using t(1-5) by (intro timers_okI) (auto simp: k(2) Cancel_inv loop_frame split: tr_task.splits)
  then show ?thesis
    using inv by (simp add: tr_inv_def k(2) loop_frame)
qed

lemma tr_inv_gone:
  assumes "tr_inv cfg n {rid} R U D s" and "lookup_request rid s = None"
  shows "tr_inv cfg n {} R U D s"
proof -
  have "m \<noteq> rid" if "(m, q) \<in> set (tp_requests (snd s))" for m q
    using assms(2) that by (auto simp: lookup_request_def map_of_eq_None_iff rev_image_eqI)
  then have "timers_ok {} D (fst s) (map proj (tp_sockets (snd s))) (tp_requests (snd s))"
    using tr_invD(2) [OF assms(1)] by (auto simp: timers_ok_def)
  then show ?thesis
    using assms(1) by (simp add: tr_inv_def)
qed

lemma expire_refs:
  assumes "tr_refs n {} s" and "lookup_request rid s = Some q" and "\<And>rids. set (tg_iterate cfg rids) = set rids"
  shows "tr_refs n {rid} (expire cfg rid q s)"
proof (cases "pq_slot q")
  case (Some i)
  then have "rid \<in> set (requests_on i s)"
    using lookup_requestD [OF assms(2)] by (force simp: requests_on_def)
  then have "tr_refs n {rid} (tr_Disconnect cfg i code msg s)" for code msg
    using Disconnect_gone [OF assms(1,3)] by (auto intro: tr_refs_mono)
  with Some show ?thesis
    by (simp add: expire_def Finish_gone [OF tr_refs_same(1) [OF assms(1)]])
qed (simp add: expire_def Finish_gone [OF assms(1)])

lemma expire_inv:
  assumes "tr_inv cfg n X R U D s" and "lookup_request rid s = Some q"
  shows "tr_inv cfg n X R U D (expire cfg rid q s)"
proof (cases "pq_slot q")
  case (Some i)
  note i = request_inv [OF assms Some]
  let ?e = "Some (Rpc_error EC_timeout ''Request deadline exceeded'')"
  let ?s = "put_conn i ((conn i s)\<lparr>tc_retired := insert rid (tc_retired (conn i s))\<rparr>) s"
  have "finite (tc_retired (conn i s))"
    using slots_okD(2,6) [OF tr_invD(1) [OF assms(1)]] i by (fastforce simp: proj_def conn_def)
  then have "tr_inv cfg n X R U D (tr_log (Tr_completed rid [] ?e) (release rid q ?s))"
    using assms Some by (intro release_slot_inv) (simp_all add: responses_error tr_invD(5) [OF assms(1)] card_insert_if)
  then have "tr_inv cfg n X R U D (tr_Finish cfg rid [] ?e ?s)"
    using assms(2) i Some by (intro inv.Finish_released [where q = q]) (simp_all add: lookup_request_def)
  with Some show ?thesis
    using inv.Disconnect [OF assms(1) i] by (simp add: expire_def)
qed (simp add: expire_def inv.Finish_error [OF assms(1)])

lemma deadline_inv:
  assumes "tr_inv cfg n {rid} R U D s" and "tr_refs n {} s" and "\<And>rids. set (tg_iterate cfg rids) = set rids"
  shows "tr_inv cfg n {} R U D (request_deadline cfg rid s)" and "tr_refs n {rid} (request_deadline cfg rid s)"
proof -
  have "tr_inv cfg n {} R U D (request_deadline cfg rid s) \<and> tr_refs n {rid} (request_deadline cfg rid s)"
  proof (cases "lookup_request rid s")
    case None
    then show ?thesis
      using tr_inv_gone [OF assms(1)] tr_refs_none [OF assms(2)] by (simp add: request_deadline_def)
  next
    case (Some q)
    note r = expire_refs [OF assms(2) Some assms(3)]
    have "lookup_request rid (expire cfg rid q s) = None"
      by (rule tr_refs_gone [OF r]) simp
    then show ?thesis
      using Some inv.Dispatch [OF tr_inv_gone [OF expire_inv [OF assms(1) Some]]] refs.Dispatch [OF r] by (simp add: request_deadline_def)
  qed
  then show "tr_inv cfg n {} R U D (request_deadline cfg rid s)" "tr_refs n {rid} (request_deadline cfg rid s)"
    by blast+
qed

section \<open>Every step keeps the invariants\<close>

lemma drain_inv: "tr_inv cfg n X R U D s \<Longrightarrow> tr_inv cfg n X R U D (drain s)"
  unfolding drain_def by (rule stopped_inv) (auto simp: tr_inv_def)

lemma drain_refs: "tr_refs n G s \<Longrightarrow> tr_refs n G (drain s)"
  unfolding drain_def by (rule tr_refs_same) (auto simp: tr_refs_def table_refs_def)

lemma register_refs:
  assumes "tr_refs n {} s" and "pq_slot q = None"
  shows "tr_refs n {} (register_request cfg rid q d s)"
  using assms loop_refs_ops(7) [OF tr_refs_loop [OF assms(1)], of "X_deadline rid" d] unfolding register_request_def split_beta Let_def
  by (intro refs.Dispatch) (auto simp: tr_refs_def table_refs_def)

lemma posted_task:
  assumes "tr_inv cfg n {} (t # R) U D s" and "tr_refs n {} s" and "posted n t" and "\<not> tp_dead (snd s)"
  shows "tr_inv cfg n {} R U D (tr_exec cfg t s) \<and> tr_refs n {} (tr_exec cfg t s)"
proof (cases t)
  case (X_register rid q d)
  with assms show ?thesis
    using register_inv register_refs by (simp add: tr_exec_def)
next
  case (X_pump i)
  have "tr_inv cfg n {} R U D s"
    using assms(1) X_pump by (simp add: tr_inv_def)
  with X_pump assms(2-4) show ?thesis
    by (simp add: tr_exec_def inv.Dispatch inv.Pump inv.unscheduled refs.Dispatch refs.Pump refs.unscheduled)
next
  case X_drain
  with assms show ?thesis
    using drain_inv [of cfg n "{}" R U D s] drain_refs [OF assms(2)] by (simp add: tr_exec_def tr_inv_def)
next
  case X_nothing
  with assms show ?thesis
    by (simp add: tr_exec_def tr_inv_def)
qed (use assms(3) in simp_all)

lemma due_refs:
  assumes "tr_refs n {} s" and "loop_inv (fst s)" and "due_timer now (fst s) = (Some t, l)"
  shows "tr_refs n {} (l, snd s)"
  using assms(1) due_timer_Cancel [OF assms(2,3)] loop_refs_ops(1) [OF tr_refs_loop [OF assms(1)]] by (auto simp: tr_refs_def)

lemma armed_timer:
  assumes "tr_inv cfg n {} R U D s" and "tr_refs n {} s" and "due_timer now (fst s) = (Some t, l)" and "\<not> tp_dead (snd s)"
    and "\<And>rids. set (tg_iterate cfg rids) = set rids"
  shows "tr_inv cfg n {} R U D (tr_exec cfg t (l, snd s)) \<and> tr_refs n {} (tr_exec cfg t (l, snd s))"
proof -
  note inv = timer_inv [OF assms(1,3)]
  obtain d k where k: "(d, k, t) \<in> set (el_timers (fst s))" "l = Cancel k (fst s)"
    using due_timer_Cancel [OF tr_inv_parts(1) [OF assms(1)] assms(3)] by blast
  have r: "tr_refs n {} (l, snd s)"
    by (rule due_refs [OF assms(2) tr_inv_parts(1) [OF assms(1)] assms(3)])
  have a: "armed n t"
    using tr_refs_loop [OF assms(2)] k(1) unfolding loop_refs_def by (metis snd_conv)
  show ?thesis
  proof (cases t)
    case (X_deadline rid)
    with inv have x: "tr_inv cfg n {rid} R U D (l, snd s)"
      by simp
    show ?thesis
      using X_deadline assms(4) deadline_inv(1) [OF x r assms(5)] tr_refs_mono [OF deadline_inv(2) [OF x r assms(5)], of "{}"] by (simp add: tr_exec_def)
  next
    case (X_connect_deadline i)
    with inv r a assms(4) show ?thesis
      by (simp add: tr_exec_def inv.Dispatch inv.Disconnect refs.Dispatch refs.Disconnect)
  qed (use a in simp_all)
qed

lemma callback_keeps:
  "tr_inv cfg n {} R U D s \<Longrightarrow> tr_refs n {} s \<Longrightarrow> i < n \<Longrightarrow> tr_inv cfg n {} R U D (tr_callback cfg i events s) \<and> tr_refs n {} (tr_callback cfg i events s)"
  by (simp add: tr_callback_def inv.Dispatch inv.Pump refs.Dispatch refs.Pump)

lemma deadline_of_append: "rid \<notin> fst ` set (ty_submitted sys) \<Longrightarrow>
    deadline_of (sys\<lparr>ty_state := s, ty_submitted := ty_submitted sys @ [(rid, d)]\<rparr>) m = (if m = rid then d else deadline_of sys m)"
  using map_of_eq_None_iff [of "ty_submitted sys" rid] by (auto simp: deadline_of_def map_add_def split: option.splits)

lemma Submit_refs: "tr_refs n G s \<Longrightarrow> tr_refs n G (tr_Submit cfg now rid b complete s)"
  using loop_refs_ops(4) [OF tr_refs_loop, of n G s "X_register rid (request_new b complete) _"]
  by (auto simp: tr_Submit_def Let_def tr_refs_log request_new_def tr_refs_def table_refs_def)

lemma act_submit:
  assumes "tr_ok cfg n sys" and "tr_act cfg (T_submit now rid b complete) sys = Some sys'"
  shows "tr_ok cfg n sys'"
proof -
  let ?d = "now + nat (to_io_timeout (tg_timeouts cfg)) * 1000000"
  have new: "rid \<notin> fst ` set (ty_submitted sys)"
    and sys': "sys' = sys\<lparr>ty_state := tr_Submit cfg now rid b complete (ty_state sys), ty_submitted := ty_submitted sys @ [(rid, ?d)]\<rparr>"
    using assms(2) by (simp_all split: if_splits)
  have dl: "deadline_of sys' = (\<lambda>m. if m = rid then ?d else deadline_of sys m)"
    unfolding sys' by (rule ext) (rule deadline_of_append [OF new])
  have "tr_inv cfg n {} (ty_running sys) (fst ` set (ty_submitted sys)) (deadline_of sys') (ty_state sys)"
    by (rule tr_inv_deadlines [of _ _ _ _ _ "deadline_of sys"]) (use assms(1) new in \<open>auto simp: tr_ok_def dl\<close>)
  then have "tr_inv cfg n {} (ty_running sys) (insert rid (fst ` set (ty_submitted sys))) (deadline_of sys')
      (tr_Submit cfg now rid b complete (ty_state sys))"
    using new by (intro Submit_inv) (simp_all add: dl)
  then show ?thesis
    using assms(1) Submit_refs unfolding tr_ok_def sys' by simp
qed

lemma deadline_of_same: "deadline_of (sys\<lparr>ty_state := s\<rparr>) = deadline_of sys" "deadline_of (sys\<lparr>ty_running := R\<rparr>) = deadline_of sys"
  by (simp_all add: fun_eq_iff deadline_of_def)

lemma act_ok:
  assumes "tr_ok cfg n sys" and "\<not> tp_dead (snd (ty_state sys))" and "tr_act cfg x sys = Some sys'" and "tr_config_ok cfg"
  shows "tr_ok cfg n sys'"
proof (cases x)
  case (T_submit now rid b complete)
  with assms act_submit show ?thesis
    by blast
next
  case T_wake
  then have "ty_running sys = []" "sys' = sys\<lparr>ty_running := el_tasks (fst (ty_state sys)),
      ty_state := ((fst (ty_state sys))\<lparr>el_wake := False, el_tasks := []\<rparr>, snd (ty_state sys))\<rparr>"
    using assms(3) by (simp_all add: split_beta split: if_splits)
  with assms(1) show ?thesis
    by (auto simp: tr_ok_def deadline_of_same tr_inv_def timers_ok_def loop_inv_def tr_refs_def loop_refs_def)
next
  case T_task
  then obtain t R where t: "ty_running sys = t # R" "sys' = sys\<lparr>ty_running := R, ty_state := tr_exec cfg t (ty_state sys)\<rparr>"
    using assms(3) by (auto split: list.splits)
  with posted_task [of cfg n t R "fst ` set (ty_submitted sys)" "deadline_of sys" "ty_state sys"] assms(1,2) show ?thesis
    by (simp add: tr_ok_def deadline_of_same)
next
  case (T_event k events)
  then obtain fd i where i: "el_watches (fst (ty_state sys)) k = Some (fd, i)" "sys' = sys\<lparr>ty_state := tr_callback cfg i events (ty_state sys)\<rparr>"
    using assms(3) by (auto split: if_splits option.splits)
  moreover have "i < n"
    using assms(1) i(1) unfolding tr_ok_def tr_refs_def loop_refs_def by blast
  ultimately show ?thesis
    using callback_keeps [of cfg n "ty_running sys" "fst ` set (ty_submitted sys)" "deadline_of sys" "ty_state sys" i events] assms(1) by (simp add: tr_ok_def deadline_of_same)
next
  case (T_timer now)
  then obtain t l where t: "due_timer now (fst (ty_state sys)) = (Some t, l)" "sys' = sys\<lparr>ty_state := tr_exec cfg t (l, snd (ty_state sys))\<rparr>"
    using assms(3) by (auto split: if_splits option.splits prod.splits)
  then show ?thesis
    using armed_timer [of cfg n "ty_running sys" "fst ` set (ty_submitted sys)" "deadline_of sys" "ty_state sys" now t l] assms(1,2,4) by (simp add: tr_ok_def deadline_of_same tr_config_ok_def)
next
  case T_destroy
  with assms show ?thesis
    by (auto simp: tr_ok_def deadline_of_same tr_destroy_def tr_inv_def timers_ok_def loop_inv_def Post_def tr_refs_def loop_refs_def table_refs_def)
qed

lemma start_ok:
  assumes "transport_new address_ok port n cfg env = Inr a" and "tr_config_ok cfg"
  shows "tr_ok cfg n (tr_start a)"
proof -
  have a: "tp_sockets a = replicate n tr_conn_new" "tp_waiting a = []" "tp_requests a = []" "tp_admitted a = 0" "tp_bytes a = 0" "tp_log a = []"
    "0 < co_max_inflight (tg_options cfg)"
    using assms(1) by (auto simp: transport_new_def split: if_splits)
  have "slots_ok cfg n (map proj (replicate n tr_conn_new)) [] []"
    using assms(2) a(7) by (intro slots_okI) (simp_all add: slot_count_def proj_def tr_conn_new_def tr_limit_def tr_config_ok_def)
  then show ?thesis
    using assms(2) a(1-6) loop_inv_new [where 'a = tr_task and 'b = nat]
    by (auto simp: tr_ok_def tr_start_def tr_inv_def timers_ok_def admission_ok_def once_ok_def responses_ok_def tr_config_ok_def
        tr_refs_def loop_refs_def table_refs_def loop_new_def proj_def tr_conn_new_def)
qed

lemma tr_reachable_ok: "tr_reachable cfg n sys \<Longrightarrow> tr_config_ok cfg \<Longrightarrow> tr_ok cfg n sys"
  by (induction rule: tr_reachable.induct) (simp_all add: start_ok act_ok)

end
