(* ===== verification/Transport_Loops.thy ===== *)
theory Transport_Loops
  imports Transport_System
begin

text \<open>
  The loops of the transport terminate, and a request that leaves the table has been completed.
\<close>

section \<open>Requests in hand\<close>

text \<open>
  \<open>T\<close> are requests that the loop thread has taken over: they are in the table or completed. \<open>m\<close> bounds
  the queue of waiting requests, which only registering a request makes longer.
\<close>

definition tracked :: "nat \<Rightarrow> 64 word set \<Rightarrow> nat \<Rightarrow> tr_state \<Rightarrow> bool" where
  "tracked n T m s \<longleftrightarrow> tr_refs n {} s \<and> T \<subseteq> fst ` set (tp_requests (snd s)) \<union> set (completions (tp_log (snd s))) \<and> length (tp_waiting (snd s)) \<le> m"

lemma tracked_refs: "tracked n T m s \<Longrightarrow> tr_refs n {} s"
  by (simp add: tracked_def)

lemma tracked_quiet:
  assumes "tracked n T m s" and "tr_refs n {} s'" and "map fst (tp_requests (snd s')) = map fst (tp_requests (snd s))"
    and "set (tp_log (snd s)) \<subseteq> set (tp_log (snd s'))" and "length (tp_waiting (snd s')) \<le> length (tp_waiting (snd s))"
  shows "tracked n T m s'"
proof -
  have "fst ` set (tp_requests (snd s')) = fst ` set (tp_requests (snd s))"
    using assms(3) by (metis set_map)
  moreover have "set (completions (tp_log (snd s))) \<subseteq> set (completions (tp_log (snd s')))"
    using assms(4) by auto
  ultimately have "T \<subseteq> fst ` set (tp_requests (snd s')) \<union> set (completions (tp_log (snd s')))"
    using assms(1) unfolding tracked_def by blast
  then show ?thesis
    using assms(1,2,5) by (simp add: tracked_def)
qed

lemma release_fields:
  "tp_requests (snd (release rid q s)) = filter (\<lambda>(m, _). m \<noteq> rid) (tp_requests (snd s))" "tp_log (snd (release rid q s)) = tp_log (snd s)"
  "length (tp_waiting (snd (release rid q s))) \<le> length (tp_waiting (snd s))"
  by (auto simp: release_def Let_def split: option.splits)

lemma tracked_release:
  assumes "tracked n T m s" and "tr_refs n {} (tr_log (Tr_completed rid r e) (release rid q s))"
  shows "tracked n T m (tr_log (Tr_completed rid r e) (release rid q s))"
proof -
  have "fst ` set (tp_requests (snd s)) \<subseteq> insert rid (fst ` set (filter (\<lambda>(m, _). m \<noteq> rid) (tp_requests (snd s))))"
    by force
  moreover have "set (completions (tp_log (snd s) @ [Tr_completed rid r e])) = insert rid (set (completions (tp_log (snd s))))"
    by simp
  ultimately have "T \<subseteq> fst ` set (filter (\<lambda>(m, _). m \<noteq> rid) (tp_requests (snd s))) \<union> set (completions (tp_log (snd s) @ [Tr_completed rid r e]))"
    using assms(1) unfolding tracked_def by blast
  then show ?thesis
    using assms release_fields(3) [of rid q s] by (simp add: tracked_def release_fields(1,2))
qed

lemma tracked_shorter: "tracked n T m s \<Longrightarrow> length (tp_waiting (snd s)) \<le> k \<Longrightarrow> tracked n T k s"
  by (simp add: tracked_def)

lemma update_request_fst: "map fst (tp_requests (snd (update_request rid f s))) = map fst (tp_requests (snd s))"
  by (auto simp: update_request_def)

lemma drop_conn_fields: "tp_waiting (snd (drop_conn i s)) = tp_waiting (snd s)" "tp_log (snd (drop_conn i s)) = tp_log (snd s) @ [Tr_reset i]"
  by (simp_all add: drop_conn_def Let_def put_conn_def)

lemma tr_interest_table:
  "tp_requests (snd (tr_interest inp i s)) = tp_requests (snd s)" "tp_waiting (snd (tr_interest inp i s)) = tp_waiting (snd s)"
  "tp_log (snd (tr_interest inp i s)) = tp_log (snd s)"
  by (simp_all add: tr_interest_def tr_die_def split: prod.splits sum.splits)

lemma tr_next_input_table:
  "tp_requests (snd (snd (tr_next_input s))) = tp_requests (snd s)" "tp_waiting (snd (snd (tr_next_input s))) = tp_waiting (snd s)"
  "tp_log (snd (snd (tr_next_input s))) = tp_log (snd s)"
  by (simp_all add: tr_next_input_def split: list.splits)

lemma update_request_table: "tp_waiting (snd (update_request rid f s)) = tp_waiting (snd s)" "tp_log (snd (update_request rid f s)) = tp_log (snd s)"
  by (simp_all add: update_request_def)

lemma tr_die_table: "tp_requests (snd (tr_die s)) = tp_requests (snd s)" "tp_waiting (snd (tr_die s)) = tp_waiting (snd s)"
  "tp_log (snd (tr_die s)) = tp_log (snd s)"
  by (simp_all add: tr_die_def)

lemmas table_fields = tr_interest_table tr_next_input_table update_request_table update_request_fst tr_die_table drop_conn_fields

interpretation tracked: tr_keeps cfg n "tracked n T m" for cfg n T m
proof (unfold_locales, goal_cases)
  case 1 then show ?case by (intro refs.sockets [OF tracked_refs])
next
  case (2 s rid q i) then show ?case by (intro tr_refs_slot [OF tracked_refs])
next
  case (3 s rid q e) then show ?case
    by (intro tracked_release refs.completed [OF tracked_refs])
next
  case (19 s i response rid q)
  then have "tracked n T m (if tg_ids cfg = None then put_conn i ((conn i s)\<lparr>tc_order := tl (tc_order (conn i s))\<rparr>) s else s)"
    using tracked_quiet [OF 19(1) tr_refs_same(1) [OF tracked_refs [OF 19(1)]]] by simp
  then show ?case
    by (rule tracked_release) (rule refs.delivered [OF tracked_refs [OF 19(1)] 19(2-6)])
qed (frule tracked_refs, erule tracked_quiet;
  auto simp: table_fields tr_refs_log tr_refs_drop tr_refs_interest tr_refs_add tr_refs_at tr_refs_same tr_refs_put tr_refs_loop loop_refs_ops tr_refs_update)+

section \<open>The loop of Dispatch\<close>

lemma assign_waiting:
  assumes "tr_refs n {} s" and "i < n"
  shows "tr_refs n {} (assign cfg i rid q s) \<and> length (tp_waiting (snd (assign cfg i rid q s))) \<le> length (tp_waiting (snd s))"
proof -
  have "tracked n {} (length (tp_waiting (snd s))) (put_conn i c (tr_log e (update_request rid (pq_slot_update (\<lambda>_. Some i)) s)))" for c e
    using assms by (simp add: tracked_def tr_refs_log tr_refs_update tr_refs_same table_fields)
  then have "tracked n {} (length (tp_waiting (snd s))) (assign cfg i rid q s)"
    by (simp add: assign_def Let_def tracked.Pump tracked.Connect assms(2))
  then show ?thesis
    by (simp add: tracked_def)
qed

lemma dispatch_to_enough:
  "tr_refs n {} s \<Longrightarrow> i < n \<Longrightarrow> length (tp_waiting (snd s)) \<le> k \<Longrightarrow> length (tp_waiting (snd s)) \<le> k' \<Longrightarrow>
   dispatch_to k cfg i s = dispatch_to k' cfg i s"
proof (induction k arbitrary: k' s)
  case 0
  then show ?case
    by (cases k') simp_all
next
  case (Suc k)
  show ?case
  proof (cases "tp_waiting (snd s)")
    case Nil
    then show ?thesis
      by (cases k') simp_all
  next
    case (Cons rid rest)
    with Suc.prems obtain j where j: "k' = Suc j" "length rest \<le> j" "length rest \<le> k"
      by (cases k') auto
    let ?s = "(fst s, (snd s)\<lparr>tp_waiting := rest\<rparr>)"
    have r: "tr_refs n {} ?s"
      using Suc.prems(1) by (simp add: tr_refs_same)
    have "dispatch_to k cfg i (assign cfg i rid q ?s) = dispatch_to j cfg i (assign cfg i rid q ?s)" for q
      using assign_waiting [OF r Suc.prems(2), of cfg rid q] j(2,3) Suc.prems(2) by (intro Suc.IH) auto
    moreover have "dispatch_to k cfg i ?s = dispatch_to j cfg i ?s"
      using j(2,3) r Suc.prems(2) by (intro Suc.IH) auto
    ultimately show ?thesis
      using Cons by (simp add: j(1) Let_def split: option.splits)
  qed
qed

text \<open>When the loop ends, its condition is false.\<close>

lemma dispatch_to_exit:
  "tr_refs n {} s \<Longrightarrow> i < n \<Longrightarrow> length (tp_waiting (snd s)) \<le> k \<Longrightarrow> s' = dispatch_to k cfg i s \<Longrightarrow>
   tp_dead (snd s') \<or> \<not> has_room cfg i s' \<or> tp_waiting (snd s') = []"
proof (induction k arbitrary: s)
  case (Suc k)
  show ?case
  proof (cases "tp_dead (snd s) \<or> \<not> has_room cfg i s \<or> tp_waiting (snd s) = []")
    case False
    then obtain rid rest where w: "tp_waiting (snd s) = rid # rest" "\<not> tp_dead (snd s)" "has_room cfg i s"
      by (cases "tp_waiting (snd s)") auto
    let ?s = "(fst s, (snd s)\<lparr>tp_waiting := rest\<rparr>)"
    have r: "tr_refs n {} ?s"
      using Suc.prems(1) by (simp add: tr_refs_same)
    show ?thesis
    proof (cases "lookup_request rid ?s")
      case None
      with w Suc.prems(2-4) show ?thesis
        by (intro Suc.IH [of ?s, OF r]) simp_all
    next
      case (Some q)
      with w Suc.prems(2-4) assign_waiting [OF r Suc.prems(2), of cfg rid q] show ?thesis
        by (intro Suc.IH [of "assign cfg i rid q ?s"]) simp_all
    qed
  qed (use Suc.prems(4) in \<open>auto split: list.splits\<close>)
qed simp

section \<open>The loop over responses\<close>

text \<open>\<open>Finish\<close> leaves the input of a connection alone, or empties it.\<close>

definition input_kept :: "nat \<Rightarrow> tr_state \<Rightarrow> tr_state \<Rightarrow> bool" where
  "input_kept i s s' \<longleftrightarrow> tc_input (conn i s') = tc_input (conn i s) \<or> tc_input (conn i s') = buffer_new"

lemma input_kept_trans: "input_kept i s t \<Longrightarrow> input_kept i t u \<Longrightarrow> input_kept i s u"
  by (auto simp: input_kept_def)

lemma nth_update_input: "tc_input (f (cs ! j)) = tc_input (cs ! j) \<or> tc_input (f (cs ! j)) = buffer_new \<Longrightarrow>
    tc_input (cs[j := f (cs ! j)] ! i) = tc_input (cs ! i) \<or> tc_input (cs[j := f (cs ! j)] ! i) = buffer_new"
  by (cases "i = j"; cases "i < length cs") (auto simp: list_update_beyond)

lemma input_kept_release: "input_kept i s (tr_log e (release rid q s))"
proof (cases "pq_slot q")
  case (Some j)
  show ?thesis
    using nth_update_input [of "\<lambda>c. c\<lparr>tc_inflight := sz_sub (tc_inflight c) 1\<rparr>" "tp_sockets (snd s)" j i] Some
    by (simp add: input_kept_def conn_def release_def Let_def)
qed (simp add: input_kept_def conn_def release_def Let_def)

lemma input_kept_drop: "input_kept i s (drop_conn j s)"
  using nth_update_input [of reset_conn "tp_sockets (snd s)" j i]
  by (simp add: input_kept_def conn_def drop_conn_def Let_def put_conn_def reset_conn_def)

lemma input_kept_stop: "input_kept i s t \<Longrightarrow> input_kept i s (stop_if_drained t)"
  by (simp add: input_kept_def conn_def)

lemma finish_all_input:
  assumes "\<And>rid e s s'. fin rid [] (Some e) s = Some s' \<Longrightarrow> input_kept i s s'"
  shows "finish_all fin e rids s = Some s' \<Longrightarrow> input_kept i s s'"
proof (induction rids arbitrary: s)
  case (Cons rid rids)
  then obtain t where t: "fin rid [] (Some e) s = Some t" "finish_all fin e rids t = Some s'"
    by (auto simp: bind_eq_Some_conv)
  show ?case
    by (rule input_kept_trans [OF assms [OF t(1)] Cons.IH [OF t(2)]])
qed (simp add: input_kept_def)

lemma finish_fuel_input: "finish_fuel k cfg rid response error s = Some s' \<Longrightarrow> input_kept i s s'"
proof (induction k arbitrary: rid response error s s')
  case (Suc k)
  show ?case
  proof (cases "lookup_request rid s")
    case None
    with Suc.prems show ?thesis
      by (simp add: input_kept_def)
  next
    case (Some q)
    let ?t = "tr_log (Tr_completed rid response error) (release rid q s)"
    have d: "input_kept i ?t u" if "disconnect_with (finish_fuel k cfg) cfg j code msg ?t = Some u" for j code msg u
      using that input_kept_trans [OF input_kept_drop finish_all_input [of "finish_fuel k cfg", OF Suc.IH]]
      by (auto simp: disconnect_with_def Let_def)
    from Suc.prems Some have "s' = stop_if_drained ?t \<or> (\<exists>j u. disconnect_with (finish_fuel k cfg) cfg j EC_protocol ''Invalid response payload'' ?t = Some u \<and> s' = stop_if_drained u)"
      by (auto simp: Let_def split: option.splits if_splits)
    then show ?thesis
      using d input_kept_stop input_kept_trans [OF input_kept_release] input_kept_release by blast
  qed
qed simp

lemma conn_put: "i < length (tp_sockets (snd s)) \<Longrightarrow> conn i (put_conn i c s) = c" "conn i (tr_log e s) = conn i s"
  by (simp_all add: conn_def)

lemma deliver_input:
  assumes "i < length (tp_sockets (snd s))" and "deliver cfg i response s = (None, s')"
  shows "input_kept i s s'"
proof -
  have f: "input_kept i t (tr_Finish cfg rid r e t)" for t rid r e
    by (rule finish_fuel_input [OF tr_Finish_fuel])
  have "input_kept i s (tr_Finish cfg rid r e (put_conn i ((conn i s)\<lparr>tc_order := x\<rparr>) s))" for rid r e x
    using f [of "put_conn i ((conn i s)\<lparr>tc_order := x\<rparr>) s" rid r e] assms(1) by (simp add: input_kept_def conn_put)
  moreover have "input_kept i s (put_conn i ((conn i s)\<lparr>tc_retired := x\<rparr>) s)" for x
    using assms(1) by (simp add: input_kept_def conn_put)
  ultimately show ?thesis
    using assms(2) f [of s] by (auto simp: deliver_def invalid_response_def Let_def split: sum.splits option.splits if_splits)
qed

lemma response_step_shrinks:
  assumes "i < length (tp_sockets (snd s))" and "buffer_inv (tc_input (conn i s))" and "response_step cfg i s = (None, s')"
  shows "buffer_inv (tc_input (conn i s')) \<and> buf_size (tc_input (conn i s')) < buf_size (tc_input (conn i s))"
proof -
  let ?b = "tc_input (conn i s)"
  obtain m where m: "0 < m" "m \<le> buf_size ?b"
    "deliver cfg i (buf_copy m ?b) (tr_log (Tr_frame i (buf_copy m ?b)) (put_conn i ((conn i s)\<lparr>tc_input := consume m ?b\<rparr>) s)) = (None, s')"
    using assms(3) by (auto simp: response_step_def invalid_response_def Let_def split: if_splits sum.splits)
  have b: "buffer_inv (consume m ?b)" "buf_size (consume m ?b) < buf_size ?b"
    using m(1,2) bq.copy_consume(3,4) [OF assms(2), of m] assms(2) by (simp_all add: buf_size_exact)
  have "tc_input (conn i s') = consume m ?b \<or> tc_input (conn i s') = buffer_new"
    using deliver_input [OF _ m(3)] assms(1) by (simp add: input_kept_def conn_put)
  with b show ?thesis
    using bq.inv_new by (auto simp: buf_size_exact bq.data_new)
qed

lemma response_loop_enough:
  "tr_refs n {} s \<Longrightarrow> i < n \<Longrightarrow> buffer_inv (tc_input (conn i s)) \<Longrightarrow> buf_size (tc_input (conn i s)) < k \<Longrightarrow> buf_size (tc_input (conn i s)) < k' \<Longrightarrow>
   response_loop k cfg i s = response_loop k' cfg i s"
proof (induction k arbitrary: k' s)
  case (Suc k)
  obtain j where j: "k' = Suc j"
    using Suc.prems(5) by (cases k') auto
  obtain r s' where r: "response_step cfg i s = (r, s')"
    by (metis surj_pair)
  show ?case
  proof (cases r)
    case None
    have i: "i < length (tp_sockets (snd s))"
      using Suc.prems(1,2) by (simp add: refs.sockets)
    have "tr_refs n {} s'"
      using refs.response_step [OF Suc.prems(1,2), of cfg] r by simp
    moreover have "buffer_inv (tc_input (conn i s'))" "buf_size (tc_input (conn i s')) < buf_size (tc_input (conn i s))"
      using response_step_shrinks [OF i Suc.prems(3)] r None by blast+
    ultimately have "response_loop k cfg i s' = response_loop j cfg i s'"
      using Suc.prems(2,4,5) j by (intro Suc.IH) simp_all
    with r None j show ?thesis
      by simp
  next
    case (Some go)
    with r j show ?thesis
      by simp
  qed
qed simp

end
