(* ===== verification/Transport_Guarantees.thy ===== *)
theory Transport_Guarantees
  imports Transport_Loops Rpc_Protocol Kv_Protocol
begin

text \<open>
  What the transport guarantees its clients: every submitted request is completed exactly once and
  with its own response, the limits hold, deadlines are enforced, and the loops end. The
  configurations are those of \<open>RpcClient\<close> and \<open>KVCacheClient\<close>.
\<close>

section \<open>The clients' configurations\<close>

definition rpc_transport :: "client_endpoint \<Rightarrow> client_options \<Rightarrow> (64 word list \<Rightarrow> 64 word list) \<Rightarrow> tr_config" where
  "rpc_transport ep opts iterate = \<lparr>tg_timeouts = ce_timeouts ep, tg_options = opts, tg_framing = RpcFrameSize, tg_ids = Some RpcId, tg_iterate = iterate\<rparr>"

definition kv_transport :: "client_endpoint \<Rightarrow> client_options \<Rightarrow> (64 word list \<Rightarrow> 64 word list) \<Rightarrow> tr_config" where
  "kv_transport ep opts iterate = \<lparr>tg_timeouts = ce_timeouts ep, tg_options = opts, tg_framing = kv_frame_size, tg_ids = None, tg_iterate = iterate\<rparr>"

section \<open>A run\<close>

text \<open>
  One connection, two requests. The first is sent and answered; the second is sent and runs into its deadline.
\<close>

fun tr_run :: "tr_config \<Rightarrow> tr_action list \<Rightarrow> tr_system \<Rightarrow> tr_system option" where
  "tr_run cfg [] sys = Some sys"
| "tr_run cfg (x # xs) sys =
     (if tp_dead (snd (ty_state sys)) then None else case tr_act cfg x sys of None \<Rightarrow> None | Some sys' \<Rightarrow> tr_run cfg xs sys')"

lemma tr_run_reachable: "tr_run cfg xs sys = Some sys' \<Longrightarrow> tr_reachable cfg n sys \<Longrightarrow> tr_reachable cfg n sys'"
proof (induction xs arbitrary: sys)
  case (Cons x xs)
  then obtain t where "\<not> tp_dead (snd (ty_state sys))" "tr_act cfg x sys = Some t" "tr_run cfg xs t = Some sys'"
    by (auto split: if_splits option.splits)
  then show ?case
    using Cons tr_next by blast
qed simp

definition tr_example_config :: tr_config where
  "tr_example_config = rpc_transport default_client_endpoint \<lparr>co_workers = 4, co_queue_capacity = 2, co_max_frame_bytes = 64, co_queue_bytes = 64, co_max_inflight = 2\<rparr> (\<lambda>rids. rids)"

definition rpc_frame :: "8 word \<Rightarrow> bytes" where
  "rpc_frame rid = KVR2 @ [0, 0, 0, 0, 0, 0, 0, 0, 0, 0, 0, rid]"

definition tr_example_env :: "tr_input list" where
  "tr_example_env = [tr_no_input\<lparr>ti_socket := 7, ti_connect := Connected\<rparr>, tr_no_input\<lparr>ti_send := [Sent 16], ti_recv := [Got (rpc_frame 1), Recv_again]\<rparr>,
     tr_no_input\<lparr>ti_send := [Sent 10, Sent 6]\<rparr>, tr_no_input]"

definition tr_example_start :: tr_system where
  "tr_example_start = tr_start (case transport_new True 8080 1 tr_example_config tr_example_env of Inr a \<Rightarrow> a)"

definition tr_example_run :: "tr_action list \<Rightarrow> tr_system option" where
  "tr_example_run xs = tr_run tr_example_config xs tr_example_start"

definition tr_example_actions :: "tr_action list" where
  "tr_example_actions = [T_submit 0 1 (rpc_frame 1) (\<lambda>_ _. True), T_wake, T_task, T_submit 5 2 (rpc_frame 2) (\<lambda>_ _. True), T_wake, T_task]"

lemma tr_example_facts:
  "map_option (\<lambda>sys. (map fst (tp_requests (snd (ty_state sys))), completions (tp_log (snd (ty_state sys))), length (ty_running sys), tp_dead (snd (ty_state sys)),
     map (\<lambda>(d, k, t). (d, k)) (el_timers (fst (ty_state sys))), ty_submitted sys)) (tr_example_run tr_example_actions) =
   Some ([2], [1], 0, False, [(5000000005, 3)], [(1, 5000000000), (2, 5000000005)])"
  by code_simp

lemma tr_example_ok: "tr_config_ok tr_example_config" "to_io_timeout (tg_timeouts tr_example_config) = 5000"
  by (simp_all add: tr_config_ok_def tr_example_config_def rpc_transport_def sz_mod_def default_client_endpoint_def default_transport_options_def)

lemma tr_example_reachable:
  obtains sys where "tr_example_run tr_example_actions = Some sys" and "tr_reachable tr_example_config 1 sys"
    and "map fst (tp_requests (snd (ty_state sys))) = [2]" and "completions (tp_log (snd (ty_state sys))) = [1]"
    and "ty_submitted sys = [(1, 5000000000), (2, 5000000005)]" and "ty_running sys = []" and "\<not> tp_dead (snd (ty_state sys))" and "map (\<lambda>(d, k, t). (d, k)) (el_timers (fst (ty_state sys))) = [(5000000005, 3)]"
proof -
  obtain sys where sys: "tr_example_run tr_example_actions = Some sys" and f: "map fst (tp_requests (snd (ty_state sys))) = [2]"
    "completions (tp_log (snd (ty_state sys))) = [1]" "ty_submitted sys = [(1, 5000000000), (2, 5000000005)]" "ty_running sys = []" "\<not> tp_dead (snd (ty_state sys))"
    "map (\<lambda>(d, k, t). (d, k)) (el_timers (fst (ty_state sys))) = [(5000000005, 3)]"
    using tr_example_facts by (auto simp: map_option_case simp del: concat_eq_Nil_conv split: option.splits)
  have "transport_new True 8080 1 tr_example_config tr_example_env \<noteq> Inl e" for e
    by (simp add: transport_new_def tr_example_config_def rpc_transport_def default_client_endpoint_def default_transport_options_def)
  then have "tr_reachable tr_example_config 1 tr_example_start"
    unfolding tr_example_start_def by (cases "transport_new True 8080 1 tr_example_config tr_example_env") (auto intro: tr_begin)
  with sys have "tr_reachable tr_example_config 1 sys"
    unfolding tr_example_run_def by (rule tr_run_reachable)
  from that [OF sys this f] show thesis .
qed

section \<open>Properties\<close>

definition outstanding :: "tr_system \<Rightarrow> 64 word list" where
  "outstanding sys = map fst (tp_requests (snd (ty_state sys))) @ map fst (registrations (ty_running sys @ el_tasks (fst (ty_state sys))))"

definition outstanding_bytes :: "tr_system \<Rightarrow> nat" where
  "outstanding_bytes sys =
     sum_list (map (\<lambda>(_, q). length (pq_bytes q)) (tp_requests (snd (ty_state sys)))) +
     sum_list (map (\<lambda>(_, q, _). length (pq_bytes q)) (registrations (ty_running sys @ el_tasks (fst (ty_state sys)))))"

text \<open>
  C7. In every reachable state each submitted request is either outstanding or its callback
  was called, exactly once; nothing else is completed. When responses carry identifiers, a
  callback that got a response got the one with the identifier of its request.
\<close>

theorem transport_exactly_once:
  assumes "tr_config_ok cfg" and "tr_reachable cfg n sys"
  shows "distinct (completions (tp_log (snd (ty_state sys))) @ outstanding sys) \<and>
    set (completions (tp_log (snd (ty_state sys))) @ outstanding sys) = fst ` set (ty_submitted sys) \<and>
    (\<forall>rid r ids. Tr_completed rid r None \<in> set (tp_log (snd (ty_state sys))) \<longrightarrow> tg_ids cfg = Some ids \<longrightarrow> ids r = Inr rid)"
proof -
  have "tr_inv cfg n {} (ty_running sys) (fst ` set (ty_submitted sys)) (deadline_of sys) (ty_state sys)"
    using tr_reachable_ok [OF assms(2,1)] by (simp add: tr_ok_def)
  from tr_invD(4,5) [OF this] show ?thesis
    unfolding once_ok_def responses_ok_def outstanding_def append_assoc by blast
qed

theorem transport_exactly_once_witness:
  "\<exists>sys. tr_example_run tr_example_actions = Some sys \<and> 1 \<notin> set (outstanding sys) \<and> fst ` set (ty_submitted sys) = {1, 2}"
proof -
  obtain sys where sys: "tr_example_run tr_example_actions = Some sys" "tr_reachable tr_example_config 1 sys"
    "completions (tp_log (snd (ty_state sys))) = [1]" "ty_submitted sys = [(1, 5000000000), (2, 5000000005)]"
    by (rule tr_example_reachable)
  have "1 \<notin> set (outstanding sys)"
    using transport_exactly_once [OF tr_example_ok(1) sys(2)] unfolding sys(3) by simp
  then show ?thesis
    using sys(1,4) by (auto intro!: exI [of _ sys])
qed

text \<open>
  C9. In every reachable state the admission counters are exact, and within the capacity and the byte
  limit of the queue; every connection counts the requests assigned to it, and with the
  identifiers it still expects late responses for, they are at most \<open>max_inflight\<close>, or one when responses
  carry no identifiers.
\<close>

theorem transport_limits:
  assumes "tr_config_ok cfg" and "tr_reachable cfg n sys"
  shows "tp_admitted (snd (ty_state sys)) = length (outstanding sys) \<and> length (outstanding sys) \<le> co_queue_capacity (tg_options cfg) \<and>
    tp_bytes (snd (ty_state sys)) = outstanding_bytes sys \<and> outstanding_bytes sys \<le> co_queue_bytes (tg_options cfg) \<and>
    (\<forall>i < n. tc_inflight (conn i (ty_state sys)) = length (requests_on i (ty_state sys)) \<and>
       length (requests_on i (ty_state sys)) + card (tc_retired (conn i (ty_state sys))) \<le> tr_limit cfg)"
proof -
  have inv: "tr_inv cfg n {} (ty_running sys) (fst ` set (ty_submitted sys)) (deadline_of sys) (ty_state sys)"
    using tr_reachable_ok [OF assms(2,1)] by (simp add: tr_ok_def)
  note slots = slots_okD [OF tr_invD(1) [OF inv]]
  have "tc_inflight (conn i (ty_state sys)) = length (requests_on i (ty_state sys)) \<and>
      length (requests_on i (ty_state sys)) + card (tc_retired (conn i (ty_state sys))) \<le> tr_limit cfg" if "i < n" for i
    using slots(2) slots(5) [OF that] slots(7) [OF that] that by (simp add: proj_def conn_def slot_count_def requests_on_def)
  then show ?thesis
    using tr_invD(3) [OF inv] unfolding admission_ok_def by (simp add: outstanding_def outstanding_bytes_def)
qed

theorem transport_limits_witness:
  "\<exists>sys. tr_example_run tr_example_actions = Some sys \<and> length (outstanding sys) \<le> 2 \<and> length (requests_on 0 (ty_state sys)) \<le> 2"
proof -
  obtain sys where sys: "tr_example_run tr_example_actions = Some sys" "tr_reachable tr_example_config 1 sys"
    by (rule tr_example_reachable)
  have "tr_limit tr_example_config = 2" "co_queue_capacity (tg_options tr_example_config) = 2"
    by (simp_all add: tr_limit_def tr_example_config_def rpc_transport_def)
  then show ?thesis
    using sys(1) transport_limits [OF tr_example_ok(1) sys(2)] by (auto intro!: exI [of _ sys])
qed

section \<open>Deadlines and loops\<close>

lemma expire_tracked:
  assumes "tracked n T m s" and "lookup_request rid s = Some q"
  shows "tracked n T m (expire cfg rid q s)"
proof (cases "pq_slot q")
  case (Some i)
  have "tracked n T m (put_conn i c s)" for c
    using tracked_quiet [OF assms(1) tr_refs_same(1) [OF tracked_refs [OF assms(1)]]] by simp
  moreover have "i < n"
    using tr_refs_slot [OF tracked_refs [OF assms(1)] assms(2) Some] .
  ultimately show ?thesis
    using Some assms(1) by (simp add: expire_def tracked.Finish_error tracked.Disconnect)
qed (simp add: expire_def tracked.Finish_error [OF assms(1)])

text \<open>
  C8. In every reachable state each registered request has its timer armed with the deadline it got
  when it was submitted, and the step that fires this timer completes the request.
\<close>

theorem deadline_completes:
  assumes "tr_config_ok cfg" and "tr_reachable cfg n sys" and "lookup_request rid (ty_state sys) = Some q"
  shows "(deadline_of sys rid, pq_timer q, X_deadline rid) \<in> set (el_timers (fst (ty_state sys))) \<and>
    (\<forall>now l sys'. \<not> tp_dead (snd (ty_state sys)) \<longrightarrow> due_timer now (fst (ty_state sys)) = (Some (X_deadline rid), l) \<longrightarrow>
       tr_act cfg (T_timer now) sys = Some sys' \<longrightarrow>
       rid \<in> set (completions (tp_log (snd (ty_state sys')))) \<and> lookup_request rid (ty_state sys') = None)"
proof (intro conjI allI impI)
  have ok: "tr_inv cfg n {} (ty_running sys) (fst ` set (ty_submitted sys)) (deadline_of sys) (ty_state sys)" "tr_refs n {} (ty_state sys)"
    using tr_reachable_ok [OF assms(2,1)] by (simp_all add: tr_ok_def)
  show "(deadline_of sys rid, pq_timer q, X_deadline rid) \<in> set (el_timers (fst (ty_state sys)))"
    using timers_okD(6) [OF tr_invD(2) [OF ok(1)] lookup_requestD [OF assms(3)]] by simp
  fix now l sys'
  assume h: "\<not> tp_dead (snd (ty_state sys))" "due_timer now (fst (ty_state sys)) = (Some (X_deadline rid), l)" "tr_act cfg (T_timer now) sys = Some sys'"
  let ?s = "(l, snd (ty_state sys))"
  have s': "ty_state sys' = request_deadline cfg rid ?s"
    using h by (auto simp: tr_exec_def split: if_splits)
  have lk: "lookup_request rid ?s = Some q"
    using assms(3) by (simp add: lookup_request_def)
  have r: "tr_refs n {} ?s"
    using due_refs [OF ok(2) tr_inv_parts(1) [OF ok(1)] h(2)] .
  have "tr_refs n {rid} (ty_state sys')"
    unfolding s' using timer_inv [OF ok(1) h(2)] assms(1) by (intro deadline_inv(2) [OF _ r]) (auto simp: tr_config_ok_def)
  then show gone: "lookup_request rid (ty_state sys') = None"
    by (rule tr_refs_gone) simp
  have "tracked n {rid} (length (tp_waiting (snd ?s))) ?s"
    using r imageI [OF lookup_requestD [OF assms(3)], of fst] by (simp add: tracked_def)
  then have "tracked n {rid} (length (tp_waiting (snd ?s))) (ty_state sys')"
    unfolding s' by (simp add: request_deadline_def lk tracked.Dispatch expire_tracked)
  with gone show "rid \<in> set (completions (tp_log (snd (ty_state sys'))))"
    by (auto simp: tracked_def lookup_request_def map_of_eq_None_iff)
qed

theorem deadline_completes_witness:
  "\<exists>sys sys'. tr_example_run tr_example_actions = Some sys \<and> tr_act tr_example_config (T_timer 5000000005) sys = Some sys' \<and>
     2 \<in> set (completions (tp_log (snd (ty_state sys'))))"
proof -
  obtain sys where sys: "tr_example_run tr_example_actions = Some sys" "tr_reachable tr_example_config 1 sys"
    "map fst (tp_requests (snd (ty_state sys))) = [2]" "ty_submitted sys = [(1, 5000000000), (2, 5000000005)]" "ty_running sys = []"
    "\<not> tp_dead (snd (ty_state sys))" "map (\<lambda>(d, k, t). (d, k)) (el_timers (fst (ty_state sys))) = [(5000000005, 3)]"
    by (rule tr_example_reachable)
  obtain q where q: "lookup_request 2 (ty_state sys) = Some q"
    using sys(3) by (auto simp: lookup_request_def)
  note d = deadline_completes [OF tr_example_ok(1) sys(2) q]
  obtain t where "el_timers (fst (ty_state sys)) = [(5000000005, 3, t)]"
    using sys(7) by auto
  with d have t: "el_timers (fst (ty_state sys)) = [(5000000005, 3, X_deadline 2)]"
    by auto
  then have due: "fst (due_timer 5000000005 (fst (ty_state sys))) = Some (X_deadline 2)"
    by (simp add: due_timer_def)
  then obtain l where l: "due_timer 5000000005 (fst (ty_state sys)) = (Some (X_deadline 2), l)"
    by (metis prod.collapse)
  then obtain sys' where "tr_act tr_example_config (T_timer 5000000005) sys = Some sys'"
    using sys(5) by simp
  with d l sys(1,6) show ?thesis
    by blast
qed

text \<open>
  C10. The loops of the transport end. \<open>Finish\<close> and \<open>Disconnect\<close>, which call each other, return after
  a nesting bounded by the number of outstanding requests; the loop over buffered frames takes
  at most one round per buffered byte; the loop of \<open>Dispatch\<close> takes at most one round per waiting
  request, and is left only when the connection has no room or nothing waits. More rounds
  do not change the results.
\<close>

theorem transport_loops_terminate:
  assumes "tr_refs n {} s" and "i < n" and "buffer_inv (tc_input (conn i s))"
  shows "(\<forall>k > length (tp_requests (snd s)). finish_fuel k cfg rid response error s = Some (tr_Finish cfg rid response error s)) \<and>
    (\<forall>k > buf_size (tc_input (conn i s)). response_loop k cfg i s = response_loop (Suc (buf_size (tc_input (conn i s)))) cfg i s) \<and>
    (\<forall>k \<ge> length (tp_waiting (snd s)). dispatch_to k cfg i s = dispatch_to (length (tp_waiting (snd s))) cfg i s \<and>
       (tp_dead (snd (dispatch_to k cfg i s)) \<or> \<not> has_room cfg i (dispatch_to k cfg i s) \<or> tp_waiting (snd (dispatch_to k cfg i s)) = []))"
proof (intro conjI allI impI)
  show "finish_fuel k cfg rid response error s = Some (tr_Finish cfg rid response error s)" if "length (tp_requests (snd s)) < k" for k
    using that by (intro finish_fuel_mono [OF tr_Finish_fuel]) simp
  show "response_loop k cfg i s = response_loop (Suc (buf_size (tc_input (conn i s)))) cfg i s" if "buf_size (tc_input (conn i s)) < k" for k
    using that by (intro response_loop_enough [OF assms]) simp_all
  fix k
  assume k: "length (tp_waiting (snd s)) \<le> k"
  show "dispatch_to k cfg i s = dispatch_to (length (tp_waiting (snd s))) cfg i s"
    using k by (intro dispatch_to_enough [OF assms(1,2)]) simp_all
  show "tp_dead (snd (dispatch_to k cfg i s)) \<or> \<not> has_room cfg i (dispatch_to k cfg i s) \<or> tp_waiting (snd (dispatch_to k cfg i s)) = []"
    using dispatch_to_exit [OF assms(1,2) k refl] .
qed

theorem transport_loops_terminate_witness:
  "dispatch_to 5 tr_example_config 0 (ty_state tr_example_start) = dispatch_to 0 tr_example_config 0 (ty_state tr_example_start)"
proof -
  let ?s = "ty_state tr_example_start"
  obtain a where a: "transport_new True 8080 1 tr_example_config tr_example_env = Inr a"
    by (simp add: transport_new_def tr_example_config_def rpc_transport_def default_client_endpoint_def default_transport_options_def)
  then have "tr_refs 1 {} ?s"
    using start_ok [OF a tr_example_ok(1)] by (simp add: tr_example_start_def tr_ok_def)
  moreover have "tc_input (conn 0 ?s) = buffer_new" "tp_waiting (snd ?s) = []"
    using a by (auto simp: tr_example_start_def tr_start_def conn_def transport_new_def tr_conn_new_def split: if_splits)
  ultimately show ?thesis
    using transport_loops_terminate [of 1 ?s 0 tr_example_config] bq.inv_new by simp
qed

end
