(* ===== verification/Executor.thy ===== *)
theory Executor
  imports Client_Types "HOL-Library.Multiset"
begin

text \<open>
  The thread pool of \<open>include/kvrpc/executor.h\<close>: a bounded queue of tasks, a number of worker threads
  that take tasks from it, and a destructor that lets the workers finish the admitted tasks
  and joins them. Tasks are named by numbers, their results are outside of the model. A
  step of a thread is one section under the mutex, or the end of a task.
\<close>

section \<open>State\<close>

datatype worker = Idle | Working nat | Exited

record executor =
  ex_capacity :: nat
  ex_tasks :: "nat list"
  ex_stopping :: bool
  ex_workers :: "worker list"

text \<open>\<open>threads\<close> is the number of threads that the system is able to start.\<close>

definition executor_new :: "nat \<Rightarrow> client_options \<Rightarrow> executor result" where
  "executor_new threads options =
     (if co_workers options = 0 \<or> co_workers options > 256 \<or> co_queue_capacity options = 0 \<or> co_queue_capacity options > 65536 \<or>
         co_max_frame_bytes options = 0 \<or> co_max_frame_bytes options > 64 * 1024 * 1024
      then Inl (Rpc_error EC_invalid_argument ''Invalid client resource limits'')
      else if threads < co_workers options then Inl (System_error ''thread'')
      else Inr \<lparr>ex_capacity = co_queue_capacity options, ex_tasks = [], ex_stopping = False, ex_workers = replicate (co_workers options) Idle\<rparr>)"

section \<open>Operations\<close>

text \<open>\<open>Submit\<close> returns the future of the task, or a future that holds an exception.\<close>

definition ex_Submit :: "nat \<Rightarrow> executor \<Rightarrow> nat result \<times> executor" where
  "ex_Submit task ex =
     (if ex_stopping ex \<or> length (ex_tasks ex) \<ge> ex_capacity ex
      then (Inl (Rpc_error (if ex_stopping ex then EC_closed else EC_overloaded) ''Client queue is closed or full''), ex)
      else (Inr task, ex\<lparr>ex_tasks := ex_tasks ex @ [task]\<rparr>))"

text \<open>The first half of \<open>Stop\<close>; joining the workers waits until \<open>ex_joined\<close> holds.\<close>

definition ex_Stop :: "executor \<Rightarrow> executor" where
  "ex_Stop ex = ex\<lparr>ex_stopping := True\<rparr>"

definition ex_joined :: "executor \<Rightarrow> bool" where
  "ex_joined ex \<longleftrightarrow> ex_stopping ex \<and> (\<forall>w \<in> set (ex_workers ex). w = Exited)"

text \<open>
  One round of \<open>Run\<close>: a worker waits for a task or the stop flag, takes a task or leaves, and runs
  the task outside of the mutex. \<open>None\<close> means that the thread cannot go on.
\<close>

definition run_take :: "nat \<Rightarrow> executor \<Rightarrow> executor option" where
  "run_take i ex =
     (if i < length (ex_workers ex) \<and> ex_workers ex ! i = Idle \<and> (ex_stopping ex \<or> ex_tasks ex \<noteq> [])
      then Some (case ex_tasks ex of
                   [] \<Rightarrow> ex\<lparr>ex_workers := (ex_workers ex)[i := Exited]\<rparr>
                 | task # rest \<Rightarrow> ex\<lparr>ex_tasks := rest, ex_workers := (ex_workers ex)[i := Working task]\<rparr>)
      else None)"

definition run_end :: "nat \<Rightarrow> executor \<Rightarrow> (nat \<times> executor) option" where
  "run_end i ex =
     (if i < length (ex_workers ex)
      then case ex_workers ex ! i of Working task \<Rightarrow> Some (task, ex\<lparr>ex_workers := (ex_workers ex)[i := Idle]\<rparr>) | _ \<Rightarrow> None
      else None)"

section \<open>Runs\<close>

text \<open>
  The system with its history: the tasks that were admitted, started and finished, in order.
  Every task object is submitted once.
\<close>

record ex_system =
  es_pool :: executor
  es_offered :: "nat list"
  es_admitted :: "nat list"
  es_started :: "nat list"
  es_finished :: "nat list"

datatype ex_action = E_submit nat | E_stop | E_take nat | E_end nat

fun ex_act :: "ex_action \<Rightarrow> ex_system \<Rightarrow> ex_system option" where
  "ex_act (E_submit task) s =
     (if task \<in> set (es_offered s) then None
      else Some (let (r, ex) = ex_Submit task (es_pool s)
                 in s\<lparr>es_pool := ex, es_offered := es_offered s @ [task],
                      es_admitted := (case r of Inr t \<Rightarrow> es_admitted s @ [t] | Inl _ \<Rightarrow> es_admitted s)\<rparr>))"
| "ex_act E_stop s = Some (s\<lparr>es_pool := ex_Stop (es_pool s)\<rparr>)"
| "ex_act (E_take i) s =
     map_option (\<lambda>ex. s\<lparr>es_pool := ex, es_started := es_started s @ (case ex_workers ex ! i of Working t \<Rightarrow> [t] | _ \<Rightarrow> [])\<rparr>) (run_take i (es_pool s))"
| "ex_act (E_end i) s = map_option (\<lambda>(t, ex). s\<lparr>es_pool := ex, es_finished := es_finished s @ [t]\<rparr>) (run_end i (es_pool s))"

definition ex_start :: "executor \<Rightarrow> ex_system" where
  "ex_start ex = \<lparr>es_pool = ex, es_offered = [], es_admitted = [], es_started = [], es_finished = []\<rparr>"

inductive ex_reachable :: "client_options \<Rightarrow> ex_system \<Rightarrow> bool" for options where
  ex_begin: "executor_new threads options = Inr ex \<Longrightarrow> ex_reachable options (ex_start ex)"
| ex_next: "ex_reachable options s \<Longrightarrow> ex_act x s = Some s' \<Longrightarrow> ex_reachable options s'"

section \<open>Invariant\<close>

fun working :: "worker \<Rightarrow> nat list" where
  "working (Working t) = [t]"
| "working _ = []"

abbreviation in_work :: "executor \<Rightarrow> nat list" where
  "in_work ex \<equiv> concat (map working (ex_workers ex))"

definition ex_inv :: "client_options \<Rightarrow> ex_system \<Rightarrow> bool" where
  "ex_inv options s \<longleftrightarrow>
     ex_capacity (es_pool s) = co_queue_capacity options \<and> length (ex_workers (es_pool s)) = co_workers options \<and> 0 < co_workers options \<and>
     length (ex_tasks (es_pool s)) \<le> ex_capacity (es_pool s) \<and>
     es_admitted s = es_started s @ ex_tasks (es_pool s) \<and> distinct (es_admitted s) \<and> set (es_admitted s) \<subseteq> set (es_offered s) \<and>
     mset (es_started s) = mset (es_finished s) + mset (in_work (es_pool s)) \<and>
     (Exited \<in> set (ex_workers (es_pool s)) \<longrightarrow> ex_stopping (es_pool s) \<and> ex_tasks (es_pool s) = [])"

lemma in_work_update:
  assumes "i < length ws"
  shows "mset (concat (map working (ws[i := w]))) + mset (working (ws ! i)) = mset (concat (map working ws)) + mset (working w)"
proof -
  have "concat (map working ws) = concat (map working (take i ws)) @ working (ws ! i) @ concat (map working (drop (Suc i) ws))"
    using arg_cong [OF id_take_nth_drop [OF assms], of "\<lambda>ws. concat (map working ws)"] by simp
  then show ?thesis
    using assms by (simp add: upd_conv_take_nth_drop ac_simps)
qed

lemma ex_inv_start: "executor_new threads options = Inr ex \<Longrightarrow> ex_inv options (ex_start ex)"
proof -
  have "concat (map working (replicate n Idle)) = []" for n
    by simp
  then show "executor_new threads options = Inr ex \<Longrightarrow> ex_inv options (ex_start ex)"
    by (auto simp: executor_new_def ex_inv_def ex_start_def split: if_splits)
qed

lemma ex_inv_submit: "ex_inv options s \<Longrightarrow> ex_act (E_submit task) s = Some s' \<Longrightarrow> ex_inv options s'"
  by (auto simp: ex_inv_def ex_Submit_def split: if_splits)

lemma ex_inv_take:
  assumes "ex_inv options s" and "ex_act (E_take i) s = Some s'"
  shows "ex_inv options s'"
proof -
  let ?ex = "es_pool s"
  have i: "i < length (ex_workers ?ex)" "ex_workers ?ex ! i = Idle" "ex_stopping ?ex \<or> ex_tasks ?ex \<noteq> []"
    using assms(2) by (auto simp: run_take_def split: if_splits)
  note u = in_work_update [OF i(1), unfolded i(2)]
  show ?thesis
  proof (cases "ex_tasks ?ex")
    case Nil
    then have "s' = s\<lparr>es_pool := ?ex\<lparr>ex_workers := (ex_workers ?ex)[i := Exited]\<rparr>\<rparr>"
      using assms(2) i by (simp add: run_take_def)
    then show ?thesis
      using assms(1) Nil i(3) u [of Exited] by (auto simp: ex_inv_def)
  next
    case (Cons t rest)
    then have "s' = s\<lparr>es_pool := ?ex\<lparr>ex_tasks := rest, ex_workers := (ex_workers ?ex)[i := Working t]\<rparr>, es_started := es_started s @ [t]\<rparr>"
      using assms(2) i by (simp add: run_take_def)
    then show ?thesis
      using assms(1) Cons u [of "Working t"] set_update_subset_insert [of "ex_workers ?ex" i "Working t"] by (auto simp: ex_inv_def)
  qed
qed

lemma ex_inv_end:
  assumes "ex_inv options s" and "ex_act (E_end i) s = Some s'"
  shows "ex_inv options s'"
proof -
  let ?ex = "es_pool s"
  obtain t where i: "i < length (ex_workers ?ex)" "ex_workers ?ex ! i = Working t"
    and s': "s' = s\<lparr>es_pool := ?ex\<lparr>ex_workers := (ex_workers ?ex)[i := Idle]\<rparr>, es_finished := es_finished s @ [t]\<rparr>"
    using assms(2) by (auto simp: run_end_def split: if_splits worker.splits)
  show ?thesis
    using assms(1) in_work_update [OF i(1), unfolded i(2), of Idle] set_update_subset_insert [of "ex_workers ?ex" i Idle]
    unfolding s' by (auto simp: ex_inv_def)
qed

lemma ex_reachable_inv: "ex_reachable options s \<Longrightarrow> ex_inv options s"
proof (induction rule: ex_reachable.induct)
  case (ex_next s x s')
  show ?case
  proof (cases x)
    case E_stop
    then show ?thesis
      using ex_next.IH ex_next.hyps(2) by (auto simp: ex_inv_def ex_Stop_def)
  qed (use ex_next.IH ex_next.hyps(2) ex_inv_submit ex_inv_take ex_inv_end in blast)+
qed (rule ex_inv_start)

section \<open>Stopping\<close>

fun worker_action :: "ex_action \<Rightarrow> bool" where
  "worker_action (E_take i) = True"
| "worker_action (E_end i) = True"
| "worker_action _ = False"

fun ex_run :: "ex_action list \<Rightarrow> ex_system \<Rightarrow> ex_system option" where
  "ex_run [] s = Some s"
| "ex_run (x # xs) s = Option.bind (ex_act x s) (ex_run xs)"

lemma ex_run_reachable: "ex_run xs s = Some s' \<Longrightarrow> ex_reachable options s \<Longrightarrow> ex_reachable options s'"
  by (induction xs arbitrary: s) (auto simp: bind_eq_Some_conv intro: ex_next)

fun worker_steps :: "worker \<Rightarrow> nat" where
  "worker_steps Idle = 1"
| "worker_steps (Working t) = 2"
| "worker_steps Exited = 0"

text \<open>The steps that the workers still make: two for every task in the queue, and the way out of every worker.\<close>

definition ex_work :: "executor \<Rightarrow> nat" where
  "ex_work ex = 2 * length (ex_tasks ex) + sum_list (map worker_steps (ex_workers ex))"

lemma sum_steps_update:
  "i < length ws \<Longrightarrow> sum_list (map worker_steps (ws[i := w])) + worker_steps (ws ! i) = sum_list (map worker_steps ws) + worker_steps w"
  using arg_cong [OF id_take_nth_drop [of i ws], of "\<lambda>ws. sum_list (map worker_steps ws)"] by (simp add: upd_conv_take_nth_drop)

lemma worker_step:
  assumes "ex_stopping (es_pool s)" and "worker_action x" and "ex_act x s = Some s'"
  shows "ex_stopping (es_pool s') \<and> ex_work (es_pool s) = Suc (ex_work (es_pool s'))"
proof (cases x)
  case (E_take i)
  then show ?thesis
    using assms(1,3) sum_steps_update [of i "ex_workers (es_pool s)" Exited]
      sum_steps_update [of i "ex_workers (es_pool s)" "Working (hd (ex_tasks (es_pool s)))"]
    by (auto simp: run_take_def ex_work_def split: if_splits list.splits)
next
  case (E_end i)
  then show ?thesis
    using assms(1,3) sum_steps_update [of i "ex_workers (es_pool s)" Idle]
    by (auto simp: run_end_def ex_work_def split: if_splits worker.splits)
qed (use assms(2) in simp_all)

lemma worker_run:
  "ex_stopping (es_pool s) \<Longrightarrow> \<forall>x \<in> set xs. worker_action x \<Longrightarrow> ex_run xs s = Some s' \<Longrightarrow>
   ex_stopping (es_pool s') \<and> length xs + ex_work (es_pool s') = ex_work (es_pool s)"
proof (induction xs arbitrary: s)
  case (Cons x xs)
  then obtain t where t: "ex_act x s = Some t" "ex_run xs t = Some s'"
    by (auto simp: bind_eq_Some_conv)
  with worker_step [OF Cons.prems(1) _ t(1)] Cons.IH [of t] Cons.prems(2) show ?case
    by simp
qed simp

lemma worker_enabled:
  assumes "ex_stopping (es_pool s)" and "w \<in> set (ex_workers (es_pool s))" and "w \<noteq> Exited"
  shows "\<exists>x. worker_action x \<and> ex_act x s \<noteq> None"
proof -
  obtain i where i: "i < length (ex_workers (es_pool s))" "ex_workers (es_pool s) ! i = w"
    using assms(2) by (auto simp: in_set_conv_nth)
  show ?thesis
  proof (cases w)
    case Idle
    with i assms(1) have "ex_act (E_take i) s \<noteq> None"
      by (simp add: run_take_def)
    then show ?thesis
      using worker_action.simps(1) by blast
  next
    case (Working t)
    with i have "ex_act (E_end i) s \<noteq> None"
      by (simp add: run_end_def)
    then show ?thesis
      using worker_action.simps(2) by blast
  qed (use assms(3) in simp)
qed

section \<open>Properties\<close>

definition ex_example :: "ex_system option" where
  "ex_example = (case executor_new 2 (default_client_options\<lparr>co_workers := 2, co_queue_capacity := 2\<rparr>) of
     Inl _ \<Rightarrow> None
   | Inr ex \<Rightarrow> ex_run [E_submit 7, E_submit 8, E_submit 9, E_take 1, E_submit 10, E_stop, E_submit 11] (ex_start ex))"

lemma ex_example_facts: "map_option (\<lambda>s. (es_admitted s, ex_tasks (es_pool s), ex_stopping (es_pool s), ex_work (es_pool s))) ex_example = Some ([7, 8, 10], [8, 10], True, 7)"
  by code_simp

lemma ex_example_reachable:
  obtains s where "ex_example = Some s" and "ex_reachable (default_client_options\<lparr>co_workers := 2, co_queue_capacity := 2\<rparr>) s"
    and "es_admitted s = [7, 8, 10]" and "ex_stopping (es_pool s)" and "ex_work (es_pool s) = 7" and "ex_tasks (es_pool s) = [8, 10]"
proof -
  obtain s where s: "ex_example = Some s" "es_admitted s = [7, 8, 10]" "ex_stopping (es_pool s)" "ex_work (es_pool s) = 7" "ex_tasks (es_pool s) = [8, 10]"
    using ex_example_facts by auto
  then have "ex_reachable (default_client_options\<lparr>co_workers := 2, co_queue_capacity := 2\<rparr>) s"
    unfolding ex_example_def by (auto simp del: ex_run.simps split: sum.splits intro: ex_run_reachable ex_begin)
  from that [OF s(1) this s(2-5)] show thesis .
qed

text \<open>
  C11. In every reachable state of the executor the queue is within its capacity, the admitted tasks
  are started in the order of their admission and each of them once, and those started and not
  finished are the ones the workers run; when the destructor has joined the workers, every
  admitted task has run.
\<close>

theorem executor_drains:
  assumes "ex_reachable options s"
  shows "length (ex_tasks (es_pool s)) \<le> co_queue_capacity options \<and> es_admitted s = es_started s @ ex_tasks (es_pool s) \<and> distinct (es_admitted s) \<and>
    mset (es_started s) = mset (es_finished s) + mset (in_work (es_pool s)) \<and>
    (ex_joined (es_pool s) \<longrightarrow> mset (es_finished s) = mset (es_admitted s))"
proof -
  have inv: "ex_inv options s"
    by (rule ex_reachable_inv [OF assms])
  have "mset (es_finished s) = mset (es_admitted s)" if "ex_joined (es_pool s)"
  proof -
    have w: "ex_workers (es_pool s) \<noteq> []" "\<forall>w \<in> set (ex_workers (es_pool s)). w = Exited"
      using inv that by (auto simp: ex_inv_def ex_joined_def)
    then have "in_work (es_pool s) = []"
      by auto
    moreover have "Exited \<in> set (ex_workers (es_pool s))"
      using w by (cases "ex_workers (es_pool s)") auto
    ultimately show ?thesis
      using inv by (simp add: ex_inv_def del: concat_eq_Nil_conv)
  qed
  with inv show ?thesis
    unfolding ex_inv_def by metis
qed

theorem executor_drains_witness:
  "\<exists>s. ex_example = Some s \<and> es_started s = [7] \<and> length (ex_tasks (es_pool s)) \<le> 2"
proof -
  obtain s where s: "ex_example = Some s" "ex_reachable (default_client_options\<lparr>co_workers := 2, co_queue_capacity := 2\<rparr>) s"
    "es_admitted s = [7, 8, 10]" "ex_tasks (es_pool s) = [8, 10]"
    by (rule ex_example_reachable)
  from executor_drains [OF s(2)] s show ?thesis
    by auto
qed

text \<open>
  C12. The destructor of the executor returns: once the stop flag is set, every step of a worker brings the
  end one step nearer, whatever the order of the workers; as long as a worker is left, one
  can step; and when no step is left, all workers have exited and \<open>join\<close> returns.
\<close>

theorem executor_stop_terminates:
  assumes "ex_reachable options s" and "ex_stopping (es_pool s)" and "\<forall>x \<in> set xs. worker_action x" and "ex_run xs s = Some s'"
  shows "length xs + ex_work (es_pool s') = ex_work (es_pool s) \<and> (ex_joined (es_pool s') \<longleftrightarrow> ex_work (es_pool s') = 0) \<and>
    (\<not> ex_joined (es_pool s') \<longrightarrow> (\<exists>x. worker_action x \<and> ex_act x s' \<noteq> None))"
proof -
  have run: "ex_stopping (es_pool s')" "length xs + ex_work (es_pool s') = ex_work (es_pool s)"
    using worker_run [OF assms(2-4)] by auto
  have inv: "ex_inv options s'"
    by (rule ex_reachable_inv [OF ex_run_reachable [OF assms(4,1)]])
  have "worker_steps w = 0 \<longleftrightarrow> w = Exited" for w
    by (cases w) simp_all
  then have z: "sum_list (map worker_steps ws) = 0 \<longleftrightarrow> (\<forall>w \<in> set ws. w = Exited)" for ws
    by simp
  have "ex_workers (es_pool s') \<noteq> []"
    using inv by (auto simp: ex_inv_def)
  then have "\<forall>w \<in> set (ex_workers (es_pool s')). w = Exited \<Longrightarrow> ex_tasks (es_pool s') = []"
    using inv by (cases "ex_workers (es_pool s')") (auto simp: ex_inv_def)
  then have "ex_joined (es_pool s') \<longleftrightarrow> ex_work (es_pool s') = 0"
    using run(1) z [of "ex_workers (es_pool s')"] by (auto simp: ex_joined_def ex_work_def)
  moreover have "\<exists>x. worker_action x \<and> ex_act x s' \<noteq> None" if "\<not> ex_joined (es_pool s')"
    using that run(1) worker_enabled [OF run(1)] by (auto simp: ex_joined_def)
  ultimately show ?thesis
    using run(2) by blast
qed

theorem executor_stop_terminates_witness:
  "\<exists>s s'. ex_example = Some s \<and> ex_run [E_end 1, E_take 0, E_take 1, E_end 0, E_take 0, E_end 1, E_take 1] s = Some s' \<and> ex_joined (es_pool s')"
proof -
  let ?xs = "[E_end 1, E_take 0, E_take 1, E_end 0, E_take 0, E_end 1, E_take 1]"
  obtain s where s: "ex_example = Some s" "ex_reachable (default_client_options\<lparr>co_workers := 2, co_queue_capacity := 2\<rparr>) s"
    "ex_stopping (es_pool s)" "ex_work (es_pool s) = 7"
    by (rule ex_example_reachable)
  have "Option.bind ex_example (ex_run ?xs) \<noteq> None"
    by code_simp
  then obtain s' where s': "ex_run ?xs s = Some s'"
    unfolding s(1) by (auto simp del: ex_run.simps)
  from executor_stop_terminates [OF s(2,3) _ s'] s(4) have "ex_joined (es_pool s')"
    by simp
  with s(1) s' show ?thesis
    by blast
qed

end
