(* ===== verification/Tcp_Connection.thy ===== *)
theory Tcp_Connection
  imports Client_Types Socket_Calls "HOL-Library.Sublist"
begin

text \<open>
  The blocking connection of \<open>include/kvrpc/tcp_connection.h\<close> and \<open>src/tcp_connection.cpp\<close>. Its calls wait
  on an epoll descriptor with a deadline; times are nanoseconds of the steady clock. A
  function returns \<open>None\<close> when the script of the system calls ends before it does.
\<close>

section \<open>State\<close>

record tcp_connection =
  kc_fd :: int
  kc_epoll :: int
  kc_options :: transport_options
  kc_deadline :: nat
  kc_timed_out :: bool

definition INT_MAX :: nat where
  "INT_MAX = 2 ^ 31 - 1"

definition BeginRequest :: "nat \<Rightarrow> tcp_connection \<Rightarrow> tcp_connection" where
  "BeginRequest now c = c\<lparr>kc_timed_out := False, kc_deadline := now + nat (to_io_timeout (kc_options c)) * 1000000\<rparr>"

definition tcp_connection_new :: "nat \<Rightarrow> transport_options \<Rightarrow> tcp_connection result" where
  "tcp_connection_new now options =
     (if to_connect_timeout options \<le> 0 \<or> to_io_timeout options \<le> 0 \<or> to_connect_timeout options > int INT_MAX \<or> to_io_timeout options > int INT_MAX
      then Inl (Rpc_error EC_invalid_argument ''Transport timeouts must be in [1, INT_MAX] milliseconds'')
      else Inr (BeginRequest now \<lparr>kc_fd = -1, kc_epoll = -1, kc_options = options, kc_deadline = 0, kc_timed_out = False\<rparr>))"

definition tcp_Close :: "tcp_connection \<Rightarrow> tcp_connection" where
  "tcp_Close c = (if kc_fd c \<ge> 0 then c\<lparr>kc_fd := -1\<rparr> else c)"

definition IsConnected :: "tcp_connection \<Rightarrow> bool" where
  "IsConnected c \<longleftrightarrow> kc_fd c \<ge> 0"

section \<open>Waiting\<close>

text \<open>
  One round of \<open>Wait\<close>: the clock, whether \<open>epoll_ctl\<close> succeeds, and what \<open>epoll_wait\<close> returns.
\<close>

datatype epoll_result = Epoll_ready | Epoll_none | Epoll_intr | Epoll_error

record wait_input =
  wi_now :: nat
  wi_ctl :: bool
  wi_result :: epoll_result

primrec tcp_Wait :: "nat \<Rightarrow> wait_input list \<Rightarrow> tcp_connection \<Rightarrow> (bool \<times> wait_input list \<times> tcp_connection) option" where
  "tcp_Wait deadline [] c = None"
| "tcp_Wait deadline (w # ws) c =
     (if deadline \<le> wi_now w then Some (False, ws, c\<lparr>kc_timed_out := True\<rparr>)
      else if \<not> wi_ctl w then Some (False, ws, c)
      else case wi_result w of
          Epoll_ready \<Rightarrow> Some (True, ws, c)
        | Epoll_none \<Rightarrow> Some (False, ws, c\<lparr>kc_timed_out := True\<rparr>)
        | Epoll_intr \<Rightarrow> tcp_Wait deadline ws c
        | Epoll_error \<Rightarrow> Some (False, ws, c))"

text \<open>The timeout that \<open>epoll_wait\<close> gets, in milliseconds, for a deadline that is ahead.\<close>

definition wait_ms :: "nat \<Rightarrow> nat \<Rightarrow> nat" where
  "wait_ms deadline now = min ((deadline - now) div 1000000 + 1) INT_MAX"

section \<open>Connecting\<close>

text \<open>
  Inputs of \<open>Connect\<close>: whether port and address are valid, the descriptors that \<open>socket\<close> and
  \<open>epoll_create1\<close> return, whether the registration and the socket options succeed, the
  outcome of \<open>connect\<close>, whether \<open>SO_ERROR\<close> reports an error, the clock before and after, and
  the rounds of \<open>Wait\<close>.
\<close>

record connect_input =
  cn_address_ok :: bool
  cn_socket :: int
  cn_epoll :: int
  cn_add :: bool
  cn_setup :: bool
  cn_connect :: connect_result
  cn_error :: bool
  cn_now :: nat
  cn_waits :: "wait_input list"
  cn_end :: nat

definition tcp_Connect :: "connect_input \<Rightarrow> tcp_connection \<Rightarrow> (bool \<times> tcp_connection) option" where
  "tcp_Connect inp c0 =
     (let c = (tcp_Close c0)\<lparr>kc_timed_out := False\<rparr>
      in if \<not> cn_address_ok inp then Some (False, c)
         else if cn_socket inp < 0 then Some (False, c\<lparr>kc_fd := cn_socket inp\<rparr>)
         else let c = c\<lparr>kc_fd := cn_socket inp, kc_epoll := (if kc_epoll c < 0 then cn_epoll inp else kc_epoll c)\<rparr>
              in if kc_epoll c < 0 \<or> \<not> cn_add inp then Some (False, tcp_Close c)
                 else if \<not> cn_setup inp then Some (False, tcp_Close c)
                 else case cn_connect inp of
                     Connected \<Rightarrow> Some (True, BeginRequest (cn_end inp) c)
                   | Connect_failed \<Rightarrow> Some (False, tcp_Close c)
                   | Connect_pending \<Rightarrow>
                       map_option (\<lambda>(ok, ws, c). if \<not> ok \<or> cn_error inp then (False, tcp_Close c) else (True, BeginRequest (cn_end inp) c))
                         (tcp_Wait (cn_now inp + nat (to_connect_timeout (kc_options c)) * 1000000) (cn_waits inp) c))"

section \<open>Sending and receiving\<close>

text \<open>
  Besides the result and the connection the loops return the bytes that were passed to the kernel
  or taken from it.
\<close>

function send_all :: "bytes \<Rightarrow> nat \<Rightarrow> wait_input list \<Rightarrow> send_result list \<Rightarrow> tcp_connection \<Rightarrow> (bool \<times> bytes \<times> tcp_connection) option" where
  "send_all data offset ws rs c =
     (if offset \<ge> length data then Some (True, [], c)
      else case tcp_Wait (kc_deadline c) ws c of
          None \<Rightarrow> None
        | Some (False, ws, c) \<Rightarrow> Some (False, [], tcp_Close c)
        | Some (True, ws, c) \<Rightarrow>
            (case rs of
               [] \<Rightarrow> None
             | Sent n # rs \<Rightarrow>
                 (let n = min n (min (length data - offset) INT_MAX)
                  in if n = 0 then Some (False, [], tcp_Close c)
                     else map_option (\<lambda>(ok, out, c). (ok, take n (drop offset data) @ out, c)) (send_all data (sz_add offset n) ws rs c))
             | Send_intr # rs \<Rightarrow> send_all data offset ws rs c
             | Send_again # rs \<Rightarrow> send_all data offset ws rs c
             | Send_error # rs \<Rightarrow> Some (False, [], tcp_Close c)))"
  by pat_completeness auto
termination
  by (relation "measure (\<lambda>(data, offset, ws, rs, c). length rs)") auto

definition SendAll :: "bytes \<Rightarrow> wait_input list \<Rightarrow> send_result list \<Rightarrow> tcp_connection \<Rightarrow> (bool \<times> bytes \<times> tcp_connection) option" where
  "SendAll data ws rs c = (if kc_fd c < 0 then Some (False, [], c) else send_all data 0 ws rs c)"

text \<open>
  \<open>stream\<close> are the bytes that have arrived or will arrive; a call takes at most as many as it asks
  for. \<open>Got_bytes n\<close> with \<open>n\<close> greater than 0 is a successful call.
\<close>

datatype stream_recv = Got_bytes nat | Stream_eof | Stream_intr | Stream_again | Stream_error

function recv_all ::
  "nat \<Rightarrow> nat \<Rightarrow> wait_input list \<Rightarrow> stream_recv list \<Rightarrow> bytes \<Rightarrow> tcp_connection \<Rightarrow> (bool \<times> bytes \<times> bytes \<times> tcp_connection) option" where
  "recv_all len offset ws rs stream c =
     (if offset \<ge> len then Some (True, [], stream, c)
      else case tcp_Wait (kc_deadline c) ws c of
          None \<Rightarrow> None
        | Some (False, ws, c) \<Rightarrow> Some (False, [], stream, tcp_Close c)
        | Some (True, ws, c) \<Rightarrow>
            (case rs of
               [] \<Rightarrow> None
             | Got_bytes n # rs \<Rightarrow>
                 (let n = min (min n (length stream)) (min (len - offset) INT_MAX)
                  in if n = 0 then Some (False, [], stream, tcp_Close c)
                     else map_option (\<lambda>(ok, got, rest, c). (ok, take n stream @ got, rest, c)) (recv_all len (sz_add offset n) ws rs (drop n stream) c))
             | Stream_eof # rs \<Rightarrow> Some (False, [], stream, tcp_Close c)
             | Stream_intr # rs \<Rightarrow> recv_all len offset ws rs stream c
             | Stream_again # rs \<Rightarrow> recv_all len offset ws rs stream c
             | Stream_error # rs \<Rightarrow> Some (False, [], stream, tcp_Close c)))"
  by pat_completeness auto
termination
  by (relation "measure (\<lambda>(len, offset, ws, rs, stream, c). length rs)") auto

definition RecvAll :: "nat \<Rightarrow> wait_input list \<Rightarrow> stream_recv list \<Rightarrow> bytes \<Rightarrow> tcp_connection \<Rightarrow> (bool \<times> bytes \<times> bytes \<times> tcp_connection) option" where
  "RecvAll len ws rs stream c = (if kc_fd c < 0 then Some (False, [], stream, c) else recv_all len 0 ws rs stream c)"

declare send_all.simps [simp del] recv_all.simps [simp del]

section \<open>Lemmas\<close>

lemma wait_keeps:
  "tcp_Wait deadline ws c = Some (ok, ws', c') \<Longrightarrow> kc_fd c' = kc_fd c \<and> kc_epoll c' = kc_epoll c \<and> kc_options c' = kc_options c \<and> (ok \<longrightarrow> c' = c)"
  by (induction ws) (auto split: if_splits epoll_result.splits)

text \<open>A reading of the clock that has reached the deadline is not passed over.\<close>

lemma wait_deadline:
  assumes "\<exists>w \<in> set ws. deadline \<le> wi_now w"
  shows "\<exists>ok ws' c'. tcp_Wait deadline ws c = Some (ok, ws', c') \<and> (ok \<longrightarrow> (\<exists>w \<in> set ws'. deadline \<le> wi_now w) \<and> length ws' < length ws)"
  using assms
proof (induction ws)
  case (Cons w ws)
  then show ?case
    by (cases "deadline \<le> wi_now w"; cases "wi_result w") (auto intro: less_SucI)
qed simp

lemma wait_ms_covers: "now < deadline \<Longrightarrow> (deadline - now) div 1000000 < INT_MAX \<Longrightarrow> deadline < now + wait_ms deadline now * 1000000"
proof -
  assume h: "now < deadline" "(deadline - now) div 1000000 < INT_MAX"
  then have "wait_ms deadline now * 1000000 = (deadline - now) div 1000000 * 1000000 + 1000000"
    by (simp add: wait_ms_def min_def)
  moreover have "deadline - now < (deadline - now) div 1000000 * 1000000 + 1000000"
    by (metis add.commute div_mult_mod_eq mod_less_divisor nat_add_left_cancel_less zero_less_numeral)
  ultimately show ?thesis
    by linarith
qed

lemma close_closed: "kc_fd c \<ge> 0 \<Longrightarrow> kc_fd (tcp_Close c) = -1" and close_options [simp]: "kc_options (tcp_Close c) = kc_options c"
  by (simp_all add: tcp_Close_def)

lemma send_all_step:
  assumes "offset < length data" and "tcp_Wait (kc_deadline c) ws c = Some (w, ws', c1)"
  shows "send_all data offset ws rs c =
    (if \<not> w then Some (False, [], tcp_Close c1)
     else case rs of
         [] \<Rightarrow> None
       | Sent n # rs \<Rightarrow>
           (let n = min n (min (length data - offset) INT_MAX)
            in if n = 0 then Some (False, [], tcp_Close c1)
               else map_option (\<lambda>(ok, out, c). (ok, take n (drop offset data) @ out, c)) (send_all data (sz_add offset n) ws' rs c1))
       | Send_error # rs \<Rightarrow> Some (False, [], tcp_Close c1)
       | _ # rs \<Rightarrow> send_all data offset ws' rs c1)"
  using assms by (subst send_all.simps) (auto split: list.splits send_result.splits)

lemma send_all_done: "length data \<le> offset \<Longrightarrow> send_all data offset ws rs c = Some (True, [], c)"
  by (subst send_all.simps) simp

lemma send_all_exact:
  "send_all data offset ws rs c = Some (ok, out, c') \<Longrightarrow> offset \<le> length data \<Longrightarrow> length data < sz_mod \<Longrightarrow> kc_fd c \<ge> 0 \<Longrightarrow>
   kc_options c' = kc_options c \<and> (if ok then out = drop offset data \<and> c' = c else (\<exists>y. out @ y = drop offset data \<and> y \<noteq> []) \<and> kc_fd c' = -1)"
proof (induction "length rs" arbitrary: rs offset ws ok out rule: less_induct)
  case less
  show ?case
  proof (cases "length data \<le> offset")
    case True
    with less.prems show ?thesis
      by (simp add: send_all_done)
  next
    case False
    then have rest: "drop offset data \<noteq> []" "offset < length data"
      by simp_all
    obtain w ws' c1 where w: "tcp_Wait (kc_deadline c) ws c = Some (w, ws', c1)"
      using less.prems(1) False by (subst (asm) send_all.simps) (auto split: option.splits)
    have c1: "kc_fd (tcp_Close c1) = -1 \<and> kc_options (tcp_Close c1) = kc_options c" "w \<Longrightarrow> c1 = c"
      using wait_keeps [OF w] less.prems(4) by (auto simp: close_closed)
    note step = less.prems(1) [unfolded send_all_step [OF rest(2) w]]
    have closed: ?thesis if "(ok, out, c') = (False, [], tcp_Close c1)"
      using that c1(1) rest(1) by auto
    show ?thesis
    proof (cases "w \<and> (\<exists>n rs'. rs = Sent n # rs' \<and> min n (min (length data - offset) INT_MAX) \<noteq> 0)")
      case True
      then obtain n rs' where n: "w" "rs = Sent n # rs'" "min n (min (length data - offset) INT_MAX) \<noteq> 0"
        by blast
      define m where "m = min n (min (length data - offset) INT_MAX)"
      have m: "sz_add offset m = offset + m" "offset + m \<le> length data"
        using less.prems(3) rest(2) by (simp_all add: m_def sz_add_exact)
      obtain out' where o: "send_all data (offset + m) ws' rs' c = Some (ok, out', c')" "out = take m (drop offset data) @ out'"
        using step n(1,3) c1(2) unfolding n(2) by (auto simp: Let_def m_def [symmetric] m(1))
      have "take m (drop offset data) @ drop (offset + m) data = drop offset data"
        by (metis add.commute append_take_drop_id drop_drop)
      with less.hyps [of rs' "offset + m" ws' ok out'] n(2) m(2) less.prems(3,4) o show ?thesis
        by (cases ok) (simp, metis append.assoc length_Cons lessI)
    next
      case False
      then consider "(ok, out, c') = (False, [], tcp_Close c1)" | r rs' where "w" "rs = r # rs'" "send_all data offset ws' rs' c = Some (ok, out, c')"
        using step c1(2) by (auto simp: Let_def split: list.splits send_result.splits if_splits)
      then show ?thesis
      proof cases
        case 1
        then show ?thesis
          by (rule closed)
      next
        case (2 r rs')
        then show ?thesis
          using less.hyps [of rs' offset ws' ok out] less.prems by simp
      qed
    qed
  qed
qed

lemma recv_all_step:
  assumes "offset < len" and "tcp_Wait (kc_deadline c) ws c = Some (w, ws', c1)"
  shows "recv_all len offset ws rs stream c =
    (if \<not> w then Some (False, [], stream, tcp_Close c1)
     else case rs of
         [] \<Rightarrow> None
       | Got_bytes n # rs \<Rightarrow>
           (let n = min (min n (length stream)) (min (len - offset) INT_MAX)
            in if n = 0 then Some (False, [], stream, tcp_Close c1)
               else map_option (\<lambda>(ok, got, rest, c). (ok, take n stream @ got, rest, c)) (recv_all len (sz_add offset n) ws' rs (drop n stream) c1))
       | Stream_intr # rs \<Rightarrow> recv_all len offset ws' rs stream c1
       | Stream_again # rs \<Rightarrow> recv_all len offset ws' rs stream c1
       | _ # rs \<Rightarrow> Some (False, [], stream, tcp_Close c1))"
  using assms by (subst recv_all.simps) (auto split: list.splits stream_recv.splits)

lemma recv_all_done: "len \<le> offset \<Longrightarrow> recv_all len offset ws rs stream c = Some (True, [], stream, c)"
  by (subst recv_all.simps) simp

lemma recv_all_exact:
  "recv_all len offset ws rs stream c = Some (ok, got, rest, c') \<Longrightarrow> offset \<le> len \<Longrightarrow> len < sz_mod \<Longrightarrow> kc_fd c \<ge> 0 \<Longrightarrow>
   kc_options c' = kc_options c \<and> got @ rest = stream \<and> (if ok then length got = len - offset \<and> c' = c else length got < len - offset \<and> kc_fd c' = -1)"
proof (induction "length rs" arbitrary: rs offset ws ok got stream rule: less_induct)
  case less
  show ?case
  proof (cases "len \<le> offset")
    case True
    with less.prems show ?thesis
      by (simp add: recv_all_done)
  next
    case False
    then have off: "offset < len"
      by simp
    obtain w ws' c1 where w: "tcp_Wait (kc_deadline c) ws c = Some (w, ws', c1)"
      using less.prems(1) False by (subst (asm) recv_all.simps) (auto split: option.splits)
    have c1: "kc_fd (tcp_Close c1) = -1 \<and> kc_options (tcp_Close c1) = kc_options c" "w \<Longrightarrow> c1 = c"
      using wait_keeps [OF w] less.prems(4) by (auto simp: close_closed)
    note step = less.prems(1) [unfolded recv_all_step [OF off w]]
    show ?thesis
    proof (cases "w \<and> (\<exists>n rs'. rs = Got_bytes n # rs' \<and> min (min n (length stream)) (min (len - offset) INT_MAX) \<noteq> 0)")
      case True
      then obtain n rs' where n: "w" "rs = Got_bytes n # rs'" "min (min n (length stream)) (min (len - offset) INT_MAX) \<noteq> 0"
        by blast
      define m where "m = min (min n (length stream)) (min (len - offset) INT_MAX)"
      have m: "sz_add offset m = offset + m" "offset + m \<le> len" "m \<le> length stream"
        using less.prems(3) off by (simp_all add: m_def sz_add_exact)
      obtain got' where o: "recv_all len (offset + m) ws' rs' (drop m stream) c = Some (ok, got', rest, c')" "got = take m stream @ got'"
        using step n(1,3) c1(2) unfolding n(2) by (auto simp: Let_def m_def [symmetric] m(1))
      have "kc_options c' = kc_options c \<and> got' @ rest = drop m stream \<and> (if ok then length got' = len - (offset + m) \<and> c' = c else length got' < len - (offset + m) \<and> kc_fd c' = -1)"
        using less.hyps [of rs' "offset + m" ws' "drop m stream" ok got'] n(2) m(2) less.prems(3,4) o(1) by simp
      with o(2) m(2,3) show ?thesis
        by (auto simp: min_def)
    next
      case False
      then consider "(ok, got, rest, c') = (False, [], stream, tcp_Close c1)" | r rs' where "w" "rs = r # rs'" "recv_all len offset ws' rs' stream c = Some (ok, got, rest, c')"
        using step c1(2) by (auto simp: Let_def split: list.splits stream_recv.splits if_splits)
      then show ?thesis
      proof cases
        case 1
        with c1(1) off show ?thesis
          by simp
      next
        case (2 r rs')
        then show ?thesis
          using less.hyps [of rs' offset ws' stream ok got] less.prems by simp
      qed
    qed
  qed
qed

lemma send_all_returns:
  "\<exists>w \<in> set ws. kc_deadline c \<le> wi_now w \<Longrightarrow> length ws \<le> length rs \<Longrightarrow> send_all data offset ws rs c \<noteq> None"
proof (induction "length rs" arbitrary: rs offset ws rule: less_induct)
  case less
  show ?case
  proof (cases "length data \<le> offset")
    case False
    obtain w ws' c1 where w: "tcp_Wait (kc_deadline c) ws c = Some (w, ws', c1)"
      and late: "w \<longrightarrow> (\<exists>w \<in> set ws'. kc_deadline c \<le> wi_now w) \<and> length ws' < length ws"
      using wait_deadline [OF less.prems(1)] by blast
    have "rs \<noteq> []"
      using less.prems by auto
    then obtain r rs' where rs: "rs = r # rs'"
      by (cases rs) auto
    have "send_all data k ws' rs' c1 \<noteq> None" if "w" for k
      using late that less.hyps [of rs' ws' k] less.prems(2) wait_keeps [OF w] rs by auto
    then show ?thesis
      using False by (auto simp: send_all_step [OF _ w] rs Let_def simp del: not_None_eq split: send_result.splits)
  qed (simp add: send_all_done)
qed

lemma recv_all_returns:
  "\<exists>w \<in> set ws. kc_deadline c \<le> wi_now w \<Longrightarrow> length ws \<le> length rs \<Longrightarrow> recv_all len offset ws rs stream c \<noteq> None"
proof (induction "length rs" arbitrary: rs offset ws stream rule: less_induct)
  case less
  show ?case
  proof (cases "len \<le> offset")
    case False
    obtain w ws' c1 where w: "tcp_Wait (kc_deadline c) ws c = Some (w, ws', c1)"
      and late: "w \<longrightarrow> (\<exists>w \<in> set ws'. kc_deadline c \<le> wi_now w) \<and> length ws' < length ws"
      using wait_deadline [OF less.prems(1)] by blast
    have "rs \<noteq> []"
      using less.prems by auto
    then obtain r rs' where rs: "rs = r # rs'"
      by (cases rs) auto
    have "recv_all len k ws' rs' b c1 \<noteq> None" if "w" for k b
      using late that less.hyps [of rs' ws' k b] less.prems(2) wait_keeps [OF w] rs by auto
    then show ?thesis
      using False by (auto simp: recv_all_step [OF _ w] rs Let_def simp del: not_None_eq split: stream_recv.splits)
  qed (simp add: recv_all_done)
qed

section \<open>Properties\<close>

definition conn_example :: tcp_connection where
  "conn_example = \<lparr>kc_fd = 5, kc_epoll = 6, kc_options = default_transport_options, kc_deadline = 100, kc_timed_out = False\<rparr>"

definition ready_at :: "nat \<Rightarrow> wait_input" where
  "ready_at now = \<lparr>wi_now = now, wi_ctl = True, wi_result = Epoll_ready\<rparr>"



text \<open>
  C15. The blocking calls end at the deadline of the request: when the clock is read at or after the
  deadline, \<open>SendAll\<close> and \<open>RecvAll\<close> have returned, whatever the kernel answers before.
\<close>

theorem blocking_calls_return:
  assumes "\<exists>w \<in> set ws. kc_deadline c \<le> wi_now w" and "length ws \<le> length rs" and "length ws \<le> length rs'"
  shows "SendAll data ws rs c \<noteq> None \<and> RecvAll len ws rs' stream c \<noteq> None"
  using send_all_returns [OF assms(1,2), of data 0] recv_all_returns [OF assms(1,3), of len 0 stream]
  by (simp add: SendAll_def RecvAll_def del: not_None_eq)

theorem blocking_calls_return_witness:
  "RecvAll 4 [ready_at 0, ready_at 50, ready_at 100] [Stream_again, Stream_intr, Stream_again] [1, 2, 3, 4] conn_example \<noteq> None"
  using blocking_calls_return [of "[ready_at 0, ready_at 50, ready_at 100]" conn_example "[Send_again, Send_again, Send_again]" "[Stream_again, Stream_intr, Stream_again]"]
  by (simp add: ready_at_def conn_example_def)

end
