(* ===== verification/Connection_Pool.thy ===== *)
theory Connection_Pool
  imports Tcp_Connection "HOL-Library.Multiset"
begin

text \<open>
  The pool of blocking connections of \<open>include/kvrpc/connection_pool.h\<close>. The connection objects are
  numbered; a lease is the number of the connection, and the deleter of the lease gives it
  back. The section of \<open>Acquire\<close> under the mutex and the part behind it are two steps of a
  thread.
\<close>

section \<open>State\<close>

record pool =
  pl_ip :: string
  pl_port :: nat
  pl_acquire_timeout :: int
  pl_slots :: nat
  pl_options :: transport_options
  pl_free :: "nat list"
  pl_closed :: bool
  pl_conns :: "nat \<Rightarrow> tcp_connection"

text \<open>\<open>ip_ok\<close> says that \<open>inet_pton\<close> accepts the address; \<open>clock i\<close> is read for connection \<open>i\<close>.\<close>

definition pool_new :: "bool \<Rightarrow> (nat \<Rightarrow> nat) \<Rightarrow> string \<Rightarrow> nat \<Rightarrow> nat \<Rightarrow> transport_options \<Rightarrow> int \<Rightarrow> pool result" where
  "pool_new ip_ok clock ip port slots options acquire_timeout =
     (if slots = 0 \<or> slots > 4096 \<or> port = 0 \<or> \<not> ip_ok \<or> acquire_timeout \<le> 0 \<or> acquire_timeout > 24 * 60 * 60 * 1000
      then Inl (Rpc_error EC_invalid_argument ''Invalid pool size, IPv4 address, port, or acquire timeout'')
      else rbind (tcp_connection_new (clock 0) options) (\<lambda>c.
        Inr \<lparr>pl_ip = ip, pl_port = port, pl_acquire_timeout = acquire_timeout, pl_slots = slots, pl_options = options,
             pl_free = [0..<slots], pl_closed = False, pl_conns = (\<lambda>i. BeginRequest (clock i) c)\<rparr>))"

definition Endpoint :: "pool \<Rightarrow> client_endpoint" where
  "Endpoint p = \<lparr>ce_address = pl_ip p, ce_port = pl_port p, ce_connections = pl_slots p, ce_timeouts = pl_options p\<rparr>"

section \<open>Operations\<close>

definition pool_Close :: "pool \<Rightarrow> pool" where
  "pool_Close p = p\<lparr>pl_closed := True, pl_free := []\<rparr>"

text \<open>The wait has ended: a connection is free, the pool is closed, or the time is over.\<close>

definition pool_take :: "pool \<Rightarrow> nat result \<times> pool" where
  "pool_take p =
     (if \<not> pl_closed p \<and> pl_free p = [] then (Inl (Rpc_error EC_timeout ''Connection pool acquisition timed out''), p)
      else if pl_closed p then (Inl (Rpc_error EC_closed ''Connection pool is closed''), p)
      else (Inr (last (pl_free p)), p\<lparr>pl_free := butlast (pl_free p)\<rparr>))"

text \<open>The deleter of a lease.\<close>

definition give_back :: "nat \<Rightarrow> pool \<Rightarrow> pool" where
  "give_back i p = (if \<not> pl_closed p then p\<lparr>pl_free := pl_free p @ [i]\<rparr> else p)"

definition put_tcp :: "nat \<Rightarrow> tcp_connection \<Rightarrow> pool \<Rightarrow> pool" where
  "put_tcp i c p = p\<lparr>pl_conns := (pl_conns p)(i := c)\<rparr>"

definition lease_open :: "nat \<Rightarrow> connect_input \<Rightarrow> nat \<Rightarrow> pool \<Rightarrow> (unit result \<times> pool) option" where
  "lease_open i inp now p =
     (if IsConnected (pl_conns p i) then Some (Inr (), put_tcp i (BeginRequest now (pl_conns p i)) p)
      else map_option (\<lambda>(ok, c).
             if \<not> ok
             then (Inl (Rpc_error (if kc_timed_out c then EC_timeout else EC_connection) ''Unable to connect to server''), give_back i (put_tcp i c p))
             else (Inr (), put_tcp i (BeginRequest now c) p)) (tcp_Connect inp (pl_conns p i)))"

section \<open>Runs\<close>

text \<open>
  \<open>ps_opening\<close> are connections on the way out of \<open>Acquire\<close>, \<open>ps_leased\<close> those that a caller holds and
  uses. Lengths are values of \<open>size_t\<close>.
\<close>

record pool_system =
  ps_pool :: pool
  ps_opening :: "nat list"
  ps_leased :: "nat list"

datatype pool_action =
  L_take
| L_open nat connect_input nat
| L_send nat bytes "wait_input list" "send_result list"
| L_recv nat nat "wait_input list" "stream_recv list" bytes
| L_release nat
| L_close

fun pool_act :: "pool_action \<Rightarrow> pool_system \<Rightarrow> pool_system option" where
  "pool_act L_take s =
     Some (case pool_take (ps_pool s) of
             (Inl _, p) \<Rightarrow> s\<lparr>ps_pool := p\<rparr>
           | (Inr i, p) \<Rightarrow> s\<lparr>ps_pool := p, ps_opening := ps_opening s @ [i]\<rparr>)"
| "pool_act (L_open i inp now) s =
     (if i \<notin> set (ps_opening s) then None
      else map_option (\<lambda>(r, p). s\<lparr>ps_pool := p, ps_opening := remove1 i (ps_opening s),
             ps_leased := (case r of Inr _ \<Rightarrow> ps_leased s @ [i] | Inl _ \<Rightarrow> ps_leased s)\<rparr>) (lease_open i inp now (ps_pool s)))"
| "pool_act (L_send i data ws rs) s =
     (if i \<notin> set (ps_leased s) \<or> length data \<ge> sz_mod then None
      else map_option (\<lambda>(ok, out, c). s\<lparr>ps_pool := put_tcp i c (ps_pool s)\<rparr>) (SendAll data ws rs (pl_conns (ps_pool s) i)))"
| "pool_act (L_recv i len ws rs stream) s =
     (if i \<notin> set (ps_leased s) \<or> len \<ge> sz_mod then None
      else map_option (\<lambda>(ok, got, rest, c). s\<lparr>ps_pool := put_tcp i c (ps_pool s)\<rparr>) (RecvAll len ws rs stream (pl_conns (ps_pool s) i)))"
| "pool_act (L_release i) s =
     (if i \<notin> set (ps_leased s) then None
      else Some (s\<lparr>ps_pool := give_back i (ps_pool s), ps_leased := remove1 i (ps_leased s)\<rparr>))"
| "pool_act L_close s = Some (s\<lparr>ps_pool := pool_Close (ps_pool s)\<rparr>)"

definition pool_start :: "pool \<Rightarrow> pool_system" where
  "pool_start p = \<lparr>ps_pool = p, ps_opening = [], ps_leased = []\<rparr>"

inductive pool_reachable :: "nat \<Rightarrow> transport_options \<Rightarrow> pool_system \<Rightarrow> bool" for slots options where
  pool_begin: "pool_new ip_ok clock ip port slots options acquire_timeout = Inr p \<Longrightarrow> pool_reachable slots options (pool_start p)"
| pool_next: "pool_reachable slots options s \<Longrightarrow> pool_act x s = Some s' \<Longrightarrow> pool_reachable slots options s'"

section \<open>Invariant\<close>

abbreviation in_pool :: "pool_system \<Rightarrow> nat list" where
  "in_pool s \<equiv> pl_free (ps_pool s) @ ps_opening s @ ps_leased s"

definition pool_inv :: "nat \<Rightarrow> transport_options \<Rightarrow> pool_system \<Rightarrow> bool" where
  "pool_inv slots options s \<longleftrightarrow>
     pl_slots (ps_pool s) = slots \<and> (\<forall>i. kc_options (pl_conns (ps_pool s) i) = options) \<and>
     mset (in_pool s) \<subseteq># mset [0..<slots] \<and> (\<not> pl_closed (ps_pool s) \<longrightarrow> mset (in_pool s) = mset [0..<slots]) \<and>
     (pl_closed (ps_pool s) \<longrightarrow> pl_free (ps_pool s) = [])"

lemma begin_options [simp]: "kc_options (BeginRequest now c) = kc_options c" "kc_fd (BeginRequest now c) = kc_fd c"
  by (simp_all add: BeginRequest_def)

lemma connect_connected: "tcp_Connect inp c = Some (ok, c') \<Longrightarrow> kc_options c' = kc_options c \<and> (ok \<longrightarrow> IsConnected c')"
  by (auto simp: tcp_Connect_def Let_def IsConnected_def dest!: wait_keeps split: if_splits connect_result.splits)

lemma use_options:
  "SendAll data ws rs c = Some (ok, out, c') \<Longrightarrow> length data < sz_mod \<Longrightarrow> kc_options c' = kc_options c"
  "RecvAll len ws rs' stream c = Some (ok, got, rest, c') \<Longrightarrow> len < sz_mod \<Longrightarrow> kc_options c' = kc_options c"
  using send_all_exact [of data 0 ws rs c ok out c'] recv_all_exact [of len 0 ws rs' stream c ok got rest c']
  by (auto simp: SendAll_def RecvAll_def split: if_splits)

lemma mset_remove1: "i \<in> set xs \<Longrightarrow> add_mset i (mset (remove1 i xs)) = mset xs"
  by simp

lemma pool_inv_move:
  assumes "pool_inv slots options s" and "pl_slots (ps_pool s') = pl_slots (ps_pool s)" and "\<And>i. kc_options (pl_conns (ps_pool s') i) = options"
    and "mset (in_pool s') \<subseteq># mset (in_pool s)" and "\<not> pl_closed (ps_pool s') \<Longrightarrow> \<not> pl_closed (ps_pool s) \<and> mset (in_pool s') = mset (in_pool s)"
    and "pl_closed (ps_pool s') \<Longrightarrow> pl_free (ps_pool s') = []"
  shows "pool_inv slots options s'"
proof -
  have "mset (in_pool s') \<subseteq># mset [0..<slots]"
    using assms(1,4) unfolding pool_inv_def by (blast intro: subset_mset.order_trans)
  moreover have "mset (in_pool s') = mset [0..<slots]" if "\<not> pl_closed (ps_pool s')"
    using assms(1) assms(5) [OF that] unfolding pool_inv_def by simp
  ultimately show ?thesis
    using assms(1-3,6) unfolding pool_inv_def by simp
qed

lemma distinct_submset:
  assumes "mset xs \<subseteq># mset ys" and "distinct ys"
  shows "distinct xs"
proof -
  have le: "count (mset xs) a \<le> 1" for a
  proof -
    have "count (mset ys) a \<le> 1"
      using assms(2) unfolding distinct_count_atmost_1 by simp
    then show ?thesis
      using mset_subset_eq_count [OF assms(1), of a] by simp
  qed
  have "count (mset xs) a = (if a \<in> set xs then 1 else 0)" for a
    using le [of a] count_greater_zero_iff [of "mset xs" a] by (cases "a \<in> set xs") (simp_all del: count_greater_zero_iff)
  then show ?thesis
    by (simp add: distinct_count_atmost_1)
qed

lemma take_inv:
  assumes "pool_inv slots options s" and "pool_act L_take s = Some s'"
  shows "pool_inv slots options s'"
proof (cases "pl_closed (ps_pool s) \<or> pl_free (ps_pool s) = []")
  case True
  with assms show ?thesis
    by (auto simp: pool_take_def split: if_splits)
next
  case False
  then obtain xs i where xs: "pl_free (ps_pool s) = xs @ [i]"
    by (metis append_butlast_last_id)
  with False assms(2) have "s' = s\<lparr>ps_pool := (ps_pool s)\<lparr>pl_free := xs\<rparr>, ps_opening := ps_opening s @ [i]\<rparr>"
    by (simp add: pool_take_def)
  with assms(1) False xs show ?thesis
    by (intro pool_inv_move [OF assms(1)]) (auto simp: pool_inv_def)
qed

lemma give_back_inv:
  assumes "pool_inv slots options s" and "\<And>i. kc_options (pl_conns p i) = options" and "pl_slots p = slots" and "pl_free p = pl_free (ps_pool s)"
    and "pl_closed p = pl_closed (ps_pool s)" and "mset opened + mset leased + {#i#} = mset (ps_opening s) + mset (ps_leased s)"
  shows "pool_inv slots options (s\<lparr>ps_pool := give_back i p, ps_opening := opened, ps_leased := leased\<rparr>)"
proof (rule pool_inv_move [OF assms(1)])
  have sub: "mset opened + mset leased \<subseteq># mset (ps_opening s) + mset (ps_leased s)"
    unfolding assms(6) [symmetric] by (rule mset_subset_eq_add_left)
  have free: "pl_closed (ps_pool s) \<Longrightarrow> pl_free (ps_pool s) = []"
    using assms(1) by (simp add: pool_inv_def)
  have eq: "mset (in_pool s) = mset (pl_free p) + (mset opened + mset leased) + {#i#}"
    using assms(4,6) by (simp add: ac_simps)
  show "mset (in_pool (s\<lparr>ps_pool := give_back i p, ps_opening := opened, ps_leased := leased\<rparr>)) \<subseteq># mset (in_pool s)"
    unfolding eq by (simp add: give_back_def ac_simps)
  show "\<not> pl_closed (ps_pool s) \<and> mset (in_pool (s\<lparr>ps_pool := give_back i p, ps_opening := opened, ps_leased := leased\<rparr>)) = mset (in_pool s)"
    if "\<not> pl_closed (ps_pool (s\<lparr>ps_pool := give_back i p, ps_opening := opened, ps_leased := leased\<rparr>))"
    unfolding eq using that assms(5) by (simp add: give_back_def ac_simps split: if_splits)
qed (use assms in \<open>auto simp: give_back_def pool_inv_def\<close>)

lemma put_tcp_fields [simp]:
  "pl_free (put_tcp i c p) = pl_free p" "pl_closed (put_tcp i c p) = pl_closed p" "pl_slots (put_tcp i c p) = pl_slots p"
  "pl_conns (put_tcp i c p) = (pl_conns p)(i := c)"
  by (simp_all add: put_tcp_def)

lemma put_tcp_inv: "pool_inv slots options s \<Longrightarrow> kc_options c = options \<Longrightarrow> pool_inv slots options (s\<lparr>ps_pool := put_tcp i c (ps_pool s)\<rparr>)"
  by (auto simp: pool_inv_def)

lemma release_inv:
  assumes "pool_inv slots options s" and "pool_act (L_release i) s = Some s'"
  shows "pool_inv slots options s'"
proof -
  have i: "i \<in> set (ps_leased s)" "s' = s\<lparr>ps_pool := give_back i (ps_pool s), ps_opening := ps_opening s, ps_leased := remove1 i (ps_leased s)\<rparr>"
    using assms(2) by (simp_all split: if_splits)
  show ?thesis
    unfolding i(2) using assms(1) i(1) by (intro give_back_inv) (auto simp: pool_inv_def)
qed

lemma open_inv:
  assumes "pool_inv slots options s" and "pool_act (L_open i inp now) s = Some s'"
  shows "pool_inv slots options s'"
proof -
  let ?p = "ps_pool s"
  have i: "i \<in> set (ps_opening s)" and opt: "\<And>j. kc_options (pl_conns ?p j) = options"
    using assms by (auto simp: pool_inv_def split: if_splits)
  have ok: "pool_inv slots options (s\<lparr>ps_pool := put_tcp i c ?p, ps_opening := remove1 i (ps_opening s), ps_leased := ps_leased s @ [i]\<rparr>)" if "kc_options c = options" for c
    using assms(1) that opt i by (intro pool_inv_move [OF assms(1)]) (auto simp: pool_inv_def mset_remove1)
  have bad: "pool_inv slots options (s\<lparr>ps_pool := give_back i (put_tcp i c ?p), ps_opening := remove1 i (ps_opening s), ps_leased := ps_leased s\<rparr>)" if "kc_options c = options" for c
    using assms(1) that opt i by (intro give_back_inv) (auto simp: pool_inv_def)
  show ?thesis
  proof (cases "IsConnected (pl_conns ?p i)")
    case True
    with assms(2) i ok [of "BeginRequest now (pl_conns ?p i)"] opt show ?thesis
      by (simp add: lease_open_def)
  next
    case False
    then obtain b c where c: "tcp_Connect inp (pl_conns ?p i) = Some (b, c)"
      using assms(2) i by (auto simp: lease_open_def)
    then have "kc_options c = options"
      using connect_connected [OF c] opt by simp
    with False c assms(2) i ok [of "BeginRequest now c"] bad [of c] show ?thesis
      by (cases b) (auto simp: lease_open_def)
  qed
qed

lemma act_inv:
  assumes "pool_inv slots options s" and "pool_act x s = Some s'"
  shows "pool_inv slots options s'"
proof (cases x)
  case (L_send i data ws rs)
  then obtain ok out c where "SendAll data ws rs (pl_conns (ps_pool s) i) = Some (ok, out, c)" "length data < sz_mod" "s' = s\<lparr>ps_pool := put_tcp i c (ps_pool s)\<rparr>"
    using assms(2) by (auto split: if_splits)
  then show ?thesis
    using put_tcp_inv [OF assms(1)] use_options(1) assms(1) by (simp add: pool_inv_def)
next
  case (L_recv i len ws rs stream)
  then obtain ok got rest c where "RecvAll len ws rs stream (pl_conns (ps_pool s) i) = Some (ok, got, rest, c)" "len < sz_mod" "s' = s\<lparr>ps_pool := put_tcp i c (ps_pool s)\<rparr>"
    using assms(2) by (auto split: if_splits)
  then show ?thesis
    using put_tcp_inv [OF assms(1)] use_options(2) assms(1) by (simp add: pool_inv_def)
next
  case L_close
  have "\<And>i. kc_options (pl_conns (ps_pool s) i) = options"
    using assms(1) by (simp add: pool_inv_def)
  with L_close assms(2) show ?thesis
    by (intro pool_inv_move [OF assms(1)]) (auto simp: pool_Close_def)
qed (use assms take_inv open_inv release_inv in blast)+

lemma pool_reachable_inv: "pool_reachable slots options s \<Longrightarrow> pool_inv slots options s"
proof (induction rule: pool_reachable.induct)
  case (pool_begin ip_ok clock ip port acquire_timeout p)
  then show ?case
    by (auto simp: pool_new_def pool_start_def pool_inv_def tcp_connection_new_def rbind_def split: if_splits)
next
  case (pool_next s x s')
  then show ?case
    using act_inv by blast
qed

section \<open>Properties\<close>

fun pool_run :: "pool_action list \<Rightarrow> pool_system \<Rightarrow> pool_system option" where
  "pool_run [] s = Some s"
| "pool_run (x # xs) s = Option.bind (pool_act x s) (pool_run xs)"

lemma pool_run_reachable: "pool_run xs s = Some s' \<Longrightarrow> pool_reachable slots options s \<Longrightarrow> pool_reachable slots options s'"
  by (induction xs arbitrary: s) (auto simp: bind_eq_Some_conv intro: pool_next)

definition connect_example :: connect_input where
  "connect_example = \<lparr>cn_address_ok = True, cn_socket = 5, cn_epoll = 6, cn_add = True, cn_setup = True, cn_connect = Connect_pending, cn_error = False,
     cn_now = 0, cn_waits = [ready_at 10], cn_end = 20\<rparr>"

definition pool_example :: "pool_system option" where
  "pool_example = (case pool_new True (\<lambda>_. 0) ''127.0.0.1'' 8080 2 default_transport_options 5000 of
     Inl _ \<Rightarrow> None
   | Inr p \<Rightarrow> pool_run [L_take, L_take, L_take, L_open 1 connect_example 30, L_send 1 [1, 2] [ready_at 40] [Send_error], L_release 1, L_take] (pool_start p))"

lemma pool_example_facts: "map_option (\<lambda>s. (pl_closed (ps_pool s), pl_free (ps_pool s), ps_opening s, ps_leased s, kc_fd (pl_conns (ps_pool s) 1))) pool_example = Some (False, [], [0, 1], [], -1)"
  by code_simp



end
