(* ===== verification/Spec2Isabelle.thy ===== *)
theory Spec2Isabelle
  imports Kv_Client Rpc_Calls Serializer Program_History Transport_Guarantees Executor Connection_Pool
begin

text \<open>
  KVRPC: a key-value cache with an append-only log, a TCP server and an RPC layer, in C++.

  \<^bold>\<open>Parts and theories.\<close> The storage side: \<open>Lru_Cache\<close> (\<open>KVCache/include/lru_cache.h\<close>) and
  \<open>Sharded_Cache\<close> (\<open>sharded_cache.h\<close>) are the cache, both interpretations of the interface of
  \<open>Cache_Interface\<close>. \<open>Posix_Files\<close> is a file system with a volatile and a durable part on which
  \<open>Aof_Crc\<close>, \<open>Aof_Log\<close> and \<open>Aof_Durability\<close> (\<open>aof.h\<close>, \<open>aof.cpp\<close>) put the log. \<open>Kv_Protocol\<close>
  (\<open>kv_protocol.h\<close>) is the frame format of requests, replies and log records. \<open>Cache_Service\<close>
  (\<open>cache_service.h\<close>) executes batches of requests on cache and log; \<open>Service_Durability\<close> and
  \<open>Service_Recovery\<close> show what its acknowledgements mean. \<open>Kv_Client\<close> (\<open>kvcache_client.h\<close>)
  builds the requests and reads the replies.

  The network side: \<open>Net_Buffer\<close> (\<open>buffer.h\<close>), \<open>Event_Loop\<close> (\<open>event_loop.h\<close>, \<open>event_loop.cpp\<close>)
  and \<open>Tcp_Server\<close> with \<open>Server_Types\<close> (\<open>tcp_server.h\<close>, \<open>tcp_server.cpp\<close>). \<open>Server_Streams\<close> and
  \<open>Server_Turns\<close> hold the invariant of one I/O thread, \<open>Server_System\<close> the interleaving of accept
  loop, I/O threads and workers, \<open>Server_Guarantees\<close> what follows for every reachable state.
  \<open>Rpc_Protocol\<close> (\<open>rpc_protocol.h\<close>, \<open>proto/rpc.proto\<close>) and \<open>Rpc_Calls\<close> (\<open>rpc_server.h\<close>,
  \<open>rpc_client.h\<close>) are the RPC layer; \<open>Serializer\<close> (\<open>serializer.h\<close>) is a stand-alone codec.

  The client side: \<open>Client_Types\<close> holds the option structures and \<open>Socket_Calls\<close> the outcomes of
  socket calls. \<open>Async_Transport\<close> (\<open>async_transport.h\<close>, \<open>async_transport.cpp\<close>) is the transport of
  both clients, with one loop thread and several connections. \<open>Transport_Steps\<close> is a locale for
  properties that all its operations keep; \<open>Transport_Inv\<close> and \<open>Transport_Refs\<close> interpret it for
  the state invariant and for the references that closures hold, \<open>Transport_System\<close> interleaves
  callers and loop thread, \<open>Transport_Loops\<close> bounds the loops, \<open>Transport_Guarantees\<close> has the
  results. \<open>Executor\<close> (\<open>executor.h\<close>) is the thread pool, \<open>Tcp_Connection\<close> (\<open>tcp_connection.h\<close>,
  \<open>tcp_connection.cpp\<close>) the blocking connection, \<open>Connection_Pool\<close> (\<open>connection_pool.h\<close>) the pool
  of such connections.

  The program: \<open>Server_Program\<close> (\<open>KVCache/src/main.cpp\<close>) reads arguments and environment, starts
  the service and configures the server; \<open>Program_History\<close> runs the server with the handlers that
  \<open>main\<close> installs, and composes the results on server, service and log.

  \<open>Prelude\<close> holds the result type and lemmas on \<open>size_t\<close> and byte strings, \<open>Example_Encoding\<close> the
  encodings used by the concrete instances in the witnesses.

  \<^bold>\<open>Modelling.\<close> A class is a record, a method a function on it; an exception is \<open>Inl\<close> of the type
  \<open>exn\<close>, with the state as it is when the exception leaves the method. \<open>size_t\<close> is \<open>nat\<close> with
  \<open>sz_add\<close> and \<open>sz_sub\<close> modulo \<open>2 ^ 64\<close>; the invariants show where the arithmetic is exact. Wire
  integers are words. System calls are inputs: file operations work on the file system model and
  may fail or halt the machine at any point, results of \<open>send\<close>, \<open>recv\<close>, \<open>accept4\<close> and
  \<open>epoll_ctl\<close> are scripts, an exhausted script meaning that the call would block. Closures of the
  event loop are data (\<open>io_task\<close>) that \<open>exec_task\<close> interprets. Generated protobuf code is a
  codec, a parameter, with the round trip of what was serialised as hypothesis
  (\<open>codec_ok\<close>, \<open>env_codec_ok\<close>, \<open>message_codec_ok\<close>).

  \<^bold>\<open>What is shown.\<close> The cache is coherent with a map with expiry times, within its budgets, and
  evicts from the least recently used end. Replay of a log gives back what was logged, damage is
  rejected, a batch that was acknowledged survives every crash, a rewrite is atomic. The service
  answers as a map would, and a restart after a crash recovers exactly the acknowledged writes
  and possibly the interrupted batch. Frames and values round-trip in both protocols. An RPC call
  completes with what the registered function returns. The event loop refines sets of watches
  and timers and a queue of tasks. The server cuts the stream of every connection into its
  frames, answers them in order, and keeps its limits, in every interleaving of its threads.
  The running program serves all connections from one map. The transport completes every request
  exactly once, with the response that has its identifier or with an error, by its deadline, and
  keeps its limits; its loops end. The executor runs every admitted task once and its destructor
  returns; blocking transfers are exact and end by the deadline; a pooled connection is never in
  two hands. A setting of the program is read as its numeral, with one exception: a negative
  number after a blank is accepted and wraps around.

  \<^bold>\<open>Bounds.\<close> \<open>BATCH_LIMIT\<close>, \<open>BUFFER_LIMIT\<close> (\<open>2 ^ 62\<close> bytes through a buffer) and \<open>stats_small\<close> keep
  counters away from the wrap-around at \<open>2 ^ 64\<close>; \<open>clock_ok\<close> says that clock values are those of
  a 64-bit millisecond clock. A file write that is interrupted is retried as the code does it.

  The loops of the transport take the outstanding requests, buffered bytes or waiting requests as
  fuel, and \<open>Transport_Loops\<close> shows that it is enough; a blocking call on an exhausted script is
  \<open>None\<close>, and a clock reading at the deadline rules that out.

  \<^bold>\<open>Not modelled.\<close> The creation of the listening socket and of the threads in
  \<open>TcpServer::Runtime::Run\<close> and of the descriptors in \<open>EventLoop\<close>, which is system calls only;
  locks and condition variables, in place of which a critical section or a closure of a loop is
  one step; what the programs print; example and benchmark programs.
\<close>

end
